(* ===== verification/Prelude.thy ===== *)
theory Prelude
  imports Main "HOL-Library.Word" "HOL-Library.Monad_Syntax"
begin

unbundle bit_operations_syntax

text \<open>
  Shared vocabulary of the NeoOS kernel development: the fixed-width integer types of the
  C sources, the errno values the kernel returns, and the generic facts on lists, options
  and words on which the component theories rest.

  A C integer type of width \<open>w\<close> is a \<open>w word\<close>: \<open>+\<close>, \<open>-\<close> and \<open>*\<close> wrap, \<open>sint\<close>
  reads it as two's complement (a C cast to the signed type of the same width). Integers
  that index arrays or count objects, and that the code keeps inside a small range by an
  explicit check, are \<open>nat\<close> or \<open>int\<close>.
\<close>

section \<open>Machine integers and errno values\<close>

type_synonym u8 = "8 word"
type_synonym u16 = "16 word"
type_synonym u32 = "32 word"
type_synonym u64 = "64 word"
type_synonym addr = "64 word"

text \<open>The errno numbers of \<open>src/kernel/errno.h\<close> that the modelled code returns.\<close>

abbreviation (input) EPERM :: int where "EPERM \<equiv> 1"
abbreviation (input) EINTR :: int where "EINTR \<equiv> 4"
abbreviation (input) EBADF :: int where "EBADF \<equiv> 9"
abbreviation (input) EAGAIN :: int where "EAGAIN \<equiv> 11"
abbreviation (input) ENOMEM :: int where "ENOMEM \<equiv> 12"
abbreviation (input) EINVAL :: int where "EINVAL \<equiv> 22"
abbreviation (input) EMFILE :: int where "EMFILE \<equiv> 24"
abbreviation (input) EPIPE :: int where "EPIPE \<equiv> 32"

section \<open>Collections of simplification rules\<close>

named_theorems bit_defs \<open>definitions of bit-level accessors\<close>
named_theorems heap_frame \<open>heap updates that leave an assertion unchanged\<close>

section \<open>Lists\<close>

lemma nth_list_update_if:
  "i < length xs \<Longrightarrow> xs[i := v] ! j = (if i = j then v else xs ! j)"
  by (simp add: nth_list_update)

text \<open>A loop over a list whose body may fail.\<close>

primrec fold_opt :: "('a \<Rightarrow> 's \<Rightarrow> 's option) \<Rightarrow> 'a list \<Rightarrow> 's \<Rightarrow> 's option" where
  "fold_opt f [] s = Some s"
| "fold_opt f (x # xs) s = (case f x s of None \<Rightarrow> None | Some s' \<Rightarrow> fold_opt f xs s')"

lemma fold_opt_append [simp]:
  "fold_opt f (xs @ ys) s = (case fold_opt f xs s of None \<Rightarrow> None | Some s' \<Rightarrow> fold_opt f ys s')"
  by (induction xs arbitrary: s) (auto split: option.split)

lemma fold_opt_cong [fundef_cong]:
  "xs = ys \<Longrightarrow> s = t \<Longrightarrow> (\<And>x u. x \<in> set ys \<Longrightarrow> f x u = g x u) \<Longrightarrow> fold_opt f xs s = fold_opt g ys t"
  by (induction ys arbitrary: xs s t) (auto split: option.split)

text \<open>A loop invariant for such a loop.\<close>

lemma fold_opt_invariant:
  assumes "P s" and "\<And>x s. x \<in> set xs \<Longrightarrow> P s \<Longrightarrow> \<exists>s'. f x s = Some s' \<and> P s'"
  shows "\<exists>s'. fold_opt f xs s = Some s' \<and> P s'"
  using assms by (induction xs arbitrary: s) fastforce+

section \<open>Words\<close>

lemma bit_and_1_iff: "(w AND 1 \<noteq> (0 :: 'a :: len word)) \<longleftrightarrow> bit w 0"
  by (simp add: and_one_eq bit_0 odd_iff_mod_2_eq_one)

lemma drop_bit_and_1_iff:
  "(drop_bit n w AND 1 \<noteq> (0 :: 'a :: len word)) \<longleftrightarrow> bit w n"
  by (simp add: bit_and_1_iff bit_drop_bit_eq)

end
