(* ===== verification/Alloc_Spec.thy ===== *)
theory Alloc_Spec
  imports Prelude
begin

text \<open>
  The contract of a kernel allocator of identities (pids, file descriptors, physical
  frames): what a client relies on is that an allocation returns an identity nobody holds,
  and that a release gives up exactly the identity released. \<open>owns\<close> is the client side: a
  state reached by allocations and by releases of identities that are held, together with
  the list of identities held. The locale proves once that what is held never clashes;
  every allocator of the development interprets it.
\<close>

section \<open>Clients of an allocator\<close>

inductive owns ::
  "('s \<Rightarrow> ('i \<times> 's) option) \<Rightarrow> ('i \<Rightarrow> 's \<Rightarrow> 's) \<Rightarrow> 's \<Rightarrow> 's \<Rightarrow> 'i list \<Rightarrow> bool"
  for alloc release s0
where
  owns_init: "owns alloc release s0 s0 []"
| owns_alloc: "owns alloc release s0 s hs \<Longrightarrow> alloc s = Some (i, s') \<Longrightarrow>
    owns alloc release s0 s' (i # hs)"
| owns_release: "owns alloc release s0 s hs \<Longrightarrow> i \<in> set hs \<Longrightarrow>
    owns alloc release s0 (release i s) (remove1 i hs)"

section \<open>The allocator interface\<close>

locale id_allocator =
  fixes inv :: "'s \<Rightarrow> bool"
    and live :: "'s \<Rightarrow> 'i set"
    and alloc :: "'s \<Rightarrow> ('i \<times> 's) option"
    and release :: "'i \<Rightarrow> 's \<Rightarrow> 's"
  assumes alloc_inv: "inv s \<Longrightarrow> alloc s = Some (i, s') \<Longrightarrow> inv s'"
    and alloc_fresh: "inv s \<Longrightarrow> alloc s = Some (i, s') \<Longrightarrow> i \<notin> live s"
    and alloc_live: "inv s \<Longrightarrow> alloc s = Some (i, s') \<Longrightarrow> live s' = insert i (live s)"
    and release_inv: "inv s \<Longrightarrow> i \<in> live s \<Longrightarrow> inv (release i s)"
    and release_live: "inv s \<Longrightarrow> i \<in> live s \<Longrightarrow> live (release i s) = live s - {i}"
begin

lemma owns_invariant:
  assumes "owns alloc release s0 s hs" and "inv s0"
  shows "inv s \<and> distinct hs \<and> live s0 \<inter> set hs = {} \<and> live s = live s0 \<union> set hs"
  using assms(1)
proof (induction rule: owns.induct)
  case owns_init
  then show ?case using assms(2) by simp
next
  case (owns_alloc s hs i s')
  then have "inv s" and "i \<notin> live s" and "live s' = insert i (live s)" and "inv s'"
    using alloc_inv alloc_fresh alloc_live by blast+
  with owns_alloc.IH show ?case by auto
next
  case (owns_release s hs i)
  then have "inv s" and "i \<in> live s" by auto
  then have "inv (release i s)" and "live (release i s) = live s - {i}"
    using release_inv release_live by blast+
  with owns_release show ?case by auto
qed

lemma held_distinct:
  "owns alloc release s0 s hs \<Longrightarrow> inv s0 \<Longrightarrow> distinct hs"
  using owns_invariant by blast

lemma held_not_reissued:
  assumes "owns alloc release s0 s hs" and "inv s0" and "alloc s = Some (i, s')"
  shows "i \<notin> set hs"
proof -
  from assms(1,2) have "inv s" and "live s = live s0 \<union> set hs"
    using owns_invariant by blast+
  with assms(3) show ?thesis using alloc_fresh by blast
qed

end

end
