(* ===== verification/Pid_Alloc.thy ===== *)
theory Pid_Alloc
  imports Alloc_Spec
begin

text \<open>
  The pid number allocator, \<open>src/kernel/sched/pid_alloc.c\<close> and \<open>pid_alloc.h\<close>: a bitmap
  of the pid space with a rising cursor. Every operation runs under the allocator's lock,
  so an operation is one state transformer. Shown here: an allocation returns the first
  free pid at or cyclically after the cursor, it fails only when every pid is in use, and
  the allocator meets the interface \<open>id_allocator\<close>.
\<close>

section \<open>State and operations\<close>

abbreviation (input) MAX_PIDS :: nat where "MAX_PIDS \<equiv> 1048576"
abbreviation (input) PID_WORDS :: nat where "PID_WORDS \<equiv> 16384"

record pid_allocator =
  bitmap :: "u64 list"
  cursor :: nat
  wrapped :: bool

definition bit_test :: "u64 list \<Rightarrow> nat \<Rightarrow> bool" where
  "bit_test bm pid \<longleftrightarrow> drop_bit (pid AND 63) (bm ! drop_bit 6 pid) AND 1 \<noteq> 0"

definition bit_set :: "u64 list \<Rightarrow> nat \<Rightarrow> u64 list" where
  "bit_set bm pid = bm[drop_bit 6 pid := bm ! drop_bit 6 pid OR push_bit (pid AND 63) 1]"

definition bit_clear :: "u64 list \<Rightarrow> nat \<Rightarrow> u64 list" where
  "bit_clear bm pid =
     bm[drop_bit 6 pid := bm ! drop_bit 6 pid AND NOT (push_bit (pid AND 63) 1)]"

definition pid_allocator_init :: pid_allocator where
  "pid_allocator_init =
     \<lparr>bitmap = bit_set (replicate PID_WORDS 0) 0, cursor = 1, wrapped = False\<rparr>"

text \<open>The scan skips a whole word when all its bits are set.\<close>

function scan :: "u64 list \<Rightarrow> nat \<Rightarrow> nat \<Rightarrow> nat" where
  "scan bm pid to =
     (if pid < to
      then (let w = drop_bit 6 pid
            in if bm ! w = NOT 0 then scan bm (push_bit 6 (w + 1)) to
               else if \<not> bit_test bm pid then pid
               else scan bm (pid + 1) to)
      else 0)"
  by pat_completeness auto
termination
proof (relation "measure (\<lambda>(bm, pid, to). to - pid)", goal_cases)
  case (2 bm pid to w)
  have "pid < (pid div 64 + 1) * 64" by (simp add: dividend_less_div_times)
  with 2 show ?case by (simp add: drop_bit_eq_div push_bit_eq_mult)
qed auto

definition pid_alloc :: "pid_allocator \<Rightarrow> nat \<times> pid_allocator" where
  "pid_alloc a =
     (let pid0 = scan (bitmap a) (cursor a) MAX_PIDS;
          a1 = (if pid0 = 0 then a\<lparr>wrapped := True\<rparr> else a);
          pid = (if pid0 = 0 then scan (bitmap a1) 1 (cursor a1) else pid0)
      in if pid = 0 then (0, a1)
         else (let a2 = a1\<lparr>bitmap := bit_set (bitmap a1) pid\<rparr>
               in if pid + 1 \<ge> MAX_PIDS
                  then (pid, a2\<lparr>cursor := 1, wrapped := True\<rparr>)
                  else (pid, a2\<lparr>cursor := pid + 1\<rparr>)))"

definition pid_free :: "int \<Rightarrow> pid_allocator \<Rightarrow> pid_allocator" where
  "pid_free pid a =
     (if pid \<le> 0 \<or> pid \<ge> int MAX_PIDS then a
      else a\<lparr>bitmap := bit_clear (bitmap a) (nat pid)\<rparr>)"

definition pid_alloc_has_wrapped :: "pid_allocator \<Rightarrow> bool" where
  "pid_alloc_has_wrapped a = wrapped a"

declare scan.simps [simp del]

section \<open>Invariant and abstraction\<close>

definition pid_inv :: "pid_allocator \<Rightarrow> bool" where
  "pid_inv a \<longleftrightarrow> length (bitmap a) = PID_WORDS \<and> 1 \<le> cursor a \<and> cursor a < MAX_PIDS
     \<and> bit_test (bitmap a) 0"

definition live_pids :: "pid_allocator \<Rightarrow> nat set" where
  "live_pids a = {p. p < MAX_PIDS \<and> bit_test (bitmap a) p}"

section \<open>Bits of the map\<close>

lemma and_63_mod: "(p :: nat) AND 63 = p mod 64"
  using take_bit_eq_mod [of 6 p] by (simp add: take_bit_eq_mask mask_numeral)

lemma shift_6_div: "drop_bit 6 (p :: nat) = p div 64"
  by (simp add: drop_bit_eq_div)

lemma bit_test_iff: "bit_test bm p \<longleftrightarrow> bit (bm ! (p div 64)) (p mod 64)"
  by (simp add: bit_test_def drop_bit_and_1_iff and_63_mod shift_6_div)

lemma same_pid: "p div 64 = q div 64 \<Longrightarrow> p mod 64 = q mod 64 \<Longrightarrow> p = (q :: nat)"
  by (metis mult_div_mod_eq)

lemma bit_test_bit_set:
  assumes "p < 64 * length bm"
  shows "bit_test (bit_set bm p) q \<longleftrightarrow> q = p \<or> bit_test bm q"
proof -
  from assms have "p div 64 < length bm" by (simp add: less_mult_imp_div_less)
  then show ?thesis
    using same_pid [of q p]
    by (auto simp: bit_test_iff bit_set_def and_63_mod shift_6_div nth_list_update
        bit_or_iff bit_exp_iff)
qed

lemma bit_test_bit_clear:
  assumes "p < 64 * length bm"
  shows "bit_test (bit_clear bm p) q \<longleftrightarrow> q \<noteq> p \<and> bit_test bm q"
proof -
  from assms have "p div 64 < length bm" by (simp add: less_mult_imp_div_less)
  then show ?thesis
    using same_pid [of q p]
    by (auto simp: bit_test_iff bit_clear_def and_63_mod shift_6_div nth_list_update
        bit_and_iff bit_not_iff bit_exp_iff)
qed

lemma length_bit_ops [simp]:
  "length (bit_set bm p) = length bm" "length (bit_clear bm p) = length bm"
  by (simp_all add: bit_set_def bit_clear_def)

section \<open>The scan\<close>

lemma scan_found:
  "scan bm pid to = p \<Longrightarrow> p \<noteq> 0 \<Longrightarrow>
     pid \<le> p \<and> p < to \<and> \<not> bit_test bm p \<and> (\<forall>q. pid \<le> q \<and> q < p \<longrightarrow> bit_test bm q)"
proof (induction bm pid to rule: scan.induct)
  case (1 bm pid to)
  let ?w = "drop_bit 6 pid"
  have lt: "pid < to" using 1(3,4) by (auto simp: scan.simps [of bm pid to] split: if_splits)
  consider (full) "bm ! ?w = NOT 0" | (free) "bm ! ?w \<noteq> NOT 0" "\<not> bit_test bm pid"
    | (taken) "bm ! ?w \<noteq> NOT 0" "bit_test bm pid" by blast
  then show ?case
  proof cases
    case full
    let ?next = "push_bit 6 (?w + 1)"
    have skip: "bit_test bm q" if "pid \<le> q" "q < ?next" for q
    proof -
      from that have "q div 64 = pid div 64"
        by (simp add: drop_bit_eq_div push_bit_eq_mult)
      with full show ?thesis by (simp add: bit_test_iff drop_bit_eq_div bit_not_iff)
    qed
    have "pid < ?next" by (simp add: drop_bit_eq_div push_bit_eq_mult dividend_less_div_times)
    with 1(1) [OF lt refl full] 1(3,4) lt full skip show ?thesis
      by (simp add: scan.simps [of bm pid to] Let_def) (metis leI less_le_trans nat_less_le)
  next
    case free
    with 1(3) lt show ?thesis by (auto simp: scan.simps [of bm pid to] Let_def)
  next
    case taken
    then have "scan bm (pid + 1) to = p"
      using 1(3) lt by (simp add: scan.simps [of bm pid to] Let_def)
    with 1(2) [OF lt refl taken(1)] taken(2) 1(4)
    have "pid + 1 \<le> p \<and> p < to \<and> \<not> bit_test bm p \<and> (\<forall>q. pid + 1 \<le> q \<and> q < p \<longrightarrow> bit_test bm q)"
      by simp
    with taken(2) show ?thesis by (metis Suc_eq_plus1 Suc_leD Suc_leI le_neq_implies_less)
  qed
qed

lemma scan_none:
  "scan bm pid to = 0 \<Longrightarrow> 0 < pid \<Longrightarrow> pid \<le> q \<Longrightarrow> q < to \<Longrightarrow> bit_test bm q"
proof (induction bm pid to rule: scan.induct)
  case (1 bm pid to)
  let ?w = "drop_bit 6 pid"
  have lt: "pid < to" using 1(5,6) by simp
  show ?case
  proof (cases "bm ! ?w = NOT 0")
    case full: True
    let ?next = "push_bit 6 (?w + 1)"
    have none: "scan bm ?next to = 0"
      using 1(3) lt full by (simp add: scan.simps [of bm pid to] Let_def)
    show ?thesis
    proof (cases "q < ?next")
      case True
      with 1(5) have "q div 64 = pid div 64"
        by (simp add: drop_bit_eq_div push_bit_eq_mult)
      with full show ?thesis by (simp add: bit_test_iff drop_bit_eq_div bit_not_iff)
    next
      case False
      then show ?thesis
        using 1(1) [OF lt refl full none] 1(6) by (simp add: push_bit_eq_mult)
    qed
  next
    case False
    with 1(3,4) lt have "bit_test bm pid" and "scan bm (pid + 1) to = 0"
      by (auto simp: scan.simps [of bm pid to] Let_def split: if_splits)
    with 1(2) [OF lt refl False] 1(5,6) show ?thesis
      by (cases "q = pid") auto
  qed
qed

section \<open>Allocation\<close>

lemma pid_alloc_cases:
  assumes "pid_inv a" and "pid_alloc a = (p, a')"
  obtains (ahead) "cursor a \<le> p" "p < MAX_PIDS" "\<not> bit_test (bitmap a) p"
      "\<forall>q. cursor a \<le> q \<and> q < p \<longrightarrow> bit_test (bitmap a) q"
    | (wrap) "1 \<le> p" "p < cursor a" "\<not> bit_test (bitmap a) p" "wrapped a'"
      "\<forall>q. cursor a \<le> q \<and> q < MAX_PIDS \<longrightarrow> bit_test (bitmap a) q"
      "\<forall>q. 1 \<le> q \<and> q < p \<longrightarrow> bit_test (bitmap a) q"
    | (full) "p = 0" "a' = a\<lparr>wrapped := True\<rparr>"
      "\<forall>q. 1 \<le> q \<and> q < MAX_PIDS \<longrightarrow> bit_test (bitmap a) q"
proof (cases "scan (bitmap a) (cursor a) MAX_PIDS = 0")
  case False
  with assms(2) have "p = scan (bitmap a) (cursor a) MAX_PIDS" and "p \<noteq> 0"
    by (auto simp: pid_alloc_def Let_def split: if_splits)
  then show ?thesis using scan_found [of "bitmap a" "cursor a" MAX_PIDS p] ahead by blast
next
  case True
  from assms(1) have cur: "0 < cursor a" "cursor a < MAX_PIDS" by (auto simp: pid_inv_def)
  have hi: "\<forall>q. cursor a \<le> q \<and> q < MAX_PIDS \<longrightarrow> bit_test (bitmap a) q"
    using scan_none [OF True cur(1)] by blast
  show ?thesis
  proof (cases "scan (bitmap a) 1 (cursor a) = 0")
    case low: True
    with True assms(2) have "p = 0" "a' = a\<lparr>wrapped := True\<rparr>"
      by (auto simp: pid_alloc_def Let_def)
    moreover have "bit_test (bitmap a) q" if "1 \<le> q" "q < MAX_PIDS" for q
      using scan_none [OF low, of q] hi that by (cases "q < cursor a") auto
    ultimately show ?thesis using full by blast
  next
    case False
    with True assms(2) have p: "p = scan (bitmap a) 1 (cursor a)" "p \<noteq> 0" and w: "wrapped a'"
      by (auto simp: pid_alloc_def Let_def split: if_splits)
    then show ?thesis using scan_found [of "bitmap a" 1 "cursor a" p] hi wrap by blast
  qed
qed

lemma pid_alloc_bitmap:
  "pid_alloc a = (p, a') \<Longrightarrow> p \<noteq> 0 \<Longrightarrow> bitmap a' = bit_set (bitmap a) p"
  by (auto simp: pid_alloc_def Let_def split: if_splits)

lemma pid_alloc_cursor:
  "pid_alloc a = (p, a') \<Longrightarrow> p \<noteq> 0 \<Longrightarrow> cursor a' = (if p + 1 \<ge> MAX_PIDS then 1 else p + 1)"
  by (auto simp: pid_alloc_def Let_def split: if_splits)

lemma pid_alloc_range:
  assumes "pid_inv a" and "pid_alloc a = (p, a')" and "p \<noteq> 0"
  shows "p < MAX_PIDS \<and> \<not> bit_test (bitmap a) p"
  using assms(1,2)
proof (cases rule: pid_alloc_cases)
  case ahead
  then show ?thesis by simp
next
  case wrap
  then show ?thesis using assms(1) by (simp add: pid_inv_def)
next
  case full
  then show ?thesis using assms(3) by simp
qed

lemma pid_alloc_inv:
  assumes "pid_inv a" and "pid_alloc a = (p, a')"
  shows "pid_inv a'"
proof (cases "p = 0")
  case True
  from assms show ?thesis
    by (cases rule: pid_alloc_cases) (use True assms(1) in \<open>auto simp: pid_inv_def\<close>)
next
  case False
  with assms pid_alloc_range [OF assms] show ?thesis
    by (auto simp: pid_inv_def pid_alloc_bitmap pid_alloc_cursor bit_test_bit_set)
qed

lemma pid_alloc_live:
  assumes "pid_inv a" and "pid_alloc a = (p, a')" and "p \<noteq> 0"
  shows "live_pids a' = insert p (live_pids a)"
  using assms pid_alloc_range [OF assms]
  by (auto simp: live_pids_def pid_alloc_bitmap bit_test_bit_set pid_inv_def)

lemma pid_free_inv:
  "pid_inv a \<Longrightarrow> pid_inv (pid_free p a)"
  by (auto simp: pid_free_def pid_inv_def bit_test_bit_clear)

lemma pid_free_live:
  "pid_inv a \<Longrightarrow> live_pids (pid_free p a) = live_pids a - (if 0 < p then {nat p} else {})"
  by (auto simp: pid_free_def pid_inv_def live_pids_def bit_test_bit_clear)

lemma pid_allocator_init_inv: "pid_inv pid_allocator_init"
  by (simp add: pid_inv_def pid_allocator_init_def bit_test_bit_set)

lemma zeroed_bitmap_free: "p < MAX_PIDS \<Longrightarrow> \<not> bit_test (replicate PID_WORDS 0) p"
  by (simp add: bit_test_iff less_mult_imp_div_less)

lemma pid_allocator_init_live: "live_pids pid_allocator_init = {0}"
  by (auto simp: live_pids_def pid_allocator_init_def bit_test_bit_set zeroed_bitmap_free)

section \<open>The interface\<close>

text \<open>The allocator as its clients see it: 0 is the failure value.\<close>

definition pid_get :: "pid_allocator \<Rightarrow> (nat \<times> pid_allocator) option" where
  "pid_get a = (case pid_alloc a of (p, a') \<Rightarrow> if p = 0 then None else Some (p, a'))"

definition pid_put :: "nat \<Rightarrow> pid_allocator \<Rightarrow> pid_allocator" where
  "pid_put p a = pid_free (int p) a"

definition live_nonzero :: "pid_allocator \<Rightarrow> nat set" where
  "live_nonzero a = live_pids a - {0}"

lemma pid_get_SomeD:
  "pid_get a = Some (p, a') \<Longrightarrow> pid_alloc a = (p, a') \<and> p \<noteq> 0"
  by (auto simp: pid_get_def split: prod.splits if_splits)

interpretation pid: id_allocator pid_inv live_nonzero pid_get pid_put
proof
  fix a p a'
  assume inv: "pid_inv a" and "pid_get a = Some (p, a')"
  then have al: "pid_alloc a = (p, a')" "p \<noteq> 0" by (auto dest: pid_get_SomeD)
  from inv al(1) show "pid_inv a'" by (rule pid_alloc_inv)
  from pid_alloc_range [OF inv al] show "p \<notin> live_nonzero a"
    by (simp add: live_nonzero_def live_pids_def)
  from pid_alloc_live [OF inv al] al(2) show "live_nonzero a' = insert p (live_nonzero a)"
    by (auto simp: live_nonzero_def)
next
  fix a p
  assume inv: "pid_inv a" and p: "p \<in> live_nonzero a"
  from inv show "pid_inv (pid_put p a)" by (simp add: pid_put_def pid_free_inv)
  from inv p show "live_nonzero (pid_put p a) = live_nonzero a - {p}"
    by (auto simp: live_nonzero_def pid_put_def pid_free_live)
qed

section \<open>Properties\<close>

text \<open>How far ahead of the cursor a pid lies on the cyclic pid space.\<close>

definition cyc_dist :: "nat \<Rightarrow> nat \<Rightarrow> nat" where
  "cyc_dist c q = (if c \<le> q then q - c else q + MAX_PIDS - c)"

lemma pid_alloc_nearer_taken:
  assumes "pid_inv a" and "pid_alloc a = (p, a')" and "p \<noteq> 0"
    and "1 \<le> q" and "q < MAX_PIDS" and "cyc_dist (cursor a) q < cyc_dist (cursor a) p"
  shows "q \<in> live_pids a"
proof -
  have cur: "1 \<le> cursor a" "cursor a < MAX_PIDS" using assms(1) by (auto simp: pid_inv_def)
  from assms(1,2) have "bit_test (bitmap a) q"
  proof (cases rule: pid_alloc_cases)
    case ahead
    then show ?thesis using cur assms(4-6) by (auto simp: cyc_dist_def split: if_splits)
  next
    case wrap
    then show ?thesis
      using cur assms(4-6) by (cases "cursor a \<le> q") (simp_all add: cyc_dist_def)
  next
    case full
    then show ?thesis using assms(3) by simp
  qed
  with assms(5) show ?thesis by (simp add: live_pids_def)
qed

lemma pid_alloc_zero:
  assumes "pid_inv a" and "pid_alloc a = (0, a')"
  shows "bitmap a' = bitmap a \<and> (\<forall>q. 1 \<le> q \<and> q < MAX_PIDS \<longrightarrow> bit_test (bitmap a) q)"
  using assms
proof (cases rule: pid_alloc_cases)
  case ahead
  then show ?thesis using assms(1) by (simp add: pid_inv_def)
qed simp_all

text \<open>A successful \<open>pid_alloc\<close> returns a pid between 1 and \<open>MAX_PIDS - 1\<close> that was not
  in use, marks exactly that pid as in use, and it is the free pid nearest to the cursor
  going upwards and round the end: every pid strictly nearer is in use.\<close>

theorem pid_alloc_nearest_free:
  assumes "pid_inv a" and "pid_alloc a = (p, a')" and "p \<noteq> 0"
  shows "1 \<le> p \<and> p < MAX_PIDS \<and> p \<notin> live_pids a \<and> live_pids a' = insert p (live_pids a)
    \<and> (\<forall>q. 1 \<le> q \<and> q < MAX_PIDS \<and> cyc_dist (cursor a) q < cyc_dist (cursor a) p
          \<longrightarrow> q \<in> live_pids a)"
proof (intro conjI)
  show "1 \<le> p" using assms(3) by simp
  show "p < MAX_PIDS" "p \<notin> live_pids a"
    using pid_alloc_range [OF assms] by (simp_all add: live_pids_def)
  show "live_pids a' = insert p (live_pids a)" by (rule pid_alloc_live [OF assms])
  show "\<forall>q. 1 \<le> q \<and> q < MAX_PIDS \<and> cyc_dist (cursor a) q < cyc_dist (cursor a) p
          \<longrightarrow> q \<in> live_pids a"
    using pid_alloc_nearer_taken [OF assms] by blast
qed

theorem pid_alloc_nearest_free_witness:
  "pid_inv pid_allocator_init \<and> 1 \<notin> live_pids pid_allocator_init
   \<and> live_pids (snd (pid_alloc pid_allocator_init)) = insert 1 {0}"
proof -
  define a where "a = pid_allocator_init"
  have inv: "pid_inv a" and live: "live_pids a = {0}"
    unfolding a_def by (rule pid_allocator_init_inv, rule pid_allocator_init_live)
  have cur: "cursor a = 1" by (simp add: a_def pid_allocator_init_def)
  have "1 \<notin> live_pids a" by (simp add: live)
  then have free: "\<not> bit_test (bitmap a) 1" by (simp add: live_pids_def)
  then have "bitmap a ! 0 \<noteq> NOT 0" by (auto simp: bit_test_iff bit_not_iff)
  with free have sc: "scan (bitmap a) 1 MAX_PIDS = 1" 
    by (simp add: scan.simps [of "bitmap a" "Suc 0" MAX_PIDS] Let_def shift_6_div)
  then have p: "fst (pid_alloc a) = 1" using cur by (simp add: pid_alloc_def Let_def)
  then have al: "pid_alloc a = (1, snd (pid_alloc a))" by (metis prod.collapse)
  from pid_alloc_nearest_free [OF inv al] have "live_pids (snd (pid_alloc a)) = insert 1 {0}"
    using live by simp
  with inv live show ?thesis by (simp add: a_def)
qed

text \<open>\<open>pid_alloc\<close> reports exhaustion (returns 0) exactly when every pid from 1 to
  \<open>MAX_PIDS - 1\<close> is in use; in that case no pid changes hands.\<close>

theorem pid_alloc_fails_iff_full:
  assumes "pid_inv a"
  shows "(fst (pid_alloc a) = 0 \<longleftrightarrow> (\<forall>q. 1 \<le> q \<and> q < MAX_PIDS \<longrightarrow> q \<in> live_pids a))
    \<and> (fst (pid_alloc a) = 0 \<longrightarrow> live_pids (snd (pid_alloc a)) = live_pids a)"
proof -
  obtain p a' where al: "pid_alloc a = (p, a')" by (cases "pid_alloc a")
  show ?thesis
  proof (cases "p = 0")
    case True
    with pid_alloc_zero [OF assms] al show ?thesis by (simp add: live_pids_def)
  next
    case False
    with pid_alloc_range [OF assms al] have "1 \<le> p" "p < MAX_PIDS" "p \<notin> live_pids a"
      by (simp_all add: live_pids_def)
    with al False show ?thesis by auto
  qed
qed

theorem pid_alloc_fails_iff_full_witness:
  "fst (pid_alloc pid_allocator_init) \<noteq> 0"
proof
  assume "fst (pid_alloc pid_allocator_init) = 0"
  then have all: "\<forall>q. 1 \<le> q \<and> q < MAX_PIDS \<longrightarrow> q \<in> live_pids pid_allocator_init"
    using pid_alloc_fails_iff_full [OF pid_allocator_init_inv] by blast
  have "2 \<in> live_pids pid_allocator_init" by (rule all [rule_format]) simp
  then show False by (simp add: pid_allocator_init_live)
qed

text \<open>C28: no two holders share a pid. In any state reached from the initial allocator by
  allocations and by frees of held pids, the pids held are pairwise distinct and none is
  the idle task's pid 0.\<close>

theorem pid_holders_distinct:
  assumes "owns pid_get pid_put pid_allocator_init a held"
  shows "distinct held \<and> 0 \<notin> set held \<and> live_pids a = insert 0 (set held)"
proof -
  have "pid_inv a \<and> distinct held \<and> live_nonzero a = live_nonzero pid_allocator_init \<union> set held"
    using pid.owns_invariant [OF assms pid_allocator_init_inv] by blast
  then have *: "distinct held" "live_pids a - {0} = set held" "pid_inv a"
    by (auto simp: live_nonzero_def pid_allocator_init_live)
  moreover from *(3) have "0 \<in> live_pids a" by (simp add: pid_inv_def live_pids_def)
  ultimately show ?thesis by auto
qed

theorem pid_holders_distinct_witness:
  "\<exists>a p. owns pid_get pid_put pid_allocator_init a [p] \<and> live_pids a = {0, p}"
proof -
  have "fst (pid_alloc pid_allocator_init) \<noteq> 0"
  proof
    assume "fst (pid_alloc pid_allocator_init) = 0"
    then have al: "pid_alloc pid_allocator_init = (0, snd (pid_alloc pid_allocator_init))"
      by (metis prod.collapse)
    have all: "\<forall>q. 1 \<le> q \<and> q < MAX_PIDS \<longrightarrow> bit_test (bitmap pid_allocator_init) q"
      using pid_alloc_zero [OF pid_allocator_init_inv al] by blast
    have "bit_test (bitmap pid_allocator_init) 2" by (rule all [rule_format]) simp
    then have "2 \<in> live_pids pid_allocator_init" by (simp add: live_pids_def)
    then show False by (simp add: pid_allocator_init_live)
  qed
  then obtain p a where "pid_get pid_allocator_init = Some (p, a)"
    by (cases "pid_alloc pid_allocator_init") (auto simp: pid_get_def)
  then have "owns pid_get pid_put pid_allocator_init a [p]"
    by (rule owns_alloc [OF owns_init])
  with pid_holders_distinct [OF this] show ?thesis by auto
qed

end
