(* ===== verification/Rbtree.thy ===== *)
theory Rbtree
  imports Prelude
begin

text \<open>
  The intrusive red-black tree of \<open>src/kernel/lib/rbtree.c\<close> and \<open>rbtree.h\<close>, on an
  explicit heap. A node is the C struct: one word holding the parent pointer and the
  colour (bit 0, 1 = black), and two child pointers. The heap is a partial map from
  addresses to nodes, so every dereference is a lookup that can fail: a result
  \<open>Some s\<close> says that the operation returns and that no NULL or dangling pointer was
  dereferenced on the way. Loops are \<open>partial_function (option)\<close>.

  The operations here are the statements of the C code in their order. The theories
  \<open>Rbtree_Rep\<close> and the ones after it relate them to trees.
\<close>

section \<open>Nodes and the heap\<close>

abbreviation (input) NULL :: addr where "NULL \<equiv> 0"

record rb_node =
  rb_parent_color :: u64
  rb_right :: addr
  rb_left :: addr

abbreviation (input) RB_RED :: u64 where "RB_RED \<equiv> 0"
abbreviation (input) RB_BLACK :: u64 where "RB_BLACK \<equiv> 1"

definition rb_parent :: "rb_node \<Rightarrow> addr" where
  "rb_parent n = rb_parent_color n AND NOT 3"

definition rb_color :: "rb_node \<Rightarrow> u64" where
  "rb_color n = rb_parent_color n AND 1"

definition rb_is_red :: "rb_node \<Rightarrow> bool" where
  "rb_is_red n \<longleftrightarrow> rb_color n = 0"

definition rb_is_black :: "rb_node \<Rightarrow> bool" where
  "rb_is_black n \<longleftrightarrow> rb_color n \<noteq> 0"

type_synonym rb_heap = "addr \<rightharpoonup> rb_node"

text \<open>The memory an operation works on: the nodes, the cell of the root pointer, and the
  data of the structs the nodes are embedded in, which only the callbacks touch.\<close>

record 'a rb_state =
  nodes :: rb_heap
  rb_root :: addr
  aug_data :: 'a

text \<open>A callback sees the nodes and changes the embedding structs. Each may be absent, and
  so may the whole table.\<close>

type_synonym 'a rb_callback = "rb_heap \<Rightarrow> addr \<Rightarrow> addr \<Rightarrow> 'a \<Rightarrow> 'a option"

record 'a rb_augment_callbacks =
  propagate :: "'a rb_callback option"
  copy :: "'a rb_callback option"
  rotate :: "'a rb_callback option"

type_synonym 'a rb_aug = "'a rb_augment_callbacks option"

definition ld :: "(rb_node \<Rightarrow> 'b) \<Rightarrow> addr \<Rightarrow> 'a rb_state \<Rightarrow> 'b option" where
  "ld f p s = map_option f (nodes s p)"

definition upd :: "addr \<Rightarrow> (rb_node \<Rightarrow> rb_node) \<Rightarrow> 'a rb_state \<Rightarrow> 'a rb_state option" where
  "upd p f s = (case nodes s p of None \<Rightarrow> None
     | Some n \<Rightarrow> Some (s\<lparr>nodes := (nodes s)(p \<mapsto> f n)\<rparr>))"

definition call :: "('a rb_augment_callbacks \<Rightarrow> 'a rb_callback option) \<Rightarrow> 'a rb_aug \<Rightarrow>
    addr \<Rightarrow> addr \<Rightarrow> 'a rb_state \<Rightarrow> 'a rb_state option" where
  "call cb aug p q s =
     (case aug of None \<Rightarrow> Some s
      | Some a \<Rightarrow> (case cb a of None \<Rightarrow> Some s
          | Some f \<Rightarrow> map_option (\<lambda>d. s\<lparr>aug_data := d\<rparr>) (f (nodes s) p q (aug_data s))))"

section \<open>Colours and links\<close>

definition rb_set_parent :: "addr \<Rightarrow> addr \<Rightarrow> 'a rb_state \<Rightarrow> 'a rb_state option" where
  "rb_set_parent n p = upd n (\<lambda>x. x\<lparr>rb_parent_color := (rb_parent_color x AND 3) OR p\<rparr>)"

definition rb_set_parent_color ::
    "addr \<Rightarrow> addr \<Rightarrow> u64 \<Rightarrow> 'a rb_state \<Rightarrow> 'a rb_state option" where
  "rb_set_parent_color n p color = upd n (\<lambda>x. x\<lparr>rb_parent_color := p OR color\<rparr>)"

definition rb_set_black :: "addr \<Rightarrow> 'a rb_state \<Rightarrow> 'a rb_state option" where
  "rb_set_black n = upd n (\<lambda>x. x\<lparr>rb_parent_color := rb_parent_color x OR RB_BLACK\<rparr>)"

definition rb_set_red :: "addr \<Rightarrow> 'a rb_state \<Rightarrow> 'a rb_state option" where
  "rb_set_red n = upd n (\<lambda>x. x\<lparr>rb_parent_color := rb_parent_color x AND NOT 1\<rparr>)"

definition set_left :: "addr \<Rightarrow> addr \<Rightarrow> 'a rb_state \<Rightarrow> 'a rb_state option" where
  "set_left n p = upd n (\<lambda>x. x\<lparr>rb_left := p\<rparr>)"

definition set_right :: "addr \<Rightarrow> addr \<Rightarrow> 'a rb_state \<Rightarrow> 'a rb_state option" where
  "set_right n p = upd n (\<lambda>x. x\<lparr>rb_right := p\<rparr>)"

definition node_is_black :: "addr \<Rightarrow> 'a rb_state \<Rightarrow> bool option" where
  "node_is_black n s = (if n = NULL then Some True else ld rb_is_black n s)"

text \<open>The statement \<open>if (p) f(p)\<close>.\<close>

definition when_nonnull ::
    "addr \<Rightarrow> ('a rb_state \<Rightarrow> 'a rb_state option) \<Rightarrow> 'a rb_state \<Rightarrow> 'a rb_state option" where
  "when_nonnull p f s = (if p \<noteq> NULL then f s else Some s)"

text \<open>The slot a subtree hangs from: the root cell or a child field of a node.\<close>

datatype rb_link = Root_Link | Left_Of addr | Right_Of addr

fun write_link :: "rb_link \<Rightarrow> addr \<Rightarrow> 'a rb_state \<Rightarrow> 'a rb_state option" where
  "write_link Root_Link p s = Some (s\<lparr>rb_root := p\<rparr>)"
| "write_link (Left_Of q) p s = set_left q p s"
| "write_link (Right_Of q) p s = set_right q p s"

fun read_link :: "rb_link \<Rightarrow> 'a rb_state \<Rightarrow> addr option" where
  "read_link Root_Link s = Some (rb_root s)"
| "read_link (Left_Of q) s = ld rb_left q s"
| "read_link (Right_Of q) s = ld rb_right q s"

definition rb_link_node ::
    "addr \<Rightarrow> addr \<Rightarrow> rb_link \<Rightarrow> 'a rb_state \<Rightarrow> 'a rb_state option" where
  "rb_link_node node parent link s = do {
     s \<leftarrow> upd node (\<lambda>x. x\<lparr>rb_parent_color := parent\<rparr>) s;
     s \<leftarrow> set_right node NULL s;
     s \<leftarrow> set_left node NULL s;
     write_link link node s
   }"

definition RB_CLEAR_NODE :: "addr \<Rightarrow> 'a rb_state \<Rightarrow> 'a rb_state option" where
  "RB_CLEAR_NODE n = upd n (\<lambda>x. x\<lparr>rb_parent_color := n\<rparr>)"

section \<open>Rotations\<close>

text \<open>The pointer assignments of a rotation, then the callback on the (old, new) pair.\<close>

definition rotate_left_links :: "addr \<Rightarrow> 'a rb_state \<Rightarrow> (addr \<times> 'a rb_state) option" where
  "rotate_left_links node s = do {
     pivot \<leftarrow> ld rb_right node s;
     parent \<leftarrow> ld rb_parent node s;
     pl \<leftarrow> ld rb_left pivot s;
     s \<leftarrow> set_right node pl s;
     pl \<leftarrow> ld rb_left pivot s;
     s \<leftarrow> when_nonnull pl (rb_set_parent pl node) s;
     s \<leftarrow> set_left pivot node s;
     s \<leftarrow> rb_set_parent node pivot s;
     s \<leftarrow> rb_set_parent pivot parent s;
     s \<leftarrow> (if parent \<noteq> NULL
           then do {
             l \<leftarrow> ld rb_left parent s;
             if l = node then set_left parent pivot s else set_right parent pivot s }
           else Some (s\<lparr>rb_root := pivot\<rparr>));
     Some (pivot, s)
   }"

definition rb_rotate_left :: "'a rb_aug \<Rightarrow> addr \<Rightarrow> 'a rb_state \<Rightarrow> 'a rb_state option" where
  "rb_rotate_left aug node s = do {
     (pivot, s) \<leftarrow> rotate_left_links node s;
     call rotate aug node pivot s
   }"

definition rotate_right_links :: "addr \<Rightarrow> 'a rb_state \<Rightarrow> (addr \<times> 'a rb_state) option" where
  "rotate_right_links node s = do {
     pivot \<leftarrow> ld rb_left node s;
     parent \<leftarrow> ld rb_parent node s;
     pr \<leftarrow> ld rb_right pivot s;
     s \<leftarrow> set_left node pr s;
     pr \<leftarrow> ld rb_right pivot s;
     s \<leftarrow> when_nonnull pr (rb_set_parent pr node) s;
     s \<leftarrow> set_right pivot node s;
     s \<leftarrow> rb_set_parent node pivot s;
     s \<leftarrow> rb_set_parent pivot parent s;
     s \<leftarrow> (if parent \<noteq> NULL
           then do {
             l \<leftarrow> ld rb_left parent s;
             if l = node then set_left parent pivot s else set_right parent pivot s }
           else Some (s\<lparr>rb_root := pivot\<rparr>));
     Some (pivot, s)
   }"

definition rb_rotate_right :: "'a rb_aug \<Rightarrow> addr \<Rightarrow> 'a rb_state \<Rightarrow> 'a rb_state option" where
  "rb_rotate_right aug node s = do {
     (pivot, s) \<leftarrow> rotate_right_links node s;
     call rotate aug node pivot s
   }"

section \<open>Insertion\<close>

definition uncle_is_red :: "addr \<Rightarrow> 'a rb_state \<Rightarrow> bool option" where
  "uncle_is_red uncle s = (if uncle = NULL then Some False else ld rb_is_red uncle s)"

partial_function (option) rb_insert ::
    "'a rb_aug \<Rightarrow> addr \<Rightarrow> 'a rb_state \<Rightarrow> 'a rb_state option" where
  "rb_insert aug node s = do {
     parent \<leftarrow> ld rb_parent node s;
     if parent = NULL then rb_set_parent_color node NULL RB_BLACK s
     else do {
       pblack \<leftarrow> ld rb_is_black parent s;
       if pblack then Some s
       else do {
         gparent \<leftarrow> ld rb_parent parent s;
         gl \<leftarrow> ld rb_left gparent s;
         if parent = gl then do {
           uncle \<leftarrow> ld rb_right gparent s;
           ured \<leftarrow> uncle_is_red uncle s;
           if ured then do {
             s \<leftarrow> rb_set_black uncle s;
             s \<leftarrow> rb_set_black parent s;
             s \<leftarrow> rb_set_red gparent s;
             rb_insert aug gparent s }
           else do {
             pr \<leftarrow> ld rb_right parent s;
             s \<leftarrow> (if node = pr then rb_rotate_left aug parent s else Some s);
             let parent = (if node = pr then node else parent);
             s \<leftarrow> rb_set_black parent s;
             s \<leftarrow> rb_set_red gparent s;
             rb_rotate_right aug gparent s } }
         else do {
           uncle \<leftarrow> ld rb_left gparent s;
           ured \<leftarrow> uncle_is_red uncle s;
           if ured then do {
             s \<leftarrow> rb_set_black uncle s;
             s \<leftarrow> rb_set_black parent s;
             s \<leftarrow> rb_set_red gparent s;
             rb_insert aug gparent s }
           else do {
             pl \<leftarrow> ld rb_left parent s;
             s \<leftarrow> (if node = pl then rb_rotate_right aug parent s else Some s);
             let parent = (if node = pl then node else parent);
             s \<leftarrow> rb_set_black parent s;
             s \<leftarrow> rb_set_red gparent s;
             rb_rotate_left aug gparent s } } } } }"

definition rb_insert_augmented :: "'a rb_aug \<Rightarrow> addr \<Rightarrow> 'a rb_state \<Rightarrow> 'a rb_state option" where
  "rb_insert_augmented aug node s = do {
     parent \<leftarrow> ld rb_parent node s;
     s \<leftarrow> call propagate aug parent NULL s;
     rb_insert aug node s
   }"

definition rb_insert_color :: "addr \<Rightarrow> 'a rb_state \<Rightarrow> 'a rb_state option" where
  "rb_insert_color node = rb_insert None node"

section \<open>Erasure\<close>

definition transplant :: "addr \<Rightarrow> addr \<Rightarrow> 'a rb_state \<Rightarrow> 'a rb_state option" where
  "transplant u v s = do {
     up \<leftarrow> ld rb_parent u s;
     s \<leftarrow> (if up = NULL then Some (s\<lparr>rb_root := v\<rparr>)
           else do {
             l \<leftarrow> ld rb_left up s;
             if u = l then set_left up v s else set_right up v s });
     when_nonnull v (rb_set_parent v up) s
   }"

partial_function (option) subtree_min :: "addr \<Rightarrow> 'a rb_state \<Rightarrow> addr option" where
  "subtree_min n s = do {
     l \<leftarrow> ld rb_left n s;
     if l \<noteq> NULL then subtree_min l s else Some n
   }"

text \<open>The two arms of the fix-up loop: the sibling is brought to be black, and then, when
  one of its children is red, the loop ends with a rotation at the parent.\<close>

definition sibling_left :: "'a rb_aug \<Rightarrow> addr \<Rightarrow> 'a rb_state \<Rightarrow> (addr \<times> 'a rb_state) option" where
  "sibling_left aug parent s = do {
     w \<leftarrow> ld rb_right parent s;
     wred \<leftarrow> ld rb_is_red w s;
     if wred then do {
       s \<leftarrow> rb_set_black w s;
       s \<leftarrow> rb_set_red parent s;
       s \<leftarrow> rb_rotate_left aug parent s;
       w \<leftarrow> ld rb_right parent s;
       Some (w, s) }
     else Some (w, s)
   }"

definition sibling_right :: "'a rb_aug \<Rightarrow> addr \<Rightarrow> 'a rb_state \<Rightarrow> (addr \<times> 'a rb_state) option" where
  "sibling_right aug parent s = do {
     w \<leftarrow> ld rb_left parent s;
     wred \<leftarrow> ld rb_is_red w s;
     if wred then do {
       s \<leftarrow> rb_set_black w s;
       s \<leftarrow> rb_set_red parent s;
       s \<leftarrow> rb_rotate_right aug parent s;
       w \<leftarrow> ld rb_left parent s;
       Some (w, s) }
     else Some (w, s)
   }"

definition both_children_black :: "addr \<Rightarrow> 'a rb_state \<Rightarrow> bool option" where
  "both_children_black w s = do {
     wl \<leftarrow> ld rb_left w s;
     bl \<leftarrow> node_is_black wl s;
     if bl then do { wr \<leftarrow> ld rb_right w s; node_is_black wr s } else Some False
   }"

definition borrow_left :: "'a rb_aug \<Rightarrow> addr \<Rightarrow> addr \<Rightarrow> 'a rb_state \<Rightarrow> 'a rb_state option" where
  "borrow_left aug parent w s = do {
     wr \<leftarrow> ld rb_right w s;
     br \<leftarrow> node_is_black wr s;
     s \<leftarrow> (if br then do {
             wl \<leftarrow> ld rb_left w s;
             s \<leftarrow> when_nonnull wl (rb_set_black wl) s;
             s \<leftarrow> rb_set_red w s;
             rb_rotate_right aug w s }
           else Some s);
     w \<leftarrow> (if br then ld rb_right parent s else Some w);
     wp \<leftarrow> ld rb_parent w s;
     pc \<leftarrow> ld rb_color parent s;
     s \<leftarrow> rb_set_parent_color w wp pc s;
     s \<leftarrow> rb_set_black parent s;
     wr \<leftarrow> ld rb_right w s;
     s \<leftarrow> when_nonnull wr (rb_set_black wr) s;
     rb_rotate_left aug parent s
   }"

definition borrow_right :: "'a rb_aug \<Rightarrow> addr \<Rightarrow> addr \<Rightarrow> 'a rb_state \<Rightarrow> 'a rb_state option" where
  "borrow_right aug parent w s = do {
     wl \<leftarrow> ld rb_left w s;
     bl \<leftarrow> node_is_black wl s;
     s \<leftarrow> (if bl then do {
             wr \<leftarrow> ld rb_right w s;
             s \<leftarrow> when_nonnull wr (rb_set_black wr) s;
             s \<leftarrow> rb_set_red w s;
             rb_rotate_left aug w s }
           else Some s);
     w \<leftarrow> (if bl then ld rb_left parent s else Some w);
     wp \<leftarrow> ld rb_parent w s;
     pc \<leftarrow> ld rb_color parent s;
     s \<leftarrow> rb_set_parent_color w wp pc s;
     s \<leftarrow> rb_set_black parent s;
     wl \<leftarrow> ld rb_left w s;
     s \<leftarrow> when_nonnull wl (rb_set_black wl) s;
     rb_rotate_right aug parent s
   }"

partial_function (option) rb_erase_fixup ::
    "'a rb_aug \<Rightarrow> addr \<Rightarrow> addr \<Rightarrow> 'a rb_state \<Rightarrow> 'a rb_state option" where
  "rb_erase_fixup aug x parent s = do {
     loop \<leftarrow> (if x \<noteq> rb_root s then node_is_black x s else Some False);
     if loop then do {
       pl \<leftarrow> ld rb_left parent s;
       ws \<leftarrow> (if x = pl then sibling_left aug parent s else sibling_right aug parent s);
       both \<leftarrow> both_children_black (fst ws) (snd ws);
       if both then do {
         s \<leftarrow> rb_set_red (fst ws) (snd ws);
         pp \<leftarrow> ld rb_parent parent s;
         rb_erase_fixup aug parent pp s }
       else do {
         s \<leftarrow> (if x = pl then borrow_left aug parent (fst ws) (snd ws)
               else borrow_right aug parent (fst ws) (snd ws));
         when_nonnull (rb_root s) (rb_set_black (rb_root s)) s } }
     else when_nonnull x (rb_set_black x) s
   }"

text \<open>The successor \<open>y\<close> leaves its own place, unless it is the right child of \<open>z\<close>, and
  then takes the place and the colour of \<open>z\<close>.\<close>

definition detach :: "addr \<Rightarrow> addr \<Rightarrow> addr \<Rightarrow> 'a rb_state \<Rightarrow> 'a rb_state option" where
  "detach z y yp s = (if yp = z then Some s
     else do {
       yr \<leftarrow> ld rb_right y s;
       s \<leftarrow> transplant y yr s;
       zr \<leftarrow> ld rb_right z s;
       s \<leftarrow> set_right y zr s;
       rb_set_parent zr y s })"

definition take_place :: "addr \<Rightarrow> addr \<Rightarrow> 'a rb_state \<Rightarrow> 'a rb_state option" where
  "take_place z y s = do {
     s \<leftarrow> transplant z y s;
     zl \<leftarrow> ld rb_left z s;
     s \<leftarrow> set_left y zl s;
     s \<leftarrow> rb_set_parent zl y s;
     yp \<leftarrow> ld rb_parent y s;
     zc \<leftarrow> ld rb_color z s;
     rb_set_parent_color y yp zc s
   }"

text \<open>The first half of \<open>__rb_erase\<close>: \<open>z\<close> leaves the tree. The result is \<open>x\<close>, its
  parent, the node from which the aggregates have to be repaired, and whether the
  position that lost a node was black.\<close>

definition rb_unlink :: "'a rb_aug \<Rightarrow> addr \<Rightarrow> 'a rb_state \<Rightarrow>
    (addr \<times> addr \<times> addr \<times> bool \<times> 'a rb_state) option" where
  "rb_unlink aug z s = do {
     zblack \<leftarrow> ld rb_is_black z s;
     zl \<leftarrow> ld rb_left z s;
     zr \<leftarrow> ld rb_right z s;
     zp \<leftarrow> ld rb_parent z s;
     if zl = NULL then do {
       s \<leftarrow> transplant z zr s;
       Some (zr, zp, zp, zblack, s) }
     else if zr = NULL then do {
       s \<leftarrow> transplant z zl s;
       Some (zl, zp, zp, zblack, s) }
     else do {
       y \<leftarrow> subtree_min zr s;
       yblack \<leftarrow> ld rb_is_black y s;
       x \<leftarrow> ld rb_right y s;
       yp \<leftarrow> ld rb_parent y s;
       s \<leftarrow> detach z y yp s;
       s \<leftarrow> take_place z y s;
       s \<leftarrow> call copy aug z y s;
       let xp = (if yp = z then y else yp);
       Some (x, xp, xp, yblack, s) }
   }"

definition rb_erase_augmented :: "'a rb_aug \<Rightarrow> addr \<Rightarrow> 'a rb_state \<Rightarrow> 'a rb_state option" where
  "rb_erase_augmented aug z s = do {
     (x, x_parent, aug_from, y_black, s) \<leftarrow> rb_unlink aug z s;
     s \<leftarrow> when_nonnull aug_from (call propagate aug aug_from NULL) s;
     s \<leftarrow> (if y_black then rb_erase_fixup aug x x_parent s else Some s);
     when_nonnull aug_from (call propagate aug aug_from NULL) s
   }"

definition rb_erase :: "addr \<Rightarrow> 'a rb_state \<Rightarrow> 'a rb_state option" where
  "rb_erase node = rb_erase_augmented None node"

section \<open>Replacement and iteration\<close>

definition rb_replace_node :: "addr \<Rightarrow> addr \<Rightarrow> 'a rb_state \<Rightarrow> 'a rb_state option" where
  "rb_replace_node victim newn s = do {
     parent \<leftarrow> ld rb_parent victim s;
     pc \<leftarrow> ld rb_parent_color victim s;
     s \<leftarrow> upd newn (\<lambda>x. x\<lparr>rb_parent_color := pc\<rparr>) s;
     vl \<leftarrow> ld rb_left victim s;
     s \<leftarrow> set_left newn vl s;
     vr \<leftarrow> ld rb_right victim s;
     s \<leftarrow> set_right newn vr s;
     vl \<leftarrow> ld rb_left victim s;
     s \<leftarrow> when_nonnull vl (rb_set_parent vl newn) s;
     vr \<leftarrow> ld rb_right victim s;
     s \<leftarrow> when_nonnull vr (rb_set_parent vr newn) s;
     if parent = NULL then Some (s\<lparr>rb_root := newn\<rparr>)
     else do {
       l \<leftarrow> ld rb_left parent s;
       if victim = l then set_left parent newn s else set_right parent newn s }
   }"

partial_function (option) subtree_max :: "addr \<Rightarrow> 'a rb_state \<Rightarrow> addr option" where
  "subtree_max n s = do {
     r \<leftarrow> ld rb_right n s;
     if r \<noteq> NULL then subtree_max r s else Some n
   }"

definition rb_first :: "'a rb_state \<Rightarrow> addr option" where
  "rb_first s = (if rb_root s = NULL then Some NULL else subtree_min (rb_root s) s)"

definition rb_last :: "'a rb_state \<Rightarrow> addr option" where
  "rb_last s = (if rb_root s = NULL then Some NULL else subtree_max (rb_root s) s)"

partial_function (option) climb_right :: "addr \<Rightarrow> 'a rb_state \<Rightarrow> addr option" where
  "climb_right node s = do {
     parent \<leftarrow> ld rb_parent node s;
     if parent = NULL then Some parent
     else do {
       r \<leftarrow> ld rb_right parent s;
       if node = r then climb_right parent s else Some parent }
   }"

partial_function (option) climb_left :: "addr \<Rightarrow> 'a rb_state \<Rightarrow> addr option" where
  "climb_left node s = do {
     parent \<leftarrow> ld rb_parent node s;
     if parent = NULL then Some parent
     else do {
       l \<leftarrow> ld rb_left parent s;
       if node = l then climb_left parent s else Some parent }
   }"

definition rb_next :: "addr \<Rightarrow> 'a rb_state \<Rightarrow> addr option" where
  "rb_next node s = do {
     pc \<leftarrow> ld rb_parent_color node s;
     if pc = node then Some NULL
     else do {
       r \<leftarrow> ld rb_right node s;
       if r \<noteq> NULL then subtree_min r s else climb_right node s }
   }"

definition rb_prev :: "addr \<Rightarrow> 'a rb_state \<Rightarrow> addr option" where
  "rb_prev node s = do {
     pc \<leftarrow> ld rb_parent_color node s;
     if pc = node then Some NULL
     else do {
       l \<leftarrow> ld rb_left node s;
       if l \<noteq> NULL then subtree_max l s else climb_left node s }
   }"

section \<open>The tree with a cached leftmost node\<close>

record 'a rb_root_cached =
  rb_tree :: "'a rb_state"
  rb_leftmost :: addr

definition rb_first_cached :: "'a rb_root_cached \<Rightarrow> addr" where
  "rb_first_cached c = rb_leftmost c"

definition rb_insert_color_cached ::
    "addr \<Rightarrow> bool \<Rightarrow> 'a rb_root_cached \<Rightarrow> 'a rb_root_cached option" where
  "rb_insert_color_cached node leftmost c = do {
     let c = (if leftmost then c\<lparr>rb_leftmost := node\<rparr> else c);
     s \<leftarrow> rb_insert None node (rb_tree c);
     Some (c\<lparr>rb_tree := s\<rparr>)
   }"

definition rb_insert_augmented_cached ::
    "'a rb_aug \<Rightarrow> addr \<Rightarrow> bool \<Rightarrow> 'a rb_root_cached \<Rightarrow> 'a rb_root_cached option" where
  "rb_insert_augmented_cached aug node leftmost c = do {
     let c = (if leftmost then c\<lparr>rb_leftmost := node\<rparr> else c);
     s \<leftarrow> rb_insert_augmented aug node (rb_tree c);
     Some (c\<lparr>rb_tree := s\<rparr>)
   }"

definition rb_erase_augmented_cached ::
    "'a rb_aug \<Rightarrow> addr \<Rightarrow> 'a rb_root_cached \<Rightarrow> 'a rb_root_cached option" where
  "rb_erase_augmented_cached aug node c = do {
     c \<leftarrow> (if rb_leftmost c = node
           then do { nx \<leftarrow> rb_next node (rb_tree c); Some (c\<lparr>rb_leftmost := nx\<rparr>) }
           else Some c);
     s \<leftarrow> rb_erase_augmented aug node (rb_tree c);
     Some (c\<lparr>rb_tree := s\<rparr>)
   }"

definition rb_erase_cached :: "addr \<Rightarrow> 'a rb_root_cached \<Rightarrow> 'a rb_root_cached option" where
  "rb_erase_cached node = rb_erase_augmented_cached None node"

text \<open>The loops evaluate by unfolding.\<close>

declare rb_insert.simps [code] subtree_min.simps [code] rb_erase_fixup.simps [code] subtree_max.simps [code]
  climb_right.simps [code] climb_left.simps [code]

end
