(* ===== verification/Rbtree_Rep.thy ===== *)
theory Rbtree_Rep
  imports Rbtree
begin

text \<open>
  Trees in the heap. \<open>rep\<close> says that a tree of node addresses is laid out in the heap of
  \<open>Rbtree\<close>: parent links, child links and colours. A tree with a hole is a list of
  frames, innermost first, so that one rotation or recolouring deep inside the tree is
  stated locally. The rotation lemmas at the end are the only place where the pointer
  assignments of a rotation are followed one by one.
\<close>

section \<open>The parent word\<close>

definition aligned :: "addr \<Rightarrow> bool" where
  "aligned p \<longleftrightarrow> p AND 3 = 0"

lemma aligned_NULL [simp]: "aligned NULL"
  by (simp add: aligned_def)

text \<open>The simplifier reads the bits of a word literal as bits of the integer literal.\<close>

lemma bit_3_iff: "bit (3 :: int) n \<longleftrightarrow> n < 2"
proof -
  have "bit (mask 2 :: int) n \<longleftrightarrow> n < 2" by (auto simp only: bit_mask_iff possible_bit_int)
  then show ?thesis by (simp add: mask_numeral)
qed

lemma bit_not_3_iff: "bit (- 4 :: int) n \<longleftrightarrow> 2 \<le> n"
  using bit_not_int_iff [of 3 n] by (simp add: bit_3_iff not_less)

lemma bit_not_1_iff: "bit (- 2 :: int) n \<longleftrightarrow> 1 \<le> n"
  using bit_not_int_iff [of 1 n] by (simp add: bit_1_iff Suc_le_eq)

lemmas tag_bits = bit_and_iff bit_or_iff bit_3_iff bit_not_3_iff bit_not_1_iff bit_1_iff

lemma aligned_bits:
  assumes "aligned p" and "bit p n"
  shows "2 \<le> n"
proof (rule ccontr)
  assume "\<not> 2 \<le> n"
  with assms(2) have "bit (p AND 3) n" by (simp add: tag_bits bit_imp_le_length)
  with assms(1) show False by (simp add: aligned_def)
qed

lemma set_parent_word:
  assumes "aligned p"
  shows "((w AND 3) OR p) AND - 4 = p" "((w AND 3) OR p) AND 1 = w AND 1"
proof -
  show "((w AND 3) OR p) AND - 4 = p"
    by (rule bit_word_eqI) (auto simp: tag_bits dest: aligned_bits [OF assms])
  show "((w AND 3) OR p) AND 1 = w AND 1"
    by (rule bit_word_eqI) (auto simp: tag_bits dest: aligned_bits [OF assms])
qed

lemma set_parent_color_word:
  assumes "aligned p" and "c = 0 \<or> c = 1"
  shows "(p OR c) AND - 4 = p" "(p OR c) AND 1 = c"
proof -
  have c: "bit c n \<longleftrightarrow> n = 0 \<and> c = 1" for n using assms(2) by (auto simp: bit_1_iff)
  show "(p OR c) AND - 4 = p"
    by (rule bit_word_eqI) (auto simp: tag_bits c dest: aligned_bits [OF assms(1)])
  show "(p OR c) AND 1 = c"
    by (rule bit_word_eqI) (auto simp: tag_bits c dest: aligned_bits [OF assms(1)])
qed

lemma set_black_word:
  "((w :: u64) OR 1) AND - 4 = w AND - 4" "((w :: u64) OR 1) AND 1 = 1"
  by (rule bit_word_eqI, force simp: tag_bits)+

lemma set_red_word:
  "((w :: u64) AND - 2) AND - 4 = w AND - 4" "((w :: u64) AND - 2) AND 1 = 0"
  by (rule bit_word_eqI, force simp: tag_bits)+

lemma rb_color_cases: "rb_color n = 0 \<or> rb_color n = 1"
  unfolding rb_color_def by (simp add: and_one_eq) (metis not_mod_2_eq_1_eq_0 odd_iff_mod_2_eq_one)

lemma rb_is_red_iff: "rb_is_red n \<longleftrightarrow> \<not> rb_is_black n"
  by (simp add: rb_is_red_def rb_is_black_def)

lemma node_set_parent [simp]:
  "aligned p \<Longrightarrow> rb_parent (n\<lparr>rb_parent_color := (w AND 3) OR p\<rparr>) = p"
  "aligned p \<Longrightarrow>
     rb_is_black (n\<lparr>rb_parent_color := (rb_parent_color m AND 3) OR p\<rparr>) = rb_is_black m"
  by (simp_all add: rb_parent_def rb_is_black_def rb_color_def set_parent_word)

lemma node_set_parent_color [simp]:
  "aligned p \<Longrightarrow> c = 0 \<or> c = 1 \<Longrightarrow> rb_parent (n\<lparr>rb_parent_color := p OR c\<rparr>) = p"
  "aligned p \<Longrightarrow> c = 0 \<or> c = 1 \<Longrightarrow> rb_is_black (n\<lparr>rb_parent_color := p OR c\<rparr>) = (c \<noteq> 0)"
  by (simp_all add: rb_parent_def rb_is_black_def rb_color_def set_parent_color_word)

lemma node_link [simp]:
  "aligned p \<Longrightarrow> rb_parent (n\<lparr>rb_parent_color := p\<rparr>) = p"
  "aligned p \<Longrightarrow> \<not> rb_is_black (n\<lparr>rb_parent_color := p\<rparr>)"
  using node_set_parent_color [of p 0 n] by simp_all

lemma node_set_color [simp]:
  "rb_parent (n\<lparr>rb_parent_color := rb_parent_color m OR 1\<rparr>) = rb_parent m"
  "rb_is_black (n\<lparr>rb_parent_color := w OR 1\<rparr>)"
  "rb_parent (n\<lparr>rb_parent_color := rb_parent_color m AND - 2\<rparr>) = rb_parent m"
  "\<not> rb_is_black (n\<lparr>rb_parent_color := w AND - 2\<rparr>)"
  by (simp_all add: rb_parent_def rb_is_black_def rb_color_def set_black_word set_red_word)

lemma node_set_child [simp]:
  "rb_parent (n\<lparr>rb_left := p\<rparr>) = rb_parent n" "rb_is_black (n\<lparr>rb_left := p\<rparr>) = rb_is_black n"
  "rb_parent (n\<lparr>rb_right := p\<rparr>) = rb_parent n" "rb_is_black (n\<lparr>rb_right := p\<rparr>) = rb_is_black n"
  by (simp_all add: rb_parent_def rb_is_black_def rb_color_def)

section \<open>Trees of addresses\<close>

datatype color = Red | Black

datatype rbt = Leaf | Node rbt addr color rbt

fun ptr :: "rbt \<Rightarrow> addr" where
  "ptr Leaf = NULL"
| "ptr (Node l a c r) = a"

fun inorder :: "rbt \<Rightarrow> addr list" where
  "inorder Leaf = []"
| "inorder (Node l a c r) = inorder l @ a # inorder r"

fun root_color :: "rbt \<Rightarrow> color" where
  "root_color Leaf = Black"
| "root_color (Node l a c r) = c"

fun paint :: "color \<Rightarrow> rbt \<Rightarrow> rbt" where
  "paint c Leaf = Leaf"
| "paint c (Node l a _ r) = Node l a c r"

lemma paint_simps [simp]:
  "inorder (paint c t) = inorder t" "ptr (paint c t) = ptr t"
  by (cases t; simp)+

section \<open>Trees with a hole\<close>

datatype frame = InL addr color rbt | InR rbt addr color

fun plug1 :: "frame \<Rightarrow> rbt \<Rightarrow> rbt" where
  "plug1 (InL a c r) t = Node t a c r"
| "plug1 (InR l a c) t = Node l a c t"

fun plug :: "frame list \<Rightarrow> rbt \<Rightarrow> rbt" where
  "plug [] t = t"
| "plug (f # fs) t = plug fs (plug1 f t)"

fun faddr :: "frame \<Rightarrow> addr" where
  "faddr (InL a c r) = a"
| "faddr (InR l a c) = a"

fun fcolor :: "frame \<Rightarrow> color" where
  "fcolor (InL a c r) = c"
| "fcolor (InR l a c) = c"

fun cpar :: "frame list \<Rightarrow> addr" where
  "cpar [] = NULL"
| "cpar (f # fs) = faddr f"

fun before :: "frame list \<Rightarrow> addr list" where
  "before [] = []"
| "before (InL a c r # fs) = before fs"
| "before (InR l a c # fs) = before fs @ inorder l @ [a]"

fun after :: "frame list \<Rightarrow> addr list" where
  "after [] = []"
| "after (InL a c r # fs) = a # inorder r @ after fs"
| "after (InR l a c # fs) = after fs"

lemma inorder_plug: "inorder (plug fs t) = before fs @ inorder t @ after fs"
proof (induction fs arbitrary: t)
  case (Cons f fs)
  then show ?case by (cases f) simp_all
qed simp

lemma plug_append: "plug (fs @ gs) t = plug gs (plug fs t)"
  by (induction fs arbitrary: t) auto

lemma ptr_plug1 [simp]: "ptr (plug1 f t) = faddr f"
  by (cases f) simp_all

section \<open>Representation\<close>

definition cell :: "rb_heap \<Rightarrow> addr \<Rightarrow> addr \<Rightarrow> color \<Rightarrow> addr \<Rightarrow> addr \<Rightarrow> bool" where
  "cell h a par c l r \<longleftrightarrow> a \<noteq> NULL \<and> aligned a
     \<and> (\<exists>n. h a = Some n \<and> rb_parent n = par \<and> rb_is_black n = (c = Black)
          \<and> rb_left n = l \<and> rb_right n = r)"

fun rep :: "rb_heap \<Rightarrow> addr \<Rightarrow> rbt \<Rightarrow> bool" where
  "rep h par Leaf = True"
| "rep h par (Node l a c r) \<longleftrightarrow> cell h a par c (ptr l) (ptr r) \<and> rep h a l \<and> rep h a r"

fun crep :: "rb_heap \<Rightarrow> addr \<Rightarrow> frame list \<Rightarrow> bool" where
  "crep h q [] = True"
| "crep h q (InL a c r # fs) \<longleftrightarrow> cell h a (cpar fs) c q (ptr r) \<and> rep h a r \<and> crep h a fs"
| "crep h q (InR l a c # fs) \<longleftrightarrow> cell h a (cpar fs) c (ptr l) q \<and> rep h a l \<and> crep h a fs"

lemma rep_plug: "rep h NULL (plug fs t) \<longleftrightarrow> rep h (cpar fs) t \<and> crep h (ptr t) fs"
proof (induction fs arbitrary: t)
  case (Cons f fs)
  then show ?case by (cases f) auto
qed simp

definition represents :: "'a rb_state \<Rightarrow> rbt \<Rightarrow> bool" where
  "represents s t \<longleftrightarrow> rb_root s = ptr t \<and> rep (nodes s) NULL t \<and> distinct (inorder t)"

definition addrs :: "rbt \<Rightarrow> addr set" where
  "addrs t = set (inorder t)"

definition caddrs :: "frame list \<Rightarrow> addr set" where
  "caddrs fs = set (before fs) \<union> set (after fs)"

lemma addrs_simps [simp]:
  "addrs Leaf = {}" "addrs (Node l a c r) = insert a (addrs l \<union> addrs r)"
  "addrs (paint c t) = addrs t"
  by (auto simp: addrs_def)

lemma caddrs_simps [simp]:
  "caddrs [] = {}"
  "caddrs (InL a c r # fs) = insert a (addrs r \<union> caddrs fs)"
  "caddrs (InR l a c # fs) = insert a (addrs l \<union> caddrs fs)"
  by (auto simp: addrs_def caddrs_def)

lemma addrs_plug: "addrs (plug fs t) = addrs t \<union> caddrs fs"
  by (auto simp: addrs_def caddrs_def inorder_plug)

lemma cell_frame [heap_frame]:
  "a \<noteq> b \<Longrightarrow> cell (h(b \<mapsto> n)) a par c l r = cell h a par c l r"
  by (simp add: cell_def)

lemma rep_frame [heap_frame]:
  "b \<notin> addrs t \<Longrightarrow> rep (h(b \<mapsto> n)) par t = rep h par t"
  by (induction t arbitrary: par) (auto simp: cell_frame)

lemma crep_frame [heap_frame]:
  "b \<notin> caddrs fs \<Longrightarrow> crep (h(b \<mapsto> n)) q fs = crep h q fs"
  by (induction h q fs rule: crep.induct) (auto simp: cell_frame rep_frame)

lemma cell_NULL: "cell h a p c l r \<Longrightarrow> a \<noteq> NULL"
  by (simp add: cell_def)

lemma rep_NULL: "rep h par t \<Longrightarrow> NULL \<notin> addrs t"
  by (induction t arbitrary: par) (auto dest: cell_NULL)

lemma crep_NULL: "crep h q fs \<Longrightarrow> NULL \<notin> caddrs fs"
proof (induction fs arbitrary: q)
  case (Cons f fs)
  then show ?case by (cases f) (auto dest: cell_NULL rep_NULL)
qed simp

lemma cell_aligned: "cell h a p c l r \<Longrightarrow> aligned a"
  by (simp add: cell_def)

lemma rep_aligned_ptr: "rep h par t \<Longrightarrow> aligned (ptr t)"
  by (cases t) (auto simp: cell_def)

lemma crep_aligned_cpar: "crep h q fs \<Longrightarrow> aligned (cpar fs)"
  by (cases "(h, q, fs)" rule: crep.cases) (auto simp: cell_def)

lemma ptr_in_addrs: "t \<noteq> Leaf \<Longrightarrow> ptr t \<in> addrs t"
  by (cases t) auto

section \<open>Effects of the primitive writes\<close>

text \<open>\<open>touched s S s'\<close>: the step from \<open>s\<close> to \<open>s'\<close> changes node contents in \<open>S\<close> only
  and allocates and frees nothing.\<close>

definition touched :: "'a rb_state \<Rightarrow> addr set \<Rightarrow> 'a rb_state \<Rightarrow> bool" where
  "touched s S s' \<longleftrightarrow> aug_data s' = aug_data s \<and> dom (nodes s') = dom (nodes s)
     \<and> (\<forall>a. a \<notin> S \<longrightarrow> nodes s' a = nodes s a)"

text \<open>Assertions on the part of the heap that is not touched stay as they are.\<close>

lemma touched_refl [simp]: "touched s S s"
  by (simp add: touched_def)

lemma touched_trans: "touched s S s' \<Longrightarrow> touched s' S' s'' \<Longrightarrow> touched s (S \<union> S') s''"
  by (auto simp: touched_def)

lemma touched_mono: "touched s S s' \<Longrightarrow> S \<subseteq> S' \<Longrightarrow> touched s S' s'"
  by (auto simp: touched_def)

lemma touched_aug: "touched s S s' \<Longrightarrow> aug_data s' = aug_data s"
  by (simp add: touched_def)

lemma rep_cong: "(\<And>a. a \<in> addrs t \<Longrightarrow> h' a = h a) \<Longrightarrow> rep h' par t = rep h par t"
  by (induction t arbitrary: par) (auto simp: cell_def)

lemma crep_cong: "(\<And>a. a \<in> caddrs fs \<Longrightarrow> h' a = h a) \<Longrightarrow> crep h' q fs = crep h q fs"
  by (induction h q fs rule: crep.induct) (auto simp: cell_def cong: rep_cong)

lemma touched_cell: "touched s S s' \<Longrightarrow> a \<notin> S \<Longrightarrow>
    cell (nodes s') a p c l r = cell (nodes s) a p c l r"
  by (simp add: touched_def cell_def)

lemma touched_rep: "touched s S s' \<Longrightarrow> addrs t \<inter> S = {} \<Longrightarrow>
    rep (nodes s') p t = rep (nodes s) p t"
  by (rule rep_cong) (auto simp: touched_def)

lemma touched_crep: "touched s S s' \<Longrightarrow> caddrs fs \<inter> S = {} \<Longrightarrow>
    crep (nodes s') q fs = crep (nodes s) q fs"
  by (rule crep_cong) (auto simp: touched_def)

lemmas touched_frame = touched_cell touched_rep touched_crep

lemma set_left_cell:
  "cell (nodes s) a p c l r \<Longrightarrow> \<exists>s'. set_left a v s = Some s' \<and> touched s {a} s'
     \<and> rb_root s' = rb_root s \<and> cell (nodes s') a p c v r"
  by (auto simp: set_left_def upd_def cell_def touched_def insert_absorb)

lemma set_right_cell:
  "cell (nodes s) a p c l r \<Longrightarrow> \<exists>s'. set_right a v s = Some s' \<and> touched s {a} s'
     \<and> rb_root s' = rb_root s \<and> cell (nodes s') a p c l v"
  by (auto simp: set_right_def upd_def cell_def touched_def insert_absorb)

lemma set_parent_cell:
  "cell (nodes s) a p c l r \<Longrightarrow> aligned v \<Longrightarrow> \<exists>s'. rb_set_parent a v s = Some s'
     \<and> touched s {a} s' \<and> rb_root s' = rb_root s \<and> cell (nodes s') a v c l r"
  by (auto simp: rb_set_parent_def upd_def cell_def touched_def insert_absorb)

lemma set_black_cell:
  "cell (nodes s) a p c l r \<Longrightarrow> \<exists>s'. rb_set_black a s = Some s'
     \<and> touched s {a} s' \<and> rb_root s' = rb_root s \<and> cell (nodes s') a p Black l r"
  by (auto simp: rb_set_black_def upd_def cell_def touched_def insert_absorb)

lemma set_red_cell:
  "cell (nodes s) a p c l r \<Longrightarrow> \<exists>s'. rb_set_red a s = Some s'
     \<and> touched s {a} s' \<and> rb_root s' = rb_root s \<and> cell (nodes s') a p Red l r"
  by (auto simp: rb_set_red_def upd_def cell_def touched_def insert_absorb)

definition color_word :: "color \<Rightarrow> u64" where
  "color_word c = (if c = Black then RB_BLACK else RB_RED)"

lemma set_parent_color_cell:
  "cell (nodes s) a p c l r \<Longrightarrow> aligned v \<Longrightarrow>
     \<exists>s'. rb_set_parent_color a v (color_word k) s = Some s'
     \<and> touched s {a} s' \<and> rb_root s' = rb_root s \<and> cell (nodes s') a v k l r"
  by (cases k) (auto simp: rb_set_parent_color_def upd_def cell_def touched_def color_word_def insert_absorb)

lemma ld_cell:
  assumes "cell (nodes s) a p c l r"
  shows "ld rb_parent a s = Some p" "ld rb_left a s = Some l" "ld rb_right a s = Some r"
    "ld rb_is_black a s = Some (c = Black)" "ld rb_is_red a s = Some (c = Red)"
    "ld rb_color a s = Some (color_word c)"
proof -
  from assms obtain n where n: "nodes s a = Some n" "rb_is_black n = (c = Black)"
      "rb_parent n = p" "rb_left n = l" "rb_right n = r"
    by (auto simp: cell_def)
  then show "ld rb_parent a s = Some p" "ld rb_left a s = Some l" "ld rb_right a s = Some r"
    "ld rb_is_black a s = Some (c = Black)" "ld rb_is_red a s = Some (c = Red)"
    by (cases c; simp add: ld_def rb_is_red_iff)+
  from n show "ld rb_color a s = Some (color_word c)"
    using rb_color_cases [of n] by (auto simp: ld_def color_word_def rb_is_black_def)
qed

lemma when_set_parent_rep:
  assumes "rep (nodes s) p t" and "distinct (inorder t)" and "aligned v"
  shows "\<exists>s'. when_nonnull (ptr t) (rb_set_parent (ptr t) v) s = Some s'
    \<and> touched s (addrs t) s' \<and> rb_root s' = rb_root s \<and> rep (nodes s') v t"
proof (cases t)
  case Leaf
  then show ?thesis by (simp add: when_nonnull_def)
next
  case (Node l a c r)
  with assms(1) have c: "cell (nodes s) a p c (ptr l) (ptr r)"
    and lr: "rep (nodes s) a l" "rep (nodes s) a r" by auto
  obtain s' where s': "rb_set_parent a v s = Some s'" "touched s {a} s'" "rb_root s' = rb_root s"
      "cell (nodes s') a v c (ptr l) (ptr r)"
    using set_parent_cell [OF c assms(3)] by blast
  from assms(2) Node have "a \<notin> addrs l" "a \<notin> addrs r" by (auto simp: addrs_def)
  with s' lr Node c show ?thesis
    by (auto simp: when_nonnull_def touched_rep cell_def intro: touched_mono)
qed

text \<open>Redirecting the link that points at a subtree: the root cell or the child field of
  the parent.\<close>

lemma replace_child:
  assumes "crep (nodes s) q fs" and "q \<noteq> NULL" and "q \<notin> caddrs fs"
    and "distinct (before fs @ after fs)"
  shows "\<exists>s'. (if cpar fs \<noteq> NULL
        then do { l \<leftarrow> ld rb_left (cpar fs) s;
                  if l = q then set_left (cpar fs) v s else set_right (cpar fs) v s }
        else Some (s\<lparr>rb_root := v\<rparr>)) = Some s'
    \<and> touched s (caddrs fs) s' \<and> rb_root s' = (if fs = [] then v else rb_root s)
    \<and> crep (nodes s') v fs"
proof (cases fs)
  case Nil
  then show ?thesis by (auto simp: touched_def)
next
  case (Cons f gs)
  show ?thesis
  proof (cases f)
    case (InL a c r)
    with Cons assms have ca: "cell (nodes s) a (cpar gs) c q (ptr r)"
      and fr: "a \<notin> addrs r" "a \<notin> caddrs gs" by (auto simp: addrs_def caddrs_def)
    obtain s' where "set_left a v s = Some s'" "touched s {a} s'" "rb_root s' = rb_root s"
      "cell (nodes s') a (cpar gs) c v (ptr r)" using set_left_cell [OF ca] by blast
    with Cons InL assms(1) fr show ?thesis
      by (auto simp: ld_cell [OF ca] cell_NULL [OF ca] touched_frame intro: touched_mono)
  next
    case (InR l a c)
    with Cons assms have ca: "cell (nodes s) a (cpar gs) c (ptr l) q"
      and fr: "a \<notin> addrs l" "a \<notin> caddrs gs" by (auto simp: addrs_def caddrs_def)
    have "ptr l \<noteq> q" using assms(2,3) Cons InR ptr_in_addrs [of l] by (cases l) auto
    moreover obtain s' where "set_right a v s = Some s'" "touched s {a} s'"
      "rb_root s' = rb_root s" "cell (nodes s') a (cpar gs) c (ptr l) v"
      using set_right_cell [OF ca] by blast
    ultimately show ?thesis using Cons InR assms(1) fr
      by (auto simp: ld_cell [OF ca] cell_NULL [OF ca] touched_frame intro: touched_mono)
  qed
qed

section \<open>Rotations\<close>

text \<open>\<open>moved s t s' t'\<close>: the heap that held \<open>t\<close> now holds \<open>t'\<close>, over the same nodes, and
  nothing else changed.\<close>

definition moved :: "'a rb_state \<Rightarrow> rbt \<Rightarrow> 'a rb_state \<Rightarrow> rbt \<Rightarrow> bool" where
  "moved s t s' t' \<longleftrightarrow> represents s' t' \<and> addrs t' = addrs t \<and> touched s (addrs t) s'"

lemma represents_plug:
  "represents s (plug fs t) \<longleftrightarrow> rb_root s = ptr (plug fs t) \<and> rep (nodes s) (cpar fs) t
     \<and> crep (nodes s) (ptr t) fs \<and> distinct (before fs @ inorder t @ after fs)"
  by (auto simp: represents_def rep_plug inorder_plug)

lemma ptr_plug: "ptr (plug fs t) = (if fs = [] then ptr t else faddr (last fs))"
  by (induction fs arbitrary: t) auto

lemma rotate_left_rep:
  assumes "represents s (plug fs (Node A x cx (Node B y cy C)))"
  shows "\<exists>s'. rotate_left_links x s = Some (y, s')
    \<and> moved s (plug fs (Node A x cx (Node B y cy C))) s' (plug fs (Node (Node A x cx B) y cy C))"
proof -
  let ?t = "Node A x cx (Node B y cy C)"
  from assms have d: "distinct (before fs @ inorder ?t @ after fs)"
    and root: "rb_root s = ptr (plug fs ?t)"
    and cx: "cell (nodes s) x (cpar fs) cx (ptr A) y" and A: "rep (nodes s) x A"
    and cy: "cell (nodes s) y x cy (ptr B) (ptr C)" and B: "rep (nodes s) y B"
    and C: "rep (nodes s) y C" and c: "crep (nodes s) x fs"
    by (auto simp: represents_plug)
  from d have d': "distinct (inorder B)" "distinct (before fs @ after fs)"
    and ne: "x \<noteq> y" "x \<notin> addrs A \<union> addrs B \<union> addrs C \<union> caddrs fs"
      "y \<notin> addrs A \<union> addrs B \<union> addrs C \<union> caddrs fs"
      "addrs A \<inter> addrs B = {}" "addrs C \<inter> addrs B = {}" "caddrs fs \<inter> addrs B = {}"
      "addrs A \<inter> caddrs fs = {}" "addrs B \<inter> caddrs fs = {}" "addrs C \<inter> caddrs fs = {}"
    by (auto simp: addrs_def caddrs_def)
  note al = cell_aligned [OF cx] cell_aligned [OF cy] crep_aligned_cpar [OF c]
  obtain s1 where s1: "set_right x (ptr B) s = Some s1" "touched s {x} s1"
      "rb_root s1 = rb_root s" "cell (nodes s1) x (cpar fs) cx (ptr A) (ptr B)"
    using set_right_cell [OF cx] by blast
  have cy1: "cell (nodes s1) y x cy (ptr B) (ptr C)" and B1: "rep (nodes s1) y B"
    using s1 cy B ne by (simp_all add: touched_frame)
  obtain s2 where s2: "when_nonnull (ptr B) (rb_set_parent (ptr B) x) s1 = Some s2"
      "touched s1 (addrs B) s2" "rb_root s2 = rb_root s1" "rep (nodes s2) x B"
    using when_set_parent_rep [OF B1 d'(1) al(1)] by blast
  have cy2: "cell (nodes s2) y x cy (ptr B) (ptr C)" using s2 cy1 ne by (simp add: touched_frame)
  obtain s3 where s3: "set_left y x s2 = Some s3" "touched s2 {y} s3"
      "rb_root s3 = rb_root s2" "cell (nodes s3) y x cy x (ptr C)"
    using set_left_cell [OF cy2] by blast
  have cx3: "cell (nodes s3) x (cpar fs) cx (ptr A) (ptr B)"
    using s1 s2 s3 ne by (simp add: touched_frame)
  obtain s4 where s4: "rb_set_parent x y s3 = Some s4" "touched s3 {x} s4"
      "rb_root s4 = rb_root s3" "cell (nodes s4) x y cx (ptr A) (ptr B)"
    using set_parent_cell [OF cx3 al(2)] by blast
  have cy4: "cell (nodes s4) y x cy x (ptr C)" using s3 s4 ne by (simp add: touched_frame)
  obtain s5 where s5: "rb_set_parent y (cpar fs) s4 = Some s5" "touched s4 {y} s5"
      "rb_root s5 = rb_root s4" "cell (nodes s5) y (cpar fs) cy x (ptr C)"
    using set_parent_cell [OF cy4 al(3)] by blast
  have c5: "crep (nodes s5) x fs"
    using c s1(2) s2(2) s3(2) s4(2) s5(2) ne by (simp add: touched_frame)
  obtain s6 where s6: "(if cpar fs \<noteq> NULL
        then do { l \<leftarrow> ld rb_left (cpar fs) s5;
                  if l = x then set_left (cpar fs) y s5 else set_right (cpar fs) y s5 }
        else Some (s5\<lparr>rb_root := y\<rparr>)) = Some s6"
      "touched s5 (caddrs fs) s6" "rb_root s6 = (if fs = [] then y else rb_root s5)"
      "crep (nodes s6) y fs"
    using replace_child [OF c5 cell_NULL [OF cx] _ d'(2), of y] ne by blast
  have eq: "rotate_left_links x s = Some (y, s6)"
    using s1(1) s2(1) s3(1) s4(1) s5(1) s6(1)
    by (simp add: rotate_left_links_def ld_cell [OF cx] ld_cell [OF cy] ld_cell [OF cy1])
  have "rep (nodes s6) (cpar fs) (Node (Node A x cx B) y cy C)"
    using A B C s1 s2 s3 s4 s5 s6 ne by (simp add: touched_frame)
  moreover have "touched s (addrs (plug fs ?t)) s6"
    using s1(2) s2(2) s3(2) s4(2) s5(2) s6(2) by (auto simp: touched_def addrs_plug)
  ultimately have "moved s (plug fs ?t) s6 (plug fs (Node (Node A x cx B) y cy C))"
    using s6 s5 s4 s3 s2 s1 root d by (auto simp: moved_def represents_plug ptr_plug addrs_plug)
  with eq show ?thesis by blast
qed

lemma rotate_right_rep:
  assumes "represents s (plug fs (Node (Node C y cy B) x cx A))"
  shows "\<exists>s'. rotate_right_links x s = Some (y, s')
    \<and> moved s (plug fs (Node (Node C y cy B) x cx A)) s' (plug fs (Node C y cy (Node B x cx A)))"
proof -
  let ?t = "Node (Node C y cy B) x cx A"
  from assms have d: "distinct (before fs @ inorder ?t @ after fs)"
    and root: "rb_root s = ptr (plug fs ?t)"
    and cx: "cell (nodes s) x (cpar fs) cx y (ptr A)" and A: "rep (nodes s) x A"
    and cy: "cell (nodes s) y x cy (ptr C) (ptr B)" and B: "rep (nodes s) y B"
    and C: "rep (nodes s) y C" and c: "crep (nodes s) x fs"
    by (auto simp: represents_plug)
  from d have d': "distinct (inorder B)" "distinct (before fs @ after fs)"
    and ne: "x \<noteq> y" "x \<notin> addrs A \<union> addrs B \<union> addrs C \<union> caddrs fs"
      "y \<notin> addrs A \<union> addrs B \<union> addrs C \<union> caddrs fs"
      "addrs A \<inter> addrs B = {}" "addrs C \<inter> addrs B = {}" "caddrs fs \<inter> addrs B = {}"
      "addrs A \<inter> caddrs fs = {}" "addrs B \<inter> caddrs fs = {}" "addrs C \<inter> caddrs fs = {}"
    by (auto simp: addrs_def caddrs_def)
  note al = cell_aligned [OF cx] cell_aligned [OF cy] crep_aligned_cpar [OF c]
  obtain s1 where s1: "set_left x (ptr B) s = Some s1" "touched s {x} s1"
      "rb_root s1 = rb_root s" "cell (nodes s1) x (cpar fs) cx (ptr B) (ptr A)"
    using set_left_cell [OF cx] by blast
  have cy1: "cell (nodes s1) y x cy (ptr C) (ptr B)" and B1: "rep (nodes s1) y B"
    using s1 cy B ne by (simp_all add: touched_frame)
  obtain s2 where s2: "when_nonnull (ptr B) (rb_set_parent (ptr B) x) s1 = Some s2"
      "touched s1 (addrs B) s2" "rb_root s2 = rb_root s1" "rep (nodes s2) x B"
    using when_set_parent_rep [OF B1 d'(1) al(1)] by blast
  have cy2: "cell (nodes s2) y x cy (ptr C) (ptr B)" using s2 cy1 ne by (simp add: touched_frame)
  obtain s3 where s3: "set_right y x s2 = Some s3" "touched s2 {y} s3"
      "rb_root s3 = rb_root s2" "cell (nodes s3) y x cy (ptr C) x"
    using set_right_cell [OF cy2] by blast
  have cx3: "cell (nodes s3) x (cpar fs) cx (ptr B) (ptr A)"
    using s1 s2 s3 ne by (simp add: touched_frame)
  obtain s4 where s4: "rb_set_parent x y s3 = Some s4" "touched s3 {x} s4"
      "rb_root s4 = rb_root s3" "cell (nodes s4) x y cx (ptr B) (ptr A)"
    using set_parent_cell [OF cx3 al(2)] by blast
  have cy4: "cell (nodes s4) y x cy (ptr C) x" using s3 s4 ne by (simp add: touched_frame)
  obtain s5 where s5: "rb_set_parent y (cpar fs) s4 = Some s5" "touched s4 {y} s5"
      "rb_root s5 = rb_root s4" "cell (nodes s5) y (cpar fs) cy (ptr C) x"
    using set_parent_cell [OF cy4 al(3)] by blast
  have c5: "crep (nodes s5) x fs"
    using c s1(2) s2(2) s3(2) s4(2) s5(2) ne by (simp add: touched_frame)
  obtain s6 where s6: "(if cpar fs \<noteq> NULL
        then do { l \<leftarrow> ld rb_left (cpar fs) s5;
                  if l = x then set_left (cpar fs) y s5 else set_right (cpar fs) y s5 }
        else Some (s5\<lparr>rb_root := y\<rparr>)) = Some s6"
      "touched s5 (caddrs fs) s6" "rb_root s6 = (if fs = [] then y else rb_root s5)"
      "crep (nodes s6) y fs"
    using replace_child [OF c5 cell_NULL [OF cx] _ d'(2), of y] ne by blast
  have eq: "rotate_right_links x s = Some (y, s6)"
    using s1(1) s2(1) s3(1) s4(1) s5(1) s6(1)
    by (simp add: rotate_right_links_def ld_cell [OF cx] ld_cell [OF cy] ld_cell [OF cy1])
  have "rep (nodes s6) (cpar fs) (Node C y cy (Node B x cx A))"
    using A B C s1 s2 s3 s4 s5 s6 ne by (simp add: touched_frame)
  moreover have "touched s (addrs (plug fs ?t)) s6"
    using s1(2) s2(2) s3(2) s4(2) s5(2) s6(2) by (auto simp: touched_def addrs_plug)
  ultimately have "moved s (plug fs ?t) s6 (plug fs (Node C y cy (Node B x cx A)))"
    using s6 s5 s4 s3 s2 s1 root d by (auto simp: moved_def represents_plug ptr_plug addrs_plug)
  with eq show ?thesis by blast
qed

end
