(* ===== verification/Rbtree_Insert.thy ===== *)
theory Rbtree_Insert
  imports Rbtree_Rep
begin

text \<open>
  Insertion. The contract of the augment callbacks is the locale \<open>rb_augmented\<close>: a property
  \<open>Q\<close> of the tree and the embedding structs that does not depend on colours and that the
  rotation callback re-establishes. Inside it, the pointer fix-up \<open>rb_insert\<close> is shown to
  return, without a bad dereference, in a heap that holds \<open>ins_fix\<close>, the fix-up as a
  function on trees with a hole. The red-black invariant and the order of the nodes are
  then facts about \<open>ins_fix\<close>.
\<close>

section \<open>Recolouring\<close>

fun strip :: "rbt \<Rightarrow> rbt" where
  "strip Leaf = Leaf"
| "strip (Node l a c r) = Node (strip l) a Black (strip r)"

fun fstrip :: "frame \<Rightarrow> frame" where
  "fstrip (InL a c r) = InL a Black (strip r)"
| "fstrip (InR l a c) = InR (strip l) a Black"

lemma strip_paint [simp]: "strip (paint c t) = strip t"
  by (cases t) simp_all

lemma strip_plug: "strip (plug fs t) = plug (map fstrip fs) (strip t)"
proof (induction fs arbitrary: t)
  case (Cons f fs)
  then show ?case by (cases f) simp_all
qed simp

lemma set_color_rep:
  assumes "represents s (plug fs (Node l a c r))"
  shows "\<exists>s'. rb_set_black a s = Some s' \<and> moved s (plug fs (Node l a c r)) s' (plug fs (Node l a Black r))"
    and "\<exists>s'. rb_set_red a s = Some s' \<and> moved s (plug fs (Node l a c r)) s' (plug fs (Node l a Red r))"
    and "\<exists>s'. rb_set_parent_color a (cpar fs) (color_word k) s = Some s'
      \<and> moved s (plug fs (Node l a c r)) s' (plug fs (Node l a k r))"
proof -
  from assms have ca: "cell (nodes s) a (cpar fs) c (ptr l) (ptr r)" and al: "aligned (cpar fs)"
    and lr: "rep (nodes s) a l" "rep (nodes s) a r" and cr: "crep (nodes s) a fs"
    and fr: "a \<notin> addrs l" "a \<notin> addrs r" "a \<notin> caddrs fs"
    by (auto simp: represents_plug addrs_def caddrs_def intro: crep_aligned_cpar)
  have *: "moved s (plug fs (Node l a c r)) s' (plug fs (Node l a k r))"
    if "touched s {a} s'" "rb_root s' = rb_root s" "cell (nodes s') a (cpar fs) k (ptr l) (ptr r)"
    for s' k
    using that assms lr cr fr
    by (auto simp: moved_def represents_plug touched_frame ptr_plug addrs_plug intro: touched_mono)
  show "\<exists>s'. rb_set_black a s = Some s' \<and> moved s (plug fs (Node l a c r)) s' (plug fs (Node l a Black r))"
    using set_black_cell [OF ca] * by blast
  show "\<exists>s'. rb_set_red a s = Some s' \<and> moved s (plug fs (Node l a c r)) s' (plug fs (Node l a Red r))"
    using set_red_cell [OF ca] * by blast
  show "\<exists>s'. rb_set_parent_color a (cpar fs) (color_word k) s = Some s'
      \<and> moved s (plug fs (Node l a c r)) s' (plug fs (Node l a k r))"
    using set_parent_color_cell [OF ca al] * by blast
qed

section \<open>The contract of the augment callbacks\<close>

text \<open>\<open>reaches Q s t s' t'\<close>: from a heap that held \<open>t\<close>, the operation led to one that holds
  \<open>t'\<close> with \<open>Q\<close>; nodes outside the tree are as before.\<close>

definition reaches ::
    "(rbt \<Rightarrow> 'a \<Rightarrow> bool) \<Rightarrow> 'a rb_state \<Rightarrow> rbt \<Rightarrow> 'a rb_state \<Rightarrow> rbt \<Rightarrow> bool" where
  "reaches Q s t s' t' \<longleftrightarrow> represents s' t' \<and> Q t' (aug_data s') \<and> addrs t' = addrs t
     \<and> dom (nodes s') = dom (nodes s) \<and> (\<forall>a. a \<notin> addrs t \<longrightarrow> nodes s' a = nodes s a)"

lemma reaches_trans:
  "reaches Q s t s1 t1 \<Longrightarrow> reaches Q s1 t1 s2 t2 \<Longrightarrow> reaches Q s t s2 t2"
  by (auto simp: reaches_def)

lemma reaches_refl: "represents s t \<Longrightarrow> Q t (aug_data s) \<Longrightarrow> reaches Q s t s t"
  by (simp add: reaches_def)

locale rb_augmented =
  fixes aug :: "'a rb_aug" and Q :: "rbt \<Rightarrow> 'a \<Rightarrow> bool"
  assumes Q_strip: "strip t = strip t' \<Longrightarrow> Q t d = Q t' d"
    and rotate_left_ok:
      "represents s (plug fs (Node (Node A x cx B) y cy C)) \<Longrightarrow>
       Q (plug fs (Node A x cx (Node B y cy C))) (aug_data s) \<Longrightarrow>
       \<exists>d. call rotate aug x y s = Some (s\<lparr>aug_data := d\<rparr>)
         \<and> Q (plug fs (Node (Node A x cx B) y cy C)) d"
    and rotate_right_ok:
      "represents s (plug fs (Node C y cy (Node B x cx A))) \<Longrightarrow>
       Q (plug fs (Node (Node C y cy B) x cx A)) (aug_data s) \<Longrightarrow>
       \<exists>d. call rotate aug x y s = Some (s\<lparr>aug_data := d\<rparr>)
         \<and> Q (plug fs (Node C y cy (Node B x cx A))) d"
begin

abbreviation holds :: "'a rb_state \<Rightarrow> rbt \<Rightarrow> bool" where
  "holds s t \<equiv> represents s t \<and> Q t (aug_data s)"

lemma reaches_holds: "reaches Q s t s' t' \<Longrightarrow> holds s' t'"
  by (simp add: reaches_def)

lemma moved_reaches:
  "moved s t s' t' \<Longrightarrow> Q t' (aug_data s) \<Longrightarrow> reaches Q s t s' t'"
  by (auto simp: moved_def reaches_def touched_def)

lemma rotate_left_reaches:
  assumes "holds s (plug fs (Node A x cx (Node B y cy C)))"
  shows "\<exists>s'. rb_rotate_left aug x s = Some s'
    \<and> reaches Q s (plug fs (Node A x cx (Node B y cy C))) s' (plug fs (Node (Node A x cx B) y cy C))"
proof -
  let ?t = "plug fs (Node A x cx (Node B y cy C))" and ?t' = "plug fs (Node (Node A x cx B) y cy C)"
  obtain s1 where s1: "rotate_left_links x s = Some (y, s1)" and m: "moved s ?t s1 ?t'"
    using rotate_left_rep assms by blast
  then have "represents s1 ?t'" "aug_data s1 = aug_data s"
    by (auto simp: moved_def touched_def)
  with assms obtain d where d: "call rotate aug x y s1 = Some (s1\<lparr>aug_data := d\<rparr>)" "Q ?t' d"
    using rotate_left_ok [of s1 fs A x cx B y cy C] by auto
  have "reaches Q s ?t (s1\<lparr>aug_data := d\<rparr>) ?t'"
    using m d(2) by (auto simp: reaches_def moved_def touched_def represents_def)
  with s1 d(1) show ?thesis by (simp add: rb_rotate_left_def)
qed

lemma rotate_right_reaches:
  assumes "holds s (plug fs (Node (Node C y cy B) x cx A))"
  shows "\<exists>s'. rb_rotate_right aug x s = Some s'
    \<and> reaches Q s (plug fs (Node (Node C y cy B) x cx A)) s' (plug fs (Node C y cy (Node B x cx A)))"
proof -
  let ?t = "plug fs (Node (Node C y cy B) x cx A)" and ?t' = "plug fs (Node C y cy (Node B x cx A))"
  obtain s1 where s1: "rotate_right_links x s = Some (y, s1)" and m: "moved s ?t s1 ?t'"
    using rotate_right_rep assms by blast
  then have "represents s1 ?t'" "aug_data s1 = aug_data s"
    by (auto simp: moved_def touched_def)
  with assms obtain d where d: "call rotate aug x y s1 = Some (s1\<lparr>aug_data := d\<rparr>)" "Q ?t' d"
    using rotate_right_ok [of s1 fs C y cy B x cx A] by auto
  have "reaches Q s ?t (s1\<lparr>aug_data := d\<rparr>) ?t'"
    using m d(2) by (auto simp: reaches_def moved_def touched_def represents_def)
  with s1 d(1) show ?thesis by (simp add: rb_rotate_right_def)
qed

lemma recolor_reaches:
  assumes "holds s (plug fs (Node l a c r))"
  shows "\<exists>s'. rb_set_black a s = Some s'
      \<and> reaches Q s (plug fs (Node l a c r)) s' (plug fs (Node l a Black r))"
    and "\<exists>s'. rb_set_red a s = Some s'
      \<and> reaches Q s (plug fs (Node l a c r)) s' (plug fs (Node l a Red r))"
    and "\<exists>s'. rb_set_parent_color a (cpar fs) (color_word k) s = Some s'
      \<and> reaches Q s (plug fs (Node l a c r)) s' (plug fs (Node l a k r))"
proof -
  have Q: "Q (plug fs (Node l a k r)) (aug_data s)" for k
    using assms Q_strip [of "plug fs (Node l a k r)" "plug fs (Node l a c r)"]
    by (simp add: strip_plug)
  show "\<exists>s'. rb_set_black a s = Some s'
      \<and> reaches Q s (plug fs (Node l a c r)) s' (plug fs (Node l a Black r))"
    using set_color_rep(1) assms Q moved_reaches by blast
  show "\<exists>s'. rb_set_red a s = Some s'
      \<and> reaches Q s (plug fs (Node l a c r)) s' (plug fs (Node l a Red r))"
    using set_color_rep(2) assms Q moved_reaches by blast
  show "\<exists>s'. rb_set_parent_color a (cpar fs) (color_word k) s = Some s'
      \<and> reaches Q s (plug fs (Node l a c r)) s' (plug fs (Node l a k r))"
    using set_color_rep(3) assms Q moved_reaches by blast
qed

end

section \<open>The fix-up as a function on trees\<close>

fun ins_fix :: "frame list \<Rightarrow> rbt \<Rightarrow> rbt" where
  "ins_fix [] t = paint Black t"
| "ins_fix (InL p Red pr # InL g gc u # gs) t =
     (if root_color u = Red
      then ins_fix gs (Node (Node t p Black pr) g Red (paint Black u))
      else plug gs (Node t p Black (Node pr g Red u)))"
| "ins_fix (InR pl p Red # InL g gc u # gs) t =
     (if root_color u = Red
      then ins_fix gs (Node (Node pl p Black t) g Red (paint Black u))
      else (case t of Leaf \<Rightarrow> plug (InR pl p Red # InL g gc u # gs) t
        | Node a n _ b \<Rightarrow> plug gs (Node (Node pl p Red a) n Black (Node b g Red u))))"
| "ins_fix (InR pl p Red # InR u g gc # gs) t =
     (if root_color u = Red
      then ins_fix gs (Node (paint Black u) g Red (Node pl p Black t))
      else plug gs (Node (Node u g Red pl) p Black t))"
| "ins_fix (InL p Red pr # InR u g gc # gs) t =
     (if root_color u = Red
      then ins_fix gs (Node (paint Black u) g Red (Node t p Black pr))
      else (case t of Leaf \<Rightarrow> plug (InL p Red pr # InR u g gc # gs) t
        | Node a n _ b \<Rightarrow> plug gs (Node (Node u g Red a) n Black (Node b p Red pr))))"
| "ins_fix fs t = plug fs t"

lemma inorder_ins_fix: "inorder (ins_fix fs t) = inorder (plug fs t)"
  by (induction fs t rule: ins_fix.induct) (auto simp: inorder_plug split: rbt.split)

section \<open>The pointer code computes the fix-up\<close>

lemma represents_cell:
  "represents s (plug fs (Node l a c r)) \<Longrightarrow> cell (nodes s) a (cpar fs) c (ptr l) (ptr r)"
  by (simp add: represents_plug)

lemma ptr_neq:
  "a \<noteq> NULL \<Longrightarrow> a \<notin> addrs t \<Longrightarrow> ptr t \<noteq> a"
  using ptr_in_addrs [of t] by (cases t) auto

context rb_augmented
begin

text \<open>Case 1 of the fix-up: the uncle and the parent turn black, the grandparent red.\<close>

lemma recolor_grand:
  assumes "holds s (plug gs (Node P g gc U))"
    and "u \<in> {ptr P, ptr U}" and "p \<in> {ptr P, ptr U}" and "u \<noteq> p"
    and "P \<noteq> Leaf" and "U \<noteq> Leaf"
  obtains s1 s2 s3 where "rb_set_black u s = Some s1" "rb_set_black p s1 = Some s2"
    "rb_set_red g s2 = Some s3"
    "reaches Q s (plug gs (Node P g gc U)) s3 (plug gs (Node (paint Black P) g Red (paint Black U)))"
proof -
  obtain pl pa pc pr where P: "P = Node pl pa pc pr" using assms(5) by (cases P) auto
  obtain ul ua uc ur where U: "U = Node ul ua uc ur" using assms(6) by (cases U) auto
  have "\<exists>s1 s2. rb_set_black u s = Some s1 \<and> rb_set_black p s1 = Some s2
    \<and> reaches Q s (plug gs (Node P g gc U)) s2 (plug gs (Node (paint Black P) g gc (paint Black U)))"
  proof (cases "u = ua")
    case True
    with assms P U have "p = pa" by auto
    obtain s1 where s1: "rb_set_black u s = Some s1"
        "reaches Q s (plug gs (Node P g gc U)) s1 (plug gs (Node P g gc (paint Black U)))"
      using recolor_reaches(1) [of s "InR P g gc # gs" ul ua uc ur] assms(1) U True by auto
    then obtain s2 where "rb_set_black p s1 = Some s2"
        "reaches Q s1 (plug gs (Node P g gc (paint Black U))) s2
           (plug gs (Node (paint Black P) g gc (paint Black U)))"
      using recolor_reaches(1) [of s1 "InL g gc (paint Black U) # gs" pl pa pc pr]
        reaches_holds [OF s1(2)] P \<open>p = pa\<close> by auto
    with s1 show ?thesis using reaches_trans by blast
  next
    case False
    with assms P U have up: "u = pa" "p = ua" by auto
    obtain s1 where s1: "rb_set_black u s = Some s1"
        "reaches Q s (plug gs (Node P g gc U)) s1 (plug gs (Node (paint Black P) g gc U))"
      using recolor_reaches(1) [of s "InL g gc U # gs" pl pa pc pr] assms(1) P up by auto
    then obtain s2 where "rb_set_black p s1 = Some s2"
        "reaches Q s1 (plug gs (Node (paint Black P) g gc U)) s2
           (plug gs (Node (paint Black P) g gc (paint Black U)))"
      using recolor_reaches(1) [of s1 "InR (paint Black P) g gc # gs" ul ua uc ur]
        reaches_holds [OF s1(2)] U up by auto
    with s1 show ?thesis using reaches_trans by blast
  qed
  then obtain s1 s2 where s12: "rb_set_black u s = Some s1" "rb_set_black p s1 = Some s2"
      "reaches Q s (plug gs (Node P g gc U)) s2 (plug gs (Node (paint Black P) g gc (paint Black U)))"
    by blast
  moreover obtain s3 where "rb_set_red g s2 = Some s3"
      "reaches Q s2 (plug gs (Node (paint Black P) g gc (paint Black U))) s3
         (plug gs (Node (paint Black P) g Red (paint Black U)))"
    using recolor_reaches(2) reaches_holds [OF s12(3)] by blast
  ultimately show ?thesis using that reaches_trans by blast
qed

text \<open>Case 3 with the parent on the left: recolour, then rotate at the grandparent.\<close>

lemma outer_left:
  assumes "holds s (plug gs (Node (Node t p pc pr) g gc u))"
  shows "\<exists>s'. do { s \<leftarrow> rb_set_black p s; s \<leftarrow> rb_set_red g s; rb_rotate_right aug g s } = Some s'
    \<and> reaches Q s (plug gs (Node (Node t p pc pr) g gc u)) s' (plug gs (Node t p Black (Node pr g Red u)))"
proof -
  obtain s1 where s1: "rb_set_black p s = Some s1"
      "reaches Q s (plug gs (Node (Node t p pc pr) g gc u)) s1 (plug gs (Node (Node t p Black pr) g gc u))"
    using recolor_reaches(1) [of s "InL g gc u # gs" t p pc pr] assms by auto
  obtain s2 where s2: "rb_set_red g s1 = Some s2"
      "reaches Q s1 (plug gs (Node (Node t p Black pr) g gc u)) s2 (plug gs (Node (Node t p Black pr) g Red u))"
    using recolor_reaches(2) reaches_holds [OF s1(2)] by blast
  obtain s3 where s3: "rb_rotate_right aug g s2 = Some s3"
      "reaches Q s2 (plug gs (Node (Node t p Black pr) g Red u)) s3 (plug gs (Node t p Black (Node pr g Red u)))"
    using rotate_right_reaches reaches_holds [OF s2(2)] by blast
  show ?thesis
    using s1(1) s2(1) s3(1) reaches_trans [OF reaches_trans [OF s1(2) s2(2)] s3(2)] by simp
qed

lemma outer_right:
  assumes "holds s (plug gs (Node u g gc (Node pl p pc t)))"
  shows "\<exists>s'. do { s \<leftarrow> rb_set_black p s; s \<leftarrow> rb_set_red g s; rb_rotate_left aug g s } = Some s'
    \<and> reaches Q s (plug gs (Node u g gc (Node pl p pc t))) s' (plug gs (Node (Node u g Red pl) p Black t))"
proof -
  obtain s1 where s1: "rb_set_black p s = Some s1"
      "reaches Q s (plug gs (Node u g gc (Node pl p pc t))) s1 (plug gs (Node u g gc (Node pl p Black t)))"
    using recolor_reaches(1) [of s "InR u g gc # gs" pl p pc t] assms by auto
  obtain s2 where s2: "rb_set_red g s1 = Some s2"
      "reaches Q s1 (plug gs (Node u g gc (Node pl p Black t))) s2 (plug gs (Node u g Red (Node pl p Black t)))"
    using recolor_reaches(2) reaches_holds [OF s1(2)] by blast
  obtain s3 where s3: "rb_rotate_left aug g s2 = Some s3"
      "reaches Q s2 (plug gs (Node u g Red (Node pl p Black t))) s3 (plug gs (Node (Node u g Red pl) p Black t))"
    using rotate_left_reaches reaches_holds [OF s2(2)] by blast
  show ?thesis
    using s1(1) s2(1) s3(1) reaches_trans [OF reaches_trans [OF s1(2) s2(2)] s3(2)] by simp
qed

lemma uncle_is_red_rep:
  "rep (nodes s) q u \<Longrightarrow> uncle_is_red (ptr u) s = Some (root_color u = Red)"
  by (cases u) (auto simp: uncle_is_red_def ld_cell dest: cell_NULL)

text \<open>One round of the loop below a red parent: the uncle is red and the loop goes on from
  the grandparent, or the uncle is black and one or two rotations end it.\<close>

lemma round_red_uncle:
  assumes T: "holds s (plug gs (Node A g gc B))" and n: "cell (nodes s) n p c l r"
    and red: "root_color A = Red" "root_color B = Red" and p: "p \<in> {ptr A, ptr B}"
  shows "\<exists>s1. rb_insert aug n s = rb_insert aug g s1 \<and> reaches Q s (plug gs (Node A g gc B)) s1
    (plug gs (Node (paint Black A) g Red (paint Black B)))"
proof -
  have cg: "cell (nodes s) g (cpar gs) gc (ptr A) (ptr B)" and A: "rep (nodes s) g A"
    and B: "rep (nodes s) g B" using T by (auto simp: represents_plug)
  have "distinct (before gs @ inorder (Node A g gc B) @ after gs)"
    using T by (simp only: represents_plug)
  then have "addrs A \<inter> addrs B = {}" by (auto simp: addrs_def)
  moreover have AB: "A \<noteq> Leaf" "B \<noteq> Leaf" using red by auto
  ultimately have ne: "ptr A \<noteq> ptr B" using ptr_in_addrs by fastforce
  have cp: "ld rb_is_black p s = Some False" "ld rb_parent p s = Some g" "p \<noteq> NULL"
    using p red A B AB by (cases A; cases B; auto simp: ld_cell dest: cell_NULL)+
  define u where "u = (if p = ptr A then ptr B else ptr A)"
  have "u \<in> {ptr A, ptr B}" "u \<noteq> p" using ne p by (auto simp: u_def)
  then obtain s1 s2 s3 where s: "rb_set_black u s = Some s1" "rb_set_black p s1 = Some s2"
      "rb_set_red g s2 = Some s3" "reaches Q s (plug gs (Node A g gc B)) s3
        (plug gs (Node (paint Black A) g Red (paint Black B)))"
    using recolor_grand [OF T _ p _ AB] by blast
  have "rb_insert aug n s = rb_insert aug g s3"
    using s cp p ne red uncle_is_red_rep [OF A] uncle_is_red_rep [OF B]
    by (auto simp: rb_insert.simps [of aug n s] ld_cell [OF n] ld_cell [OF cg] u_def)
  with s(4) show ?thesis by blast
qed

lemma round_left_outer:
  assumes T: "holds s (plug gs (Node (Node (Node l n c r) p Red pr) g gc u))"
    and u: "root_color u = Black"
  shows "\<exists>s'. rb_insert aug n s = Some s' \<and> reaches Q s
    (plug gs (Node (Node (Node l n c r) p Red pr) g gc u)) s'
    (plug gs (Node (Node l n c r) p Black (Node pr g Red u)))"
proof -
  have cn: "cell (nodes s) n p c (ptr l) (ptr r)" and cp: "cell (nodes s) p g Red n (ptr pr)"
    and cg: "cell (nodes s) g (cpar gs) gc p (ptr u)" and ru: "rep (nodes s) g u"
    using T by (auto simp: represents_plug)
  have "distinct (before gs @ inorder (Node (Node (Node l n c r) p Red pr) g gc u) @ after gs)"
    using T by (simp only: represents_plug)
  then have "n \<notin> addrs pr" by (auto simp: addrs_def)
  then have "ptr pr \<noteq> n" using ptr_neq cell_NULL [OF cn] by blast
  with outer_left [OF T] u show ?thesis
    by (simp add: rb_insert.simps [of aug n s] uncle_is_red_rep [OF ru] cell_NULL [OF cp]
        ld_cell [OF cn] ld_cell [OF cp] ld_cell [OF cg])
qed

lemma round_right_outer:
  assumes T: "holds s (plug gs (Node u g gc (Node pl p Red (Node l n c r))))"
    and u: "root_color u = Black"
  shows "\<exists>s'. rb_insert aug n s = Some s' \<and> reaches Q s
    (plug gs (Node u g gc (Node pl p Red (Node l n c r)))) s'
    (plug gs (Node (Node u g Red pl) p Black (Node l n c r)))"
proof -
  have cn: "cell (nodes s) n p c (ptr l) (ptr r)" and cp: "cell (nodes s) p g Red (ptr pl) n"
    and cg: "cell (nodes s) g (cpar gs) gc (ptr u) p" and ru: "rep (nodes s) g u"
    using T by (auto simp: represents_plug)
  have "distinct (before gs @ inorder (Node u g gc (Node pl p Red (Node l n c r))) @ after gs)"
    using T by (simp only: represents_plug)
  then have "n \<notin> addrs pl" "p \<notin> addrs u" by (auto simp: addrs_def)
  then have "ptr pl \<noteq> n" "ptr u \<noteq> p" using ptr_neq cell_NULL [OF cn] cell_NULL [OF cp] by blast+
  with outer_right [OF T] u show ?thesis
    by (simp add: rb_insert.simps [of aug n s] uncle_is_red_rep [OF ru] cell_NULL [OF cp]
        ld_cell [OF cn] ld_cell [OF cp] ld_cell [OF cg])
qed

lemma round_left_inner:
  assumes T: "holds s (plug gs (Node (Node pl p Red (Node l n c r)) g gc u))"
    and u: "root_color u = Black"
  shows "\<exists>s'. rb_insert aug n s = Some s' \<and> reaches Q s
    (plug gs (Node (Node pl p Red (Node l n c r)) g gc u)) s'
    (plug gs (Node (Node pl p Red l) n Black (Node r g Red u)))"
proof -
  have cn: "cell (nodes s) n p c (ptr l) (ptr r)" and cp: "cell (nodes s) p g Red (ptr pl) n"
    and cg: "cell (nodes s) g (cpar gs) gc p (ptr u)" and ru: "rep (nodes s) g u"
    using T by (auto simp: represents_plug)
  obtain s1 where s1: "rb_rotate_left aug p s = Some s1"
      "reaches Q s (plug gs (Node (Node pl p Red (Node l n c r)) g gc u)) s1
        (plug gs (Node (Node (Node pl p Red l) n c r) g gc u))"
    using rotate_left_reaches [of s "InL g gc u # gs" pl p Red l n c r] T by auto
  from outer_left [OF reaches_holds [OF s1(2)]] obtain s' where
    "do { s \<leftarrow> rb_set_black n s1; s \<leftarrow> rb_set_red g s; rb_rotate_right aug g s } = Some s'"
    "reaches Q s1 (plug gs (Node (Node (Node pl p Red l) n c r) g gc u)) s'
      (plug gs (Node (Node pl p Red l) n Black (Node r g Red u)))" by blast
  with s1(1) reaches_trans [OF s1(2)] u show ?thesis
    by (simp add: rb_insert.simps [of aug n s] uncle_is_red_rep [OF ru] cell_NULL [OF cp]
        ld_cell [OF cn] ld_cell [OF cp] ld_cell [OF cg])
qed

lemma round_right_inner:
  assumes T: "holds s (plug gs (Node u g gc (Node (Node l n c r) p Red pr)))"
    and u: "root_color u = Black"
  shows "\<exists>s'. rb_insert aug n s = Some s' \<and> reaches Q s
    (plug gs (Node u g gc (Node (Node l n c r) p Red pr))) s'
    (plug gs (Node (Node u g Red l) n Black (Node r p Red pr)))"
proof -
  have cn: "cell (nodes s) n p c (ptr l) (ptr r)" and cp: "cell (nodes s) p g Red n (ptr pr)"
    and cg: "cell (nodes s) g (cpar gs) gc (ptr u) p" and ru: "rep (nodes s) g u"
    using T by (auto simp: represents_plug)
  have "distinct (before gs @ inorder (Node u g gc (Node (Node l n c r) p Red pr)) @ after gs)"
    using T by (simp only: represents_plug)
  then have "p \<notin> addrs u" by (auto simp: addrs_def)
  then have up: "ptr u \<noteq> p" using ptr_neq cell_NULL [OF cp] by blast
  obtain s1 where s1: "rb_rotate_right aug p s = Some s1"
      "reaches Q s (plug gs (Node u g gc (Node (Node l n c r) p Red pr))) s1
        (plug gs (Node u g gc (Node l n c (Node r p Red pr))))"
    using rotate_right_reaches [of s "InR u g gc # gs" l n c r p Red pr] T by auto
  from outer_right [OF reaches_holds [OF s1(2)]] obtain s' where
    "do { s \<leftarrow> rb_set_black n s1; s \<leftarrow> rb_set_red g s; rb_rotate_left aug g s } = Some s'"
    "reaches Q s1 (plug gs (Node u g gc (Node l n c (Node r p Red pr)))) s'
      (plug gs (Node (Node u g Red l) n Black (Node r p Red pr)))" by blast
  with s1(1) reaches_trans [OF s1(2)] u up show ?thesis
    by (simp add: rb_insert.simps [of aug n s] uncle_is_red_rep [OF ru] cell_NULL [OF cp]
        ld_cell [OF cn] ld_cell [OF cp] ld_cell [OF cg])
qed

theorem rb_insert_ins_fix:
  assumes "holds s (plug fs (Node l n c r))" and "fs \<noteq> [] \<Longrightarrow> fcolor (last fs) = Black"
  shows "\<exists>s'. rb_insert aug n s = Some s'
    \<and> reaches Q s (plug fs (Node l n c r)) s' (ins_fix fs (Node l n c r))"
  using assms
proof (induction "length fs" arbitrary: fs s l n c r rule: less_induct)
  case less
  note T = less.prems(1)
  have again: ?case if split: "plug fs (Node l n c r) = plug gs (Node A g gc B)"
      and red: "root_color A = Red" "root_color B = Red" and gs: "length gs < length fs"
      and p: "cpar fs \<in> {ptr A, ptr B}" and last: "gs \<noteq> [] \<Longrightarrow> last gs = last fs" "fs \<noteq> []"
      and res: "ins_fix fs (Node l n c r) = ins_fix gs (Node (paint Black A) g Red (paint Black B))"
    for gs A g gc B
  proof -
    have T': "holds s (plug gs (Node A g gc B))" using T split by simp
    obtain s1 where s1: "rb_insert aug n s = rb_insert aug g s1"
        "reaches Q s (plug gs (Node A g gc B)) s1 (plug gs (Node (paint Black A) g Red (paint Black B)))"
      using round_red_uncle [OF T' represents_cell [OF conjunct1 [OF T]] red p] by blast
    obtain s' where "rb_insert aug g s1 = Some s'"
      "reaches Q s1 (plug gs (Node (paint Black A) g Red (paint Black B))) s'
        (ins_fix gs (Node (paint Black A) g Red (paint Black B)))"
      using less.hyps [OF gs reaches_holds [OF s1(2)]] last less.prems(2) by auto
    with s1 split res show ?case using reaches_trans by metis
  qed
  show ?case
  proof (cases fs)
    case Nil
    then have "cell (nodes s) n NULL c (ptr l) (ptr r)" using represents_cell T by fastforce
    with recolor_reaches(3) [OF T, of Black] Nil show ?thesis
      by (simp add: rb_insert.simps [of aug n s] ld_cell color_word_def)
  next
    case (Cons f fs')
    have cn: "cell (nodes s) n (faddr f) c (ptr l) (ptr r)"
      using represents_cell [OF conjunct1 [OF T]] Cons by simp
    have cp: "ld rb_is_black (faddr f) s = Some (fcolor f = Black)" "faddr f \<noteq> NULL"
      using T Cons by (cases f; auto simp: represents_plug ld_cell dest: cell_NULL)+
    show ?thesis
    proof (cases "fcolor f")
      case Black
      then have "ins_fix fs (Node l n c r) = plug fs (Node l n c r)" using Cons by (cases f) auto
      with T Black Cons cp reaches_refl show ?thesis
        by (auto simp: rb_insert.simps [of aug n s] ld_cell [OF cn])
    next
      case Red
      with less.prems(2) Cons obtain g gs where fs': "fs' = g # gs" by (cases fs') auto
      let ?t = "Node l n c r"
      have last: "gs \<noteq> [] \<Longrightarrow> last gs = last fs" using Cons fs' by simp
      consider (LL) p pr ga gc u where "f = InL p Red pr" "g = InL ga gc u"
        | (RL) pl p ga gc u where "f = InR pl p Red" "g = InL ga gc u"
        | (RR) pl p ga gc u where "f = InR pl p Red" "g = InR u ga gc"
        | (LR) p pr ga gc u where "f = InL p Red pr" "g = InR u ga gc"
        using Red by (cases f; cases g) auto
      then show ?thesis
      proof cases
        case LL
        note pos = LL Cons fs'
        show ?thesis
        proof (cases "root_color u")
          case Red
          show ?thesis
            by (rule again [of gs "Node ?t p Red pr" ga gc u]) (use pos Red last in simp_all)
        next
          case Black
          then show ?thesis
            using round_left_outer [of s gs l n c r p pr ga gc u] T pos by simp
        qed
      next
        case RL
        note pos = RL Cons fs'
        show ?thesis
        proof (cases "root_color u")
          case Red
          show ?thesis
            by (rule again [of gs "Node pl p Red ?t" ga gc u]) (use pos Red last in simp_all)
        next
          case Black
          then show ?thesis
            using round_left_inner [of s gs pl p l n c r ga gc u] T pos by simp
        qed
      next
        case RR
        note pos = RR Cons fs'
        show ?thesis
        proof (cases "root_color u")
          case Red
          show ?thesis
            by (rule again [of gs u ga gc "Node pl p Red ?t"]) (use pos Red last in simp_all)
        next
          case Black
          then show ?thesis
            using round_right_outer [of s gs u ga gc pl p l n c r] T pos by simp
        qed
      next
        case LR
        note pos = LR Cons fs'
        show ?thesis
        proof (cases "root_color u")
          case Red
          show ?thesis
            by (rule again [of gs u ga gc "Node ?t p Red pr"]) (use pos Red last in simp_all)
        next
          case Black
          then show ?thesis
            using round_right_inner [of s gs u ga gc l n c r p pr] T pos by simp
        qed
      qed
    qed
  qed
qed

end

end
