(* ===== verification/Rbtree_Inv.thy ===== *)
theory Rbtree_Inv
  imports Rbtree_Insert
begin

text \<open>
  The red-black invariant, on trees and on trees with a hole, and that the insertion
  fix-up establishes it.
\<close>

section \<open>The invariant\<close>

fun bheight :: "rbt \<Rightarrow> nat" where
  "bheight Leaf = 0"
| "bheight (Node l a c r) = bheight l + (if c = Black then 1 else 0)"

fun rb_sub :: "rbt \<Rightarrow> bool" where
  "rb_sub Leaf = True"
| "rb_sub (Node l a c r) \<longleftrightarrow> bheight l = bheight r \<and> rb_sub l \<and> rb_sub r
     \<and> (c = Red \<longrightarrow> root_color l = Black \<and> root_color r = Black)"

definition rb_ok :: "rbt \<Rightarrow> bool" where
  "rb_ok t \<longleftrightarrow> rb_sub t \<and> root_color t = Black"

text \<open>\<open>ctx_ok n fs\<close>: around a hole of black height \<open>n\<close>. A red frame is never outermost.\<close>

fun ctx_ok :: "nat \<Rightarrow> frame list \<Rightarrow> bool" where
  "ctx_ok n [] = True"
| "ctx_ok n (InL a c r # fs) \<longleftrightarrow> rb_sub r \<and> bheight r = n
     \<and> (c = Red \<longrightarrow> root_color r = Black \<and> fs \<noteq> [] \<and> fcolor (hd fs) = Black)
     \<and> ctx_ok (n + (if c = Black then 1 else 0)) fs"
| "ctx_ok n (InR l a c # fs) \<longleftrightarrow> rb_sub l \<and> bheight l = n
     \<and> (c = Red \<longrightarrow> root_color l = Black \<and> fs \<noteq> [] \<and> fcolor (hd fs) = Black)
     \<and> ctx_ok (n + (if c = Black then 1 else 0)) fs"

definition fits :: "frame list \<Rightarrow> rbt \<Rightarrow> bool" where
  "fits fs t \<longleftrightarrow> root_color t = Black \<or> (fs \<noteq> [] \<and> fcolor (hd fs) = Black)"

lemma color_cases [simp]: "c \<noteq> Black \<longleftrightarrow> c = Red" "c \<noteq> Red \<longleftrightarrow> c = Black"
  by (cases c; simp)+

lemma rb_ok_plug: "rb_ok (plug fs t) \<longleftrightarrow> rb_sub t \<and> ctx_ok (bheight t) fs \<and> fits fs t"
proof (induction fs arbitrary: t)
  case Nil
  show ?case by (auto simp: rb_ok_def fits_def)
next
  case (Cons f fs)
  show ?case
    by (cases f) (auto simp: Cons fits_def)
qed

lemma ctx_ok_outer_black: "ctx_ok n fs \<Longrightarrow> fs \<noteq> [] \<Longrightarrow> fcolor (last fs) = Black"
  by (induction n fs rule: ctx_ok.induct) auto

lemma paint_facts [simp]:
  "rb_sub t \<Longrightarrow> rb_sub (paint Black t)"
  "root_color t = Red \<Longrightarrow> bheight (paint Black t) = Suc (bheight t)"
  "t \<noteq> Leaf \<Longrightarrow> root_color (paint c t) = c"
  "root_color (paint Black t) = Black"
  "root_color t = Black \<Longrightarrow> paint Black t = t"
  by (cases t; simp)+

section \<open>Insertion keeps it\<close>

lemma plug_red_ok:
  assumes "ctx_ok (bheight t) fs" and "rb_sub t" and "fs \<noteq> []"
    and "fcolor (hd fs) = Black \<or> tl fs = []"
  shows "rb_ok (plug fs t)"
proof -
  have "fcolor (hd fs) = Black"
    using ctx_ok_outer_black [OF assms(1,3)] assms(3,4) by (cases fs) auto
  with assms(1-3) show ?thesis by (auto simp: rb_ok_plug fits_def)
qed

lemma ins_fix_ok:
  assumes "ctx_ok (bheight t) fs" and "rb_sub t" and "root_color t = Red"
  shows "rb_ok (ins_fix fs t)"
  using assms
proof (induction fs t rule: ins_fix.induct)
  case (1 t)
  then show ?case by (simp add: rb_ok_def)
next
  case (2 p pr g gc u gs t)
  show ?case
  proof (cases "root_color u = Red")
    case True
    have "rb_ok (ins_fix gs (Node (Node t p Black pr) g Red (paint Black u)))"
      by (rule 2(1) [OF True]) (use 2(2-) True in \<open>cases u; simp\<close>)+
    with True show ?thesis by simp
  next
    case False
    then show ?thesis using 2(2-) by (auto simp: rb_ok_plug fits_def)
  qed
next
  case (3 pl p g gc u gs t)
  show ?case
  proof (cases "root_color u = Red")
    case True
    have "rb_ok (ins_fix gs (Node (Node pl p Black t) g Red (paint Black u)))"
      by (rule 3(1) [OF True]) (use 3(2-) True in \<open>cases u; simp\<close>)+
    with True show ?thesis by simp
  next
    case False
    then show ?thesis using 3(2-) by (cases t) (auto simp: rb_ok_plug fits_def)
  qed
next
  case (4 pl p u g gc gs t)
  show ?case
  proof (cases "root_color u = Red")
    case True
    have "rb_ok (ins_fix gs (Node (paint Black u) g Red (Node pl p Black t)))"
      by (rule 4(1) [OF True]) (use 4(2-) True in \<open>cases u; simp\<close>)+
    with True show ?thesis by simp
  next
    case False
    then show ?thesis using 4(2-) by (auto simp: rb_ok_plug fits_def)
  qed
next
  case (5 p pr u g gc gs t)
  show ?case
  proof (cases "root_color u = Red")
    case True
    have "rb_ok (ins_fix gs (Node (paint Black u) g Red (Node t p Black pr)))"
      by (rule 5(1) [OF True]) (use 5(2-) True in \<open>cases u; simp\<close>)+
    with True show ?thesis by simp
  next
    case False
    then show ?thesis using 5(2-) by (cases t) (auto simp: rb_ok_plug fits_def)
  qed
qed (unfold ins_fix.simps, (rule plug_red_ok; simp)+)

section \<open>Height\<close>

fun height :: "rbt \<Rightarrow> nat" where
  "height Leaf = 0"
| "height (Node l a c r) = Suc (max (height l) (height r))"

lemma height_le: "rb_sub t \<Longrightarrow> height t \<le> 2 * bheight t + (if root_color t = Red then 1 else 0)"
  by (induction t) (auto split: if_splits)

lemma size_ge: "rb_sub t \<Longrightarrow> 2 ^ bheight t \<le> Suc (length (inorder t))"
  by (induction t) auto

end
