(* ===== verification/Rbtree_Erase.thy ===== *)
theory Rbtree_Erase
  imports Rbtree_Inv
begin

text \<open>
  Erasure, in three parts: the fix-up loop computes \<open>del_fix\<close> on trees with a hole;
  \<open>del_fix\<close> restores the red-black invariant; unlinking a node leaves the tree without it.
\<close>

section \<open>The fix-up as a function on trees\<close>

fun both_black :: "rbt \<Rightarrow> bool" where
  "both_black Leaf = True"
| "both_black (Node l a c r) \<longleftrightarrow> root_color l = Black \<and> root_color r = Black"

fun borrow_l :: "rbt \<Rightarrow> addr \<Rightarrow> color \<Rightarrow> rbt \<Rightarrow> rbt" where
  "borrow_l x p pc Leaf = Node x p pc Leaf"
| "borrow_l x p pc (Node wl w wc wr) =
     (if root_color wr = Black
      then (case wl of Leaf \<Rightarrow> Node x p pc (Node wl w wc wr)
        | Node a b _ c \<Rightarrow> Node (Node x p Black a) b pc (Node c w Black wr))
      else Node (Node x p Black wl) w pc (paint Black wr))"

fun borrow_r :: "rbt \<Rightarrow> addr \<Rightarrow> color \<Rightarrow> rbt \<Rightarrow> rbt" where
  "borrow_r Leaf p pc x = Node Leaf p pc x"
| "borrow_r (Node wl w wc wr) p pc x =
     (if root_color wl = Black
      then (case wr of Leaf \<Rightarrow> Node (Node wl w wc wr) p pc x
        | Node a b _ c \<Rightarrow> Node (Node wl w Black a) b pc (Node c p Black x))
      else Node (paint Black wl) w pc (Node wr p Black x))"

fun del_fix :: "frame list \<Rightarrow> rbt \<Rightarrow> rbt" where
  "del_fix [] x = paint Black x"
| "del_fix (InL p pc w # fs) x =
     (if root_color x = Red then plug (InL p pc w # fs) (paint Black x)
      else (case w of Leaf \<Rightarrow> plug (InL p pc w # fs) x
        | Node wl wa wc wr \<Rightarrow>
           (if wc = Red
            then (if both_black wl
                  then plug (InL wa Black wr # fs) (Node x p Black (paint Red wl))
                  else paint Black (plug (InL wa Black wr # fs) (borrow_l x p Red wl)))
            else (if both_black w then del_fix fs (Node x p pc (paint Red w))
                  else paint Black (plug fs (borrow_l x p pc w))))))"
| "del_fix (InR w p pc # fs) x =
     (if root_color x = Red then plug (InR w p pc # fs) (paint Black x)
      else (case w of Leaf \<Rightarrow> plug (InR w p pc # fs) x
        | Node wl wa wc wr \<Rightarrow>
           (if wc = Red
            then (if both_black wr
                  then plug (InR wl wa Black # fs) (Node (paint Red wr) p Black x)
                  else paint Black (plug (InR wl wa Black # fs) (borrow_r wr p Red x)))
            else (if both_black w then del_fix fs (Node (paint Red w) p pc x)
                  else paint Black (plug fs (borrow_r w p pc x))))))"

lemma inorder_borrow:
  "inorder (borrow_l x p pc w) = inorder x @ p # inorder w"
  "inorder (borrow_r w p pc x) = inorder w @ p # inorder x"
  by (cases w; auto split: rbt.split)+

lemma inorder_del_fix: "inorder (del_fix fs x) = inorder (plug fs x)"
  by (induction fs x rule: del_fix.induct) (auto simp: inorder_plug inorder_borrow split: rbt.split)

section \<open>The fix-up restores the invariant\<close>

lemma ctx_ok_plug_black:
  "ctx_ok (bheight t) fs \<Longrightarrow> rb_sub t \<Longrightarrow> fits fs t \<Longrightarrow> rb_ok (paint Black (plug fs t))"
proof -
  assume "ctx_ok (bheight t) fs" "rb_sub t" "fits fs t"
  then have "rb_ok (plug fs t)" by (simp add: rb_ok_plug)
  then show ?thesis by (simp add: rb_ok_def)
qed

lemma borrow_l_ok:
  assumes "rb_sub x" and "rb_sub w" and "bheight w = Suc (bheight x)" and "root_color w = Black"
    and "\<not> both_black w" and "pc = Red \<longrightarrow> root_color x = Black"
  shows "rb_sub (borrow_l x p pc w)" "root_color (borrow_l x p pc w) = pc"
    "bheight (borrow_l x p pc w) = Suc (bheight x) + (if pc = Black then 1 else 0)"
  using assms by (cases w; auto split: rbt.split)+

lemma borrow_r_ok:
  assumes "rb_sub x" and "rb_sub w" and "bheight w = Suc (bheight x)" and "root_color w = Black"
    and "\<not> both_black w" and "pc = Red \<longrightarrow> root_color x = Black"
  shows "rb_sub (borrow_r w p pc x)" "root_color (borrow_r w p pc x) = pc"
    "bheight (borrow_r w p pc x) = Suc (bheight x) + (if pc = Black then 1 else 0)"
  using assms by (cases w; auto split: rbt.split)+

lemma del_fix_ok:
  assumes "ctx_ok (Suc (bheight x)) fs" and "rb_sub (paint Black x)"
  shows "rb_ok (del_fix fs x)"
  using assms
proof (induction fs x rule: del_fix.induct)
  case (1 x)
  then show ?case by (simp add: rb_ok_def)
next
  case (2 p pc w fs x)
  show ?case
  proof (cases "root_color x = Red")
    case True
    then show ?thesis using 2(2-) by (auto simp: rb_ok_plug fits_def)
  next
    case False
    then have x: "root_color x = Black" "rb_sub x" using 2(3) by simp_all
    from 2(2) obtain wl wa wc wr where w: "w = Node wl wa wc wr" by (cases w) auto
    consider (rest) "wc = Red" | (step) "wc = Black" "both_black w"
      | (rot) "wc = Black" "\<not> both_black w" by (cases wc) auto
    then show ?thesis
    proof cases
      case rest
      then obtain wll wla wlr where wl: "wl = Node wll wla Black wlr"
        using 2(2) w by (cases wl) auto
      show ?thesis
      proof (cases "both_black wl")
        case True
        then show ?thesis using 2(2) w wl rest x by (auto simp: rb_ok_plug fits_def)
      next
        case False
        have b: "rb_sub (borrow_l x p Red wl)" "root_color (borrow_l x p Red wl) = Red"
            "bheight (borrow_l x p Red wl) = Suc (bheight x)"
          using borrow_l_ok [of x wl Red p] 2(2) w wl rest x False by auto
        have "rb_ok (paint Black (plug (InL wa Black wr # fs) (borrow_l x p Red wl)))"
          by (rule ctx_ok_plug_black) (use 2(2) b w wl rest in \<open>auto simp: fits_def\<close>)
        then show ?thesis using False w rest x by simp
      qed
    next
      case step
      have "rb_ok (del_fix fs (Node x p pc (paint Red w)))"
        by (rule 2(1)) (use 2(2) step w x in auto)
      then show ?thesis using step w x by simp
    next
      case rot
      have b: "rb_sub (borrow_l x p pc w)" "root_color (borrow_l x p pc w) = pc"
          "bheight (borrow_l x p pc w) = Suc (bheight x) + (if pc = Black then 1 else 0)"
        using borrow_l_ok [of x w pc p] 2(2) w rot x by auto
      have "rb_ok (paint Black (plug fs (borrow_l x p pc w)))"
        by (rule ctx_ok_plug_black) (use 2(2) b in \<open>cases pc; auto simp: fits_def\<close>)+
      then show ?thesis using rot w x by (cases "root_color wl") simp_all
    qed
  qed
next
  case (3 w p pc fs x)
  show ?case
  proof (cases "root_color x = Red")
    case True
    then show ?thesis using 3(2-) by (auto simp: rb_ok_plug fits_def)
  next
    case False
    then have x: "root_color x = Black" "rb_sub x" using 3(3) by simp_all
    from 3(2) obtain wl wa wc wr where w: "w = Node wl wa wc wr" by (cases w) auto
    consider (rest) "wc = Red" | (step) "wc = Black" "both_black w"
      | (rot) "wc = Black" "\<not> both_black w" by (cases wc) auto
    then show ?thesis
    proof cases
      case rest
      then obtain wrl wra wrr where wr: "wr = Node wrl wra Black wrr"
        using 3(2) w by (cases wr) auto
      show ?thesis
      proof (cases "both_black wr")
        case True
        then show ?thesis using 3(2) w wr rest x by (auto simp: rb_ok_plug fits_def)
      next
        case False
        have b: "rb_sub (borrow_r wr p Red x)" "root_color (borrow_r wr p Red x) = Red"
            "bheight (borrow_r wr p Red x) = Suc (bheight x)"
          using borrow_r_ok [of x wr Red p] 3(2) w wr rest x False by auto
        have "rb_ok (paint Black (plug (InR wl wa Black # fs) (borrow_r wr p Red x)))"
          by (rule ctx_ok_plug_black) (use 3(2) b w wr rest in \<open>auto simp: fits_def\<close>)
        then show ?thesis using False w rest x by simp
      qed
    next
      case step
      have "rb_ok (del_fix fs (Node (paint Red w) p pc x))"
        by (rule 3(1)) (use 3(2) step w x in auto)
      then show ?thesis using step w x by simp
    next
      case rot
      have b: "rb_sub (borrow_r w p pc x)" "root_color (borrow_r w p pc x) = pc"
          "bheight (borrow_r w p pc x) = Suc (bheight x) + (if pc = Black then 1 else 0)"
        using borrow_r_ok [of x w pc p] 3(2) w rot x by auto
      have "rb_ok (paint Black (plug fs (borrow_r w p pc x)))"
        by (rule ctx_ok_plug_black) (use 3(2) b in \<open>cases pc; auto simp: fits_def\<close>)+
      then show ?thesis using rot w x by (cases "root_color wl") simp_all
    qed
  qed
qed

section \<open>The pointer code computes the fix-up\<close>

lemma node_is_black_rep:
  "rep (nodes s) q u \<Longrightarrow> node_is_black (ptr u) s = Some (root_color u = Black)"
  by (cases u) (auto simp: node_is_black_def ld_cell dest: cell_NULL)

lemma both_children_black_rep:
  assumes "rep (nodes s) q (Node wl w c wr)"
  shows "both_children_black w s = Some (both_black (Node wl w c wr))"
proof -
  from assms have w: "cell (nodes s) w q c (ptr wl) (ptr wr)"
    and l: "rep (nodes s) w wl" and r: "rep (nodes s) w wr" by simp_all
  show ?thesis
    by (simp add: both_children_black_def ld_cell [OF w] node_is_black_rep [OF l]
        node_is_black_rep [OF r])
qed

context rb_augmented
begin

lemma recolor_black:
  assumes "holds s (plug fs t)"
  shows "\<exists>s'. when_nonnull (ptr t) (rb_set_black (ptr t)) s = Some s'
    \<and> reaches Q s (plug fs t) s' (plug fs (paint Black t))"
proof (cases t)
  case Leaf
  then show ?thesis using assms by (auto simp: when_nonnull_def intro: reaches_refl)
next
  case (Node l a c r)
  then have "a \<noteq> NULL" using assms by (auto simp: represents_plug dest: cell_NULL)
  with recolor_reaches(1) [of s fs l a c r] assms Node show ?thesis
    by (simp add: when_nonnull_def)
qed

lemma recolor_root:
  assumes "holds s t"
  shows "\<exists>s'. when_nonnull (rb_root s) (rb_set_black (rb_root s)) s = Some s'
    \<and> reaches Q s t s' (paint Black t)"
  using recolor_black [of s "[]" t] assms by (simp add: represents_def)

text \<open>A red sibling is rotated above the parent.\<close>

lemma sibling_left_black:
  assumes "holds s (plug fs (Node x p pc (Node wl w Black wr)))"
  shows "sibling_left aug p s = Some (w, s)"
proof -
  have cp: "cell (nodes s) p (cpar fs) pc (ptr x) w" and cw: "cell (nodes s) w p Black (ptr wl) (ptr wr)"
    using assms by (auto simp: represents_plug)
  show ?thesis by (simp add: sibling_left_def ld_cell [OF cp] ld_cell [OF cw])
qed

lemma sibling_right_black:
  assumes "holds s (plug fs (Node (Node wl w Black wr) p pc x))"
  shows "sibling_right aug p s = Some (w, s)"
proof -
  have cp: "cell (nodes s) p (cpar fs) pc w (ptr x)" and cw: "cell (nodes s) w p Black (ptr wl) (ptr wr)"
    using assms by (auto simp: represents_plug)
  show ?thesis by (simp add: sibling_right_def ld_cell [OF cp] ld_cell [OF cw])
qed

lemma sibling_left_red:
  assumes "holds s (plug fs (Node x p pc (Node wl w Red wr)))"
  shows "\<exists>s'. sibling_left aug p s = Some (ptr wl, s') \<and> reaches Q s
    (plug fs (Node x p pc (Node wl w Red wr))) s' (plug (InL w Black wr # fs) (Node x p Red wl))"
proof -
  have cp: "cell (nodes s) p (cpar fs) pc (ptr x) w" and cw: "cell (nodes s) w p Red (ptr wl) (ptr wr)"
    using assms by (auto simp: represents_plug)
  obtain s1 where s1: "rb_set_black w s = Some s1"
      "reaches Q s (plug fs (Node x p pc (Node wl w Red wr))) s1 (plug fs (Node x p pc (Node wl w Black wr)))"
    using recolor_reaches(1) [of s "InR x p pc # fs" wl w Red wr] assms by auto
  obtain s2 where s2: "rb_set_red p s1 = Some s2"
      "reaches Q s1 (plug fs (Node x p pc (Node wl w Black wr))) s2 (plug fs (Node x p Red (Node wl w Black wr)))"
    using recolor_reaches(2) reaches_holds [OF s1(2)] by blast
  obtain s3 where s3: "rb_rotate_left aug p s2 = Some s3"
      "reaches Q s2 (plug fs (Node x p Red (Node wl w Black wr))) s3 (plug fs (Node (Node x p Red wl) w Black wr))"
    using rotate_left_reaches reaches_holds [OF s2(2)] by blast
  have "cell (nodes s3) p w Red (ptr x) (ptr wl)"
    using reaches_holds [OF s3(2)] by (auto simp: represents_plug)
  then show ?thesis
    using s1(1) s2(1) s3(1) reaches_trans [OF reaches_trans [OF s1(2) s2(2)] s3(2)]
    by (simp add: sibling_left_def ld_cell [OF cp] ld_cell [OF cw] ld_cell)
qed

lemma sibling_right_red:
  assumes "holds s (plug fs (Node (Node wl w Red wr) p pc x))"
  shows "\<exists>s'. sibling_right aug p s = Some (ptr wr, s') \<and> reaches Q s
    (plug fs (Node (Node wl w Red wr) p pc x)) s' (plug (InR wl w Black # fs) (Node wr p Red x))"
proof -
  have cp: "cell (nodes s) p (cpar fs) pc w (ptr x)" and cw: "cell (nodes s) w p Red (ptr wl) (ptr wr)"
    using assms by (auto simp: represents_plug)
  obtain s1 where s1: "rb_set_black w s = Some s1"
      "reaches Q s (plug fs (Node (Node wl w Red wr) p pc x)) s1 (plug fs (Node (Node wl w Black wr) p pc x))"
    using recolor_reaches(1) [of s "InL p pc x # fs" wl w Red wr] assms by auto
  obtain s2 where s2: "rb_set_red p s1 = Some s2"
      "reaches Q s1 (plug fs (Node (Node wl w Black wr) p pc x)) s2 (plug fs (Node (Node wl w Black wr) p Red x))"
    using recolor_reaches(2) reaches_holds [OF s1(2)] by blast
  obtain s3 where s3: "rb_rotate_right aug p s2 = Some s3"
      "reaches Q s2 (plug fs (Node (Node wl w Black wr) p Red x)) s3 (plug fs (Node wl w Black (Node wr p Red x)))"
    using rotate_right_reaches reaches_holds [OF s2(2)] by blast
  have "cell (nodes s3) p w Red (ptr wr) (ptr x)"
    using reaches_holds [OF s3(2)] by (auto simp: represents_plug)
  then show ?thesis
    using s1(1) s2(1) s3(1) reaches_trans [OF reaches_trans [OF s1(2) s2(2)] s3(2)]
    by (simp add: sibling_right_def ld_cell [OF cp] ld_cell [OF cw] ld_cell)
qed

text \<open>The final rotation at the parent, and before it the one that turns a red inner nephew
  into a red outer one.\<close>

lemma borrow_left_end:
  assumes "holds s (plug fs (Node x p pc (Node wl w wc wr)))"
  shows "\<exists>s'. do {
      wp \<leftarrow> ld rb_parent w s;
      pc \<leftarrow> ld rb_color p s;
      s \<leftarrow> rb_set_parent_color w wp pc s;
      s \<leftarrow> rb_set_black p s;
      wr \<leftarrow> ld rb_right w s;
      s \<leftarrow> when_nonnull wr (rb_set_black wr) s;
      rb_rotate_left aug p s } = Some s'
    \<and> reaches Q s (plug fs (Node x p pc (Node wl w wc wr))) s'
        (plug fs (Node (Node x p Black wl) w pc (paint Black wr)))"
proof -
  have cp: "cell (nodes s) p (cpar fs) pc (ptr x) w" and cw: "cell (nodes s) w p wc (ptr wl) (ptr wr)"
    using assms by (auto simp: represents_plug)
  obtain s1 where s1: "rb_set_parent_color w p (color_word pc) s = Some s1"
      "reaches Q s (plug fs (Node x p pc (Node wl w wc wr))) s1 (plug fs (Node x p pc (Node wl w pc wr)))"
    using recolor_reaches(3) [of s "InR x p pc # fs" wl w wc wr pc] assms by auto
  obtain s2 where s2: "rb_set_black p s1 = Some s2"
      "reaches Q s1 (plug fs (Node x p pc (Node wl w pc wr))) s2 (plug fs (Node x p Black (Node wl w pc wr)))"
    using recolor_reaches(1) reaches_holds [OF s1(2)] by blast
  have cw2: "cell (nodes s2) w p pc (ptr wl) (ptr wr)"
    using reaches_holds [OF s2(2)] by (auto simp: represents_plug)
  obtain s3 where s3: "when_nonnull (ptr wr) (rb_set_black (ptr wr)) s2 = Some s3"
      "reaches Q s2 (plug fs (Node x p Black (Node wl w pc wr))) s3
         (plug fs (Node x p Black (Node wl w pc (paint Black wr))))"
    using recolor_black [of s2 "InR wl w pc # InR x p Black # fs" wr] reaches_holds [OF s2(2)] by auto
  obtain s4 where s4: "rb_rotate_left aug p s3 = Some s4"
      "reaches Q s3 (plug fs (Node x p Black (Node wl w pc (paint Black wr)))) s4
         (plug fs (Node (Node x p Black wl) w pc (paint Black wr)))"
    using rotate_left_reaches reaches_holds [OF s3(2)] by blast
  show ?thesis
    using s1(1) s2(1) s3(1) s4(1)
      reaches_trans [OF reaches_trans [OF reaches_trans [OF s1(2) s2(2)] s3(2)] s4(2)]
    by (simp add: ld_cell [OF cp] ld_cell [OF cw] ld_cell [OF cw2])
qed

lemma borrow_left_rep:
  assumes T: "holds s (plug fs (Node x p pc (Node wl w wc wr)))" and red: "\<not> both_black (Node wl w wc wr)"
  shows "\<exists>s'. borrow_left aug p w s = Some s' \<and> reaches Q s
    (plug fs (Node x p pc (Node wl w wc wr))) s' (plug fs (borrow_l x p pc (Node wl w wc wr)))"
proof -
  have cw: "cell (nodes s) w p wc (ptr wl) (ptr wr)" and r: "rep (nodes s) w wr"
    using T by (auto simp: represents_plug)
  show ?thesis
  proof (cases "root_color wr = Black")
    case False
    then show ?thesis using borrow_left_end [OF T]
      by (simp add: borrow_left_def ld_cell [OF cw] node_is_black_rep [OF r])
  next
    case True
    with red obtain a b c where wl: "wl = Node a b Red c" by (cases wl) auto
    obtain s1 where s1: "when_nonnull b (rb_set_black b) s = Some s1"
        "reaches Q s (plug fs (Node x p pc (Node wl w wc wr))) s1
           (plug fs (Node x p pc (Node (Node a b Black c) w wc wr)))"
      using recolor_black [of s "InL w wc wr # InR x p pc # fs" wl] T wl by auto
    obtain s2 where s2: "rb_set_red w s1 = Some s2"
        "reaches Q s1 (plug fs (Node x p pc (Node (Node a b Black c) w wc wr))) s2
           (plug fs (Node x p pc (Node (Node a b Black c) w Red wr)))"
      using recolor_reaches(2) [of s1 "InR x p pc # fs" "Node a b Black c" w wc wr]
        reaches_holds [OF s1(2)] by auto
    obtain s3 where s3: "rb_rotate_right aug w s2 = Some s3"
        "reaches Q s2 (plug fs (Node x p pc (Node (Node a b Black c) w Red wr))) s3
           (plug fs (Node x p pc (Node a b Black (Node c w Red wr))))"
      using rotate_right_reaches [of s2 "InR x p pc # fs" a b Black c w Red wr]
        reaches_holds [OF s2(2)] by auto
    have "cell (nodes s3) p (cpar fs) pc (ptr x) b"
      using reaches_holds [OF s3(2)] by (auto simp: represents_plug)
    then show ?thesis
      using s1(1) s2(1) s3(1) borrow_left_end [OF reaches_holds [OF s3(2)]] True wl
        reaches_trans [OF reaches_trans [OF reaches_trans [OF s1(2) s2(2)] s3(2)]]
      by (simp add: borrow_left_def ld_cell [OF cw] node_is_black_rep [OF r] ld_cell) blast
  qed
qed

lemma borrow_right_end:
  assumes "holds s (plug fs (Node (Node wl w wc wr) p pc x))"
  shows "\<exists>s'. do {
      wp \<leftarrow> ld rb_parent w s;
      pc \<leftarrow> ld rb_color p s;
      s \<leftarrow> rb_set_parent_color w wp pc s;
      s \<leftarrow> rb_set_black p s;
      wl \<leftarrow> ld rb_left w s;
      s \<leftarrow> when_nonnull wl (rb_set_black wl) s;
      rb_rotate_right aug p s } = Some s'
    \<and> reaches Q s (plug fs (Node (Node wl w wc wr) p pc x)) s'
        (plug fs (Node (paint Black wl) w pc (Node wr p Black x)))"
proof -
  have cp: "cell (nodes s) p (cpar fs) pc w (ptr x)" and cw: "cell (nodes s) w p wc (ptr wl) (ptr wr)"
    using assms by (auto simp: represents_plug)
  obtain s1 where s1: "rb_set_parent_color w p (color_word pc) s = Some s1"
      "reaches Q s (plug fs (Node (Node wl w wc wr) p pc x)) s1 (plug fs (Node (Node wl w pc wr) p pc x))"
    using recolor_reaches(3) [of s "InL p pc x # fs" wl w wc wr pc] assms by auto
  obtain s2 where s2: "rb_set_black p s1 = Some s2"
      "reaches Q s1 (plug fs (Node (Node wl w pc wr) p pc x)) s2 (plug fs (Node (Node wl w pc wr) p Black x))"
    using recolor_reaches(1) reaches_holds [OF s1(2)] by blast
  have cw2: "cell (nodes s2) w p pc (ptr wl) (ptr wr)"
    using reaches_holds [OF s2(2)] by (auto simp: represents_plug)
  obtain s3 where s3: "when_nonnull (ptr wl) (rb_set_black (ptr wl)) s2 = Some s3"
      "reaches Q s2 (plug fs (Node (Node wl w pc wr) p Black x)) s3
         (plug fs (Node (Node (paint Black wl) w pc wr) p Black x))"
    using recolor_black [of s2 "InL w pc wr # InL p Black x # fs" wl] reaches_holds [OF s2(2)] by auto
  obtain s4 where s4: "rb_rotate_right aug p s3 = Some s4"
      "reaches Q s3 (plug fs (Node (Node (paint Black wl) w pc wr) p Black x)) s4
         (plug fs (Node (paint Black wl) w pc (Node wr p Black x)))"
    using rotate_right_reaches reaches_holds [OF s3(2)] by blast
  show ?thesis
    using s1(1) s2(1) s3(1) s4(1)
      reaches_trans [OF reaches_trans [OF reaches_trans [OF s1(2) s2(2)] s3(2)] s4(2)]
    by (simp add: ld_cell [OF cp] ld_cell [OF cw] ld_cell [OF cw2])
qed

lemma borrow_right_rep:
  assumes T: "holds s (plug fs (Node (Node wl w wc wr) p pc x))" and red: "\<not> both_black (Node wl w wc wr)"
  shows "\<exists>s'. borrow_right aug p w s = Some s' \<and> reaches Q s
    (plug fs (Node (Node wl w wc wr) p pc x)) s' (plug fs (borrow_r (Node wl w wc wr) p pc x))"
proof -
  have cw: "cell (nodes s) w p wc (ptr wl) (ptr wr)" and l: "rep (nodes s) w wl"
    using T by (auto simp: represents_plug)
  show ?thesis
  proof (cases "root_color wl = Black")
    case False
    then show ?thesis using borrow_right_end [OF T]
      by (simp add: borrow_right_def ld_cell [OF cw] node_is_black_rep [OF l])
  next
    case True
    with red obtain a b c where wr: "wr = Node a b Red c" by (cases wr) auto
    obtain s1 where s1: "when_nonnull b (rb_set_black b) s = Some s1"
        "reaches Q s (plug fs (Node (Node wl w wc wr) p pc x)) s1
           (plug fs (Node (Node wl w wc (Node a b Black c)) p pc x))"
      using recolor_black [of s "InR wl w wc # InL p pc x # fs" wr] T wr by auto
    obtain s2 where s2: "rb_set_red w s1 = Some s2"
        "reaches Q s1 (plug fs (Node (Node wl w wc (Node a b Black c)) p pc x)) s2
           (plug fs (Node (Node wl w Red (Node a b Black c)) p pc x))"
      using recolor_reaches(2) [of s1 "InL p pc x # fs" wl w wc "Node a b Black c"]
        reaches_holds [OF s1(2)] by auto
    obtain s3 where s3: "rb_rotate_left aug w s2 = Some s3"
        "reaches Q s2 (plug fs (Node (Node wl w Red (Node a b Black c)) p pc x)) s3
           (plug fs (Node (Node (Node wl w Red a) b Black c) p pc x))"
      using rotate_left_reaches [of s2 "InL p pc x # fs" wl w Red a b Black c]
        reaches_holds [OF s2(2)] by auto
    have "cell (nodes s3) p (cpar fs) pc b (ptr x)"
      using reaches_holds [OF s3(2)] by (auto simp: represents_plug)
    then show ?thesis
      using s1(1) s2(1) s3(1) borrow_right_end [OF reaches_holds [OF s3(2)]] True wr
        reaches_trans [OF reaches_trans [OF reaches_trans [OF s1(2) s2(2)] s3(2)]]
      by (simp add: borrow_right_def ld_cell [OF cw] node_is_black_rep [OF l] ld_cell) blast
  qed
qed

text \<open>The loop stops at a red node or at the root; otherwise it looks at the sibling.\<close>

lemma fixup_stop:
  assumes T: "holds s (plug fs x)" and "fs = [] \<or> root_color x = Red"
  shows "\<exists>s'. rb_erase_fixup aug (ptr x) q s = Some s'
    \<and> reaches Q s (plug fs x) s' (plug fs (paint Black x))"
proof -
  have x: "rep (nodes s) (cpar fs) x" and "rb_root s = ptr (plug fs x)"
    using T by (auto simp: represents_plug)
  with assms(2) have "(if ptr x \<noteq> rb_root s then node_is_black (ptr x) s else Some False) = Some False"
    by (auto simp: node_is_black_rep [OF x])
  with recolor_black [OF T] show ?thesis by (simp add: rb_erase_fixup.simps [of aug "ptr x"])
qed

lemma fixup_enter:
  assumes "holds s (plug (f # fs) x)" and "root_color x = Black"
  shows "(if ptr x \<noteq> rb_root s then node_is_black (ptr x) s else Some False) = Some True"
proof -
  have x: "rep (nodes s) (faddr f) x" and root: "rb_root s = faddr (last (f # fs))"
    and c: "crep (nodes s) (ptr x) (f # fs)"
    and d: "distinct (before (f # fs) @ inorder x @ after (f # fs))"
    using assms(1) unfolding represents_plug ptr_plug by auto
  have "faddr (last (f # fs)) \<in> caddrs (f # fs)"
  proof (induction fs arbitrary: f)
    case Nil
    then show ?case by (cases f) auto
  next
    case (Cons g fs)
    then show ?case by (cases f) auto
  qed
  moreover from this have "faddr (last (f # fs)) \<noteq> NULL" using crep_NULL [OF c] by metis
  ultimately have "ptr x \<noteq> rb_root s"
    using root d ptr_in_addrs [of x] by (cases x) (auto simp: caddrs_def addrs_def)
  with assms(2) show ?thesis by (simp add: node_is_black_rep [OF x])
qed

lemma fixup_left:
  assumes T: "holds s (plug (InL p pc w # fs) x)" and x: "root_color x = Black"
    and sib: "sibling_left aug p s = Some (wa, s1)"
    and T1: "holds s1 (plug gs (Node x p c (Node wl wa Black wr)))"
  shows "both_black (Node wl wa Black wr) \<Longrightarrow>
      \<exists>s2. rb_erase_fixup aug (ptr x) p s = rb_erase_fixup aug p (cpar gs) s2
        \<and> reaches Q s1 (plug gs (Node x p c (Node wl wa Black wr))) s2
            (plug gs (Node x p c (Node wl wa Red wr)))"
    and "\<not> both_black (Node wl wa Black wr) \<Longrightarrow>
      \<exists>s2. rb_erase_fixup aug (ptr x) p s = Some s2
        \<and> reaches Q s1 (plug gs (Node x p c (Node wl wa Black wr))) s2
            (paint Black (plug gs (borrow_l x p c (Node wl wa Black wr))))"
proof -
  have cp: "cell (nodes s) p (cpar fs) pc (ptr x) (ptr w)" using T by (auto simp: represents_plug)
  have w: "rep (nodes s1) p (Node wl wa Black wr)" using T1 by (auto simp: represents_plug)
  note unf = rb_erase_fixup.simps [of aug "ptr x" p s]
  note step = fixup_enter [OF T x] ld_cell [OF cp] sib both_children_black_rep [OF w]
  show "\<exists>s2. rb_erase_fixup aug (ptr x) p s = rb_erase_fixup aug p (cpar gs) s2
      \<and> reaches Q s1 (plug gs (Node x p c (Node wl wa Black wr))) s2
          (plug gs (Node x p c (Node wl wa Red wr)))" if "both_black (Node wl wa Black wr)"
  proof -
    obtain s2 where s2: "rb_set_red wa s1 = Some s2"
        "reaches Q s1 (plug gs (Node x p c (Node wl wa Black wr))) s2
          (plug gs (Node x p c (Node wl wa Red wr)))"
      using recolor_reaches(2) [of s1 "InR x p c # gs" wl wa Black wr] T1 by auto
    have "cell (nodes s2) p (cpar gs) c (ptr x) wa"
      using reaches_holds [OF s2(2)] by (auto simp: represents_plug)
    with s2 that show ?thesis by (subst unf) (simp add: step ld_cell, blast)
  qed
  show "\<exists>s2. rb_erase_fixup aug (ptr x) p s = Some s2
      \<and> reaches Q s1 (plug gs (Node x p c (Node wl wa Black wr))) s2
          (paint Black (plug gs (borrow_l x p c (Node wl wa Black wr))))"
    if red: "\<not> both_black (Node wl wa Black wr)"
  proof -
    obtain s2 where s2: "borrow_left aug p wa s1 = Some s2"
        "reaches Q s1 (plug gs (Node x p c (Node wl wa Black wr))) s2
          (plug gs (borrow_l x p c (Node wl wa Black wr)))"
      using borrow_left_rep [OF T1 red] by blast
    obtain s3 where s3: "when_nonnull (rb_root s2) (rb_set_black (rb_root s2)) s2 = Some s3"
        "reaches Q s2 (plug gs (borrow_l x p c (Node wl wa Black wr))) s3
          (paint Black (plug gs (borrow_l x p c (Node wl wa Black wr))))"
      using recolor_root [OF reaches_holds [OF s2(2)]] by blast
    show ?thesis
      by (rule exI [of _ s3], subst unf)
        (use s2(1) s3(1) red reaches_trans [OF s2(2) s3(2)] in \<open>auto simp add: step simp del: borrow_l.simps\<close>)
  qed
qed

lemma fixup_right:
  assumes T: "holds s (plug (InR w p pc # fs) x)" and x: "root_color x = Black"
    and "w \<noteq> Leaf" and sib: "sibling_right aug p s = Some (wa, s1)"
    and T1: "holds s1 (plug gs (Node (Node wl wa Black wr) p c x))"
  shows "both_black (Node wl wa Black wr) \<Longrightarrow>
      \<exists>s2. rb_erase_fixup aug (ptr x) p s = rb_erase_fixup aug p (cpar gs) s2
        \<and> reaches Q s1 (plug gs (Node (Node wl wa Black wr) p c x)) s2
            (plug gs (Node (Node wl wa Red wr) p c x))"
    and "\<not> both_black (Node wl wa Black wr) \<Longrightarrow>
      \<exists>s2. rb_erase_fixup aug (ptr x) p s = Some s2
        \<and> reaches Q s1 (plug gs (Node (Node wl wa Black wr) p c x)) s2
            (paint Black (plug gs (borrow_r (Node wl wa Black wr) p c x)))"
proof -
  have cp: "cell (nodes s) p (cpar fs) pc (ptr w) (ptr x)" using T by (auto simp: represents_plug)
  have "rep (nodes s) p w" "rep (nodes s) p x"
    and "distinct (before fs @ inorder (Node w p pc x) @ after fs)"
    using T by (simp_all add: represents_plug)
  then have ne: "ptr x \<noteq> ptr w" using \<open>w \<noteq> Leaf\<close>
    by (cases w; cases x) (auto dest: cell_NULL)
  have w: "rep (nodes s1) p (Node wl wa Black wr)" using T1 by (auto simp: represents_plug)
  note unf = rb_erase_fixup.simps [of aug "ptr x" p s]
  note step = fixup_enter [OF T x] ld_cell [OF cp] sib both_children_black_rep [OF w] ne
  show "\<exists>s2. rb_erase_fixup aug (ptr x) p s = rb_erase_fixup aug p (cpar gs) s2
      \<and> reaches Q s1 (plug gs (Node (Node wl wa Black wr) p c x)) s2
          (plug gs (Node (Node wl wa Red wr) p c x))" if "both_black (Node wl wa Black wr)"
  proof -
    obtain s2 where s2: "rb_set_red wa s1 = Some s2"
        "reaches Q s1 (plug gs (Node (Node wl wa Black wr) p c x)) s2
          (plug gs (Node (Node wl wa Red wr) p c x))"
      using recolor_reaches(2) [of s1 "InL p c x # gs" wl wa Black wr] T1 by auto
    have "cell (nodes s2) p (cpar gs) c wa (ptr x)"
      using reaches_holds [OF s2(2)] by (auto simp: represents_plug)
    with s2 that show ?thesis by (subst unf) (simp add: step ld_cell, blast)
  qed
  show "\<exists>s2. rb_erase_fixup aug (ptr x) p s = Some s2
      \<and> reaches Q s1 (plug gs (Node (Node wl wa Black wr) p c x)) s2
          (paint Black (plug gs (borrow_r (Node wl wa Black wr) p c x)))"
    if red: "\<not> both_black (Node wl wa Black wr)"
  proof -
    obtain s2 where s2: "borrow_right aug p wa s1 = Some s2"
        "reaches Q s1 (plug gs (Node (Node wl wa Black wr) p c x)) s2
          (plug gs (borrow_r (Node wl wa Black wr) p c x))"
      using borrow_right_rep [OF T1 red] by blast
    obtain s3 where s3: "when_nonnull (rb_root s2) (rb_set_black (rb_root s2)) s2 = Some s3"
        "reaches Q s2 (plug gs (borrow_r (Node wl wa Black wr) p c x)) s3
          (paint Black (plug gs (borrow_r (Node wl wa Black wr) p c x)))"
      using recolor_root [OF reaches_holds [OF s2(2)]] by blast
    show ?thesis
      by (rule exI [of _ s3], subst unf)
        (use s2(1) s3(1) red reaches_trans [OF s2(2) s3(2)] in \<open>auto simp add: step simp del: borrow_r.simps\<close>)
  qed
qed

theorem rb_erase_fixup_del_fix:
  assumes "holds s (plug fs x)" and "ctx_ok (Suc (bheight x)) fs"
  shows "\<exists>s'. rb_erase_fixup aug (ptr x) (cpar fs) s = Some s'
    \<and> reaches Q s (plug fs x) s' (del_fix fs x)"
  using assms
proof (induction fs x arbitrary: s rule: del_fix.induct)
  case (1 x)
  then show ?case using fixup_stop [of s "[]" x] by simp
next
  case (2 p pc w fs x)
  note T = 2(2)
  from 2(3) obtain wl wa wc wr where w: "w = Node wl wa wc wr" by (cases w) auto
  consider (stop) "root_color x = Red" | (rest) "root_color x = Black" "wc = Red"
    | (step) "root_color x = Black" "wc = Black" by (cases "root_color x"; cases wc) auto
  then show ?case
  proof cases
    case stop
    then show ?thesis using fixup_stop [OF T] by simp
  next
    case rest
    then obtain wll wla wlr where wl: "wl = Node wll wla Black wlr"
      using 2(3) w by (cases wl) auto
    obtain s1 where s1: "sibling_left aug p s = Some (wla, s1)"
        "reaches Q s (plug (InL p pc w # fs) x) s1 (plug (InL wa Black wr # fs) (Node x p Red wl))"
      using sibling_left_red [of s fs x p pc wl wa wr] T w rest wl by auto
    note T1 = reaches_holds [OF s1(2)]
    show ?thesis
    proof (cases "both_black wl")
      case True
      obtain s2 where s2: "rb_erase_fixup aug (ptr x) p s = rb_erase_fixup aug p wa s2"
          "reaches Q s1 (plug (InL wa Black wr # fs) (Node x p Red wl)) s2
            (plug (InL wa Black wr # fs) (Node x p Red (paint Red wl)))"
        using fixup_left(1) [OF T rest(1) s1(1) T1 [unfolded wl]] True wl by auto
      obtain s3 where "rb_erase_fixup aug p wa s2 = Some s3"
          "reaches Q s2 (plug (InL wa Black wr # fs) (Node x p Red (paint Red wl))) s3
            (plug (InL wa Black wr # fs) (Node x p Black (paint Red wl)))"
        using fixup_stop [OF reaches_holds [OF s2(2)]] by auto
      with s2 reaches_trans [OF reaches_trans [OF s1(2) s2(2)]] show ?thesis
        using rest w True by simp
    next
      case False
      then show ?thesis
        using fixup_left(2) [OF T rest(1) s1(1) T1 [unfolded wl]] reaches_trans [OF s1(2)] rest w wl
        by (auto simp del: borrow_l.simps)
    qed
  next
    case step
    have T': "holds s (plug fs (Node x p pc (Node wl wa Black wr)))" using T w step by simp
    note sib = sibling_left_black [OF T']
    show ?thesis
    proof (cases "both_black w")
      case True
      obtain s2 where s2: "rb_erase_fixup aug (ptr x) p s = rb_erase_fixup aug p (cpar fs) s2"
          "reaches Q s (plug fs (Node x p pc w)) s2 (plug fs (Node x p pc (paint Red w)))"
        using fixup_left(1) [OF T step(1) sib T'] True w step by auto
      have "\<exists>s'. rb_erase_fixup aug p (cpar fs) s2 = Some s'
          \<and> reaches Q s2 (plug fs (Node x p pc (paint Red w))) s' (del_fix fs (Node x p pc (paint Red w)))"
        using 2(1) [of wl wa wc wr s2] reaches_holds [OF s2(2)] 2(3) step w True by auto
      with s2 reaches_trans [OF s2(2)] show ?thesis using step w True by auto
    next
      case False
      then show ?thesis
        using fixup_left(2) [OF T step(1) sib T'] step w by (auto simp del: borrow_l.simps)
    qed
  qed
next
  case (3 w p pc fs x)
  note T = 3(2)
  from 3(3) obtain wl wa wc wr where w: "w = Node wl wa wc wr" by (cases w) auto
  then have nl: "w \<noteq> Leaf" by simp
  consider (stop) "root_color x = Red" | (rest) "root_color x = Black" "wc = Red"
    | (step) "root_color x = Black" "wc = Black" by (cases "root_color x"; cases wc) auto
  then show ?case
  proof cases
    case stop
    then show ?thesis using fixup_stop [OF T] by simp
  next
    case rest
    then obtain wrl wra wrr where wr: "wr = Node wrl wra Black wrr"
      using 3(3) w by (cases wr) auto
    obtain s1 where s1: "sibling_right aug p s = Some (wra, s1)"
        "reaches Q s (plug (InR w p pc # fs) x) s1 (plug (InR wl wa Black # fs) (Node wr p Red x))"
      using sibling_right_red [of s fs wl wa wr p pc x] T w rest wr by auto
    note T1 = reaches_holds [OF s1(2)]
    show ?thesis
    proof (cases "both_black wr")
      case True
      obtain s2 where s2: "rb_erase_fixup aug (ptr x) p s = rb_erase_fixup aug p wa s2"
          "reaches Q s1 (plug (InR wl wa Black # fs) (Node wr p Red x)) s2
            (plug (InR wl wa Black # fs) (Node (paint Red wr) p Red x))"
        using fixup_right(1) [OF T rest(1) nl s1(1) T1 [unfolded wr]] True wr by auto
      obtain s3 where "rb_erase_fixup aug p wa s2 = Some s3"
          "reaches Q s2 (plug (InR wl wa Black # fs) (Node (paint Red wr) p Red x)) s3
            (plug (InR wl wa Black # fs) (Node (paint Red wr) p Black x))"
        using fixup_stop [OF reaches_holds [OF s2(2)]] by auto
      with s2 reaches_trans [OF reaches_trans [OF s1(2) s2(2)]] show ?thesis
        using rest w True by simp
    next
      case False
      then show ?thesis
        using fixup_right(2) [OF T rest(1) nl s1(1) T1 [unfolded wr]] reaches_trans [OF s1(2)] rest w wr
        by (auto simp del: borrow_r.simps)
    qed
  next
    case step
    have T': "holds s (plug fs (Node (Node wl wa Black wr) p pc x))" using T w step by simp
    note sib = sibling_right_black [OF T']
    show ?thesis
    proof (cases "both_black w")
      case True
      obtain s2 where s2: "rb_erase_fixup aug (ptr x) p s = rb_erase_fixup aug p (cpar fs) s2"
          "reaches Q s (plug fs (Node w p pc x)) s2 (plug fs (Node (paint Red w) p pc x))"
        using fixup_right(1) [OF T step(1) nl sib T'] True w step by auto
      have "\<exists>s'. rb_erase_fixup aug p (cpar fs) s2 = Some s'
          \<and> reaches Q s2 (plug fs (Node (paint Red w) p pc x)) s' (del_fix fs (Node (paint Red w) p pc x))"
        using 3(1) [of wl wa wc wr s2] reaches_holds [OF s2(2)] 3(3) step w True by auto
      with s2 reaches_trans [OF s2(2)] show ?thesis using step w True by auto
    next
      case False
      then show ?thesis
        using fixup_right(2) [OF T step(1) nl sib T'] step w by (auto simp del: borrow_r.simps)
    qed
  qed
qed

end

end
