(* ===== verification/Rbtree_Unlink.thy ===== *)
theory Rbtree_Unlink
  imports Rbtree_Erase
begin

text \<open>
  Unlinking a node and the whole of \<open>rb_erase\<close>. The locale \<open>rb_erasable\<close> adds to
  \<open>rb_augmented\<close> what the other two callbacks owe: \<open>copy\<close> when the successor takes the
  place of the erased node, \<open>propagate\<close> on any node of the tree.
\<close>

section \<open>Transplanting and the subtree minimum\<close>

lemma transplant_link:
  assumes c: "crep (nodes s) u fs" and u: "cell (nodes s) u (cpar fs) cu ul ur"
    and "u \<notin> caddrs fs" and "distinct (before fs @ after fs)"
  shows "\<exists>s'. transplant u v s = when_nonnull v (rb_set_parent v (cpar fs)) s'
    \<and> touched s (caddrs fs) s' \<and> rb_root s' = (if fs = [] then v else rb_root s)
    \<and> crep (nodes s') v fs"
proof -
  have *: "transplant u v s = do {
      s \<leftarrow> (if cpar fs \<noteq> NULL
           then do { l \<leftarrow> ld rb_left (cpar fs) s;
                     if l = u then set_left (cpar fs) v s else set_right (cpar fs) v s }
           else Some (s\<lparr>rb_root := v\<rparr>));
      when_nonnull v (rb_set_parent v (cpar fs)) s }"
    by (simp add: transplant_def ld_cell [OF u] eq_commute [of u] cong: if_cong)
  obtain s' where s': "(if cpar fs \<noteq> NULL
        then do { l \<leftarrow> ld rb_left (cpar fs) s;
                  if l = u then set_left (cpar fs) v s else set_right (cpar fs) v s }
        else Some (s\<lparr>rb_root := v\<rparr>)) = Some s'"
      "touched s (caddrs fs) s'" "rb_root s' = (if fs = [] then v else rb_root s)"
      "crep (nodes s') v fs"
    using replace_child [OF c cell_NULL [OF u] assms(3,4), of v] by blast
  then show ?thesis unfolding * s'(1) Option.bind.simps by blast
qed

lemma transplant_tree:
  assumes c: "crep (nodes s) u fs" and u: "cell (nodes s) u (cpar fs) cu ul ur"
    and t: "rep (nodes s) q t" and d: "u \<notin> caddrs fs" "distinct (before fs @ inorder t @ after fs)"
  shows "\<exists>s'. transplant u (ptr t) s = Some s'
    \<and> touched s (caddrs fs \<union> addrs t) s' \<and> rb_root s' = (if fs = [] then ptr t else rb_root s)
    \<and> crep (nodes s') (ptr t) fs \<and> rep (nodes s') (cpar fs) t"
proof -
  have dj: "distinct (before fs @ after fs)" "distinct (inorder t)" "addrs t \<inter> caddrs fs = {}"
    using d(2) by (auto simp: addrs_def caddrs_def)
  obtain s1 where s1: "transplant u (ptr t) s = when_nonnull (ptr t) (rb_set_parent (ptr t) (cpar fs)) s1"
      "touched s (caddrs fs) s1" "rb_root s1 = (if fs = [] then ptr t else rb_root s)"
      "crep (nodes s1) (ptr t) fs"
    using transplant_link [OF c u d(1) dj(1)] by blast
  have t1: "rep (nodes s1) q t" using t s1(2) dj by (simp add: touched_frame)
  obtain s2 where s2: "when_nonnull (ptr t) (rb_set_parent (ptr t) (cpar fs)) s1 = Some s2"
      "touched s1 (addrs t) s2" "rb_root s2 = rb_root s1" "rep (nodes s2) (cpar fs) t"
    using when_set_parent_rep [OF t1 dj(2) crep_aligned_cpar [OF c]] by blast
  have "crep (nodes s2) (ptr t) fs" using s1(4) s2(2) dj by (simp add: touched_frame Int_commute)
  with s1 s2 touched_trans [OF s1(2) s2(2)] show ?thesis by simp
qed

lemma transplant_cell:
  assumes c: "crep (nodes s) u fs" and u: "cell (nodes s) u (cpar fs) cu ul ur"
    and v: "cell (nodes s) v q cv vl vr"
    and d: "u \<notin> caddrs fs" "v \<notin> caddrs fs" "distinct (before fs @ after fs)"
  shows "\<exists>s'. transplant u v s = Some s'
    \<and> touched s (insert v (caddrs fs)) s' \<and> rb_root s' = (if fs = [] then v else rb_root s)
    \<and> crep (nodes s') v fs \<and> cell (nodes s') v (cpar fs) cv vl vr"
proof -
  obtain s1 where s1: "transplant u v s = when_nonnull v (rb_set_parent v (cpar fs)) s1"
      "touched s (caddrs fs) s1" "rb_root s1 = (if fs = [] then v else rb_root s)"
      "crep (nodes s1) v fs"
    using transplant_link [OF c u d(1,3)] by blast
  have v1: "cell (nodes s1) v q cv vl vr" using v s1(2) d(2) by (simp add: touched_frame)
  obtain s2 where s2: "rb_set_parent v (cpar fs) s1 = Some s2" "touched s1 {v} s2"
      "rb_root s2 = rb_root s1" "cell (nodes s2) v (cpar fs) cv vl vr"
    using set_parent_cell [OF v1 crep_aligned_cpar [OF c]] by blast
  have "crep (nodes s2) v fs" using s1(4) s2(2) d by (simp add: touched_frame)
  with s1 s2 touched_trans [OF s1(2) s2(2)] cell_NULL [OF v] show ?thesis
    by (simp add: when_nonnull_def)
qed

lemma cpar_in_caddrs: "cpar gs \<noteq> NULL \<Longrightarrow> cpar gs \<in> caddrs gs"
proof (cases gs)
  case (Cons f fs)
  then show ?thesis by (cases f) auto
qed simp

lemma frames_append:
  "before (fs @ gs) = before gs @ before fs" "after (fs @ gs) = after fs @ after gs"
  by (induction fs rule: before.induct) auto

lemma split_min:
  "r \<noteq> Leaf \<Longrightarrow> \<exists>ms y yc x. r = plug ms (Node Leaf y yc x) \<and> before ms = []"
proof (induction r)
  case (Node l a c r)
  show ?case
  proof (cases "l = Leaf")
    case True
    then show ?thesis by (metis plug.simps(1) before.simps(1))
  next
    case False
    with Node.IH(1) obtain ms y yc x where "l = plug ms (Node Leaf y yc x)" "before ms = []"
      by blast
    then have "Node l a c r = plug (ms @ [InL a c r]) (Node Leaf y yc x)"
      "before (ms @ [InL a c r]) = []"
      by (simp_all add: plug_append frames_append)
    then show ?thesis by blast
  qed
qed simp

lemma subtree_min_rep:
  assumes "rep (nodes s) q (plug ms (Node Leaf y yc x))" and "before ms = []"
  shows "subtree_min (ptr (plug ms (Node Leaf y yc x))) s = Some y"
  using assms
proof (induction ms arbitrary: q rule: rev_induct)
  case Nil
  then have "cell (nodes s) y q yc NULL (ptr x)" by simp
  then show ?case by (simp add: subtree_min.simps [of y] ld_cell)
next
  case (snoc f ms)
  from snoc.prems(2) obtain a c r where f: "f = InL a c r" and ms: "before ms = []"
    by (cases f) (auto simp: frames_append)
  let ?l = "plug ms (Node Leaf y yc x)"
  from snoc.prems(1) f have l: "rep (nodes s) a ?l" and ca: "cell (nodes s) a q c (ptr ?l) (ptr r)"
    by (simp_all add: plug_append)
  have "ptr ?l \<noteq> NULL" using l rep_NULL [OF l] ptr_in_addrs [of ?l]
    by (metis addrs_plug addrs_simps(2) empty_iff insertI1 UnCI addrs_simps(1))
  with snoc.IH [OF l ms] f show ?case
    by (simp add: plug_append subtree_min.simps [of a] ld_cell [OF ca])
qed

section \<open>The successor takes the place of the node\<close>

lemma take_place_rep:
  assumes root: "fs \<noteq> [] \<Longrightarrow> rb_root s = faddr (last fs)" and c: "crep (nodes s) z fs"
    and z: "cell (nodes s) z (cpar fs) cz (ptr l) zr" and l: "rep (nodes s) z l" "l \<noteq> Leaf"
    and y: "cell (nodes s) y q cy yl (ptr r)" and r: "rep (nodes s) y r"
    and d: "distinct (z # before fs @ inorder (Node l y cz r) @ after fs)"
  shows "\<exists>s'. take_place z y s = Some s' \<and> represents s' (plug fs (Node l y cz r))
    \<and> touched s (insert y (caddrs fs \<union> addrs l)) s'"
proof -
  from d have ne: "z \<noteq> y" "z \<notin> caddrs fs" "y \<notin> caddrs fs" "z \<notin> addrs l" "z \<notin> addrs r"
      "y \<notin> addrs l" "y \<notin> addrs r" "addrs l \<inter> caddrs fs = {}" "addrs r \<inter> caddrs fs = {}"
      "addrs r \<inter> addrs l = {}" "caddrs fs \<inter> addrs l = {}"
    and d': "distinct (before fs @ after fs)" "distinct (inorder l)"
    by (auto simp: addrs_def caddrs_def)
  obtain s1 where s1: "transplant z y s = Some s1" "touched s (insert y (caddrs fs)) s1"
      "rb_root s1 = (if fs = [] then y else rb_root s)" "crep (nodes s1) y fs"
      "cell (nodes s1) y (cpar fs) cy yl (ptr r)"
    using transplant_cell [OF c z y ne(2,3) d'(1)] by blast
  have z1: "cell (nodes s1) z (cpar fs) cz (ptr l) zr" using z s1(2) ne by (simp add: touched_frame)
  obtain s2 where s2: "set_left y (ptr l) s1 = Some s2" "touched s1 {y} s2"
      "rb_root s2 = rb_root s1" "cell (nodes s2) y (cpar fs) cy (ptr l) (ptr r)"
    using set_left_cell [OF s1(5)] by blast
  have l2: "rep (nodes s2) z l" using l s1(2) s2(2) ne by (simp add: touched_frame)
  have lnull: "ptr l \<noteq> NULL" using l rep_NULL [OF l(1)] ptr_in_addrs [OF l(2)] by auto
  obtain s3 where s3: "rb_set_parent (ptr l) y s2 = Some s3" "touched s2 (addrs l) s3"
      "rb_root s3 = rb_root s2" "rep (nodes s3) y l"
    using when_set_parent_rep [OF l2 d'(2) cell_aligned [OF y]] lnull by (auto simp: when_nonnull_def)
  have y3: "cell (nodes s3) y (cpar fs) cy (ptr l) (ptr r)" and z3: "cell (nodes s3) z (cpar fs) cz (ptr l) zr"
    using s2 z1 s3(2) ne by (simp_all add: touched_frame)
  obtain s4 where s4: "rb_set_parent_color y (cpar fs) (color_word cz) s3 = Some s4" "touched s3 {y} s4"
      "rb_root s4 = rb_root s3" "cell (nodes s4) y (cpar fs) cz (ptr l) (ptr r)"
    using set_parent_color_cell [OF y3 crep_aligned_cpar [OF c]] by blast
  have eq: "take_place z y s = Some s4"
    using s1(1) s2(1) s3(1) s4(1)
    by (simp add: take_place_def ld_cell [OF z1] ld_cell [OF y3] ld_cell [OF z3])
  have "rep (nodes s4) (cpar fs) (Node l y cz r)" "crep (nodes s4) y fs"
    using r s1 s2(2) s3 s4 ne by (simp_all add: touched_frame Int_commute)
  moreover have "rb_root s4 = ptr (plug fs (Node l y cz r))"
    using s1(3) s2(3) s3(3) s4(3) root by (simp add: ptr_plug)
  ultimately have "represents s4 (plug fs (Node l y cz r))"
    using d by (simp add: represents_plug)
  moreover have "touched s (insert y (caddrs fs \<union> addrs l)) s4"
    using s1(2) s2(2) s3(2) s4(2) by (auto simp: touched_def)
  ultimately show ?thesis using eq by blast
qed

lemma rep_plug_append:
  "rep h (cpar (ms @ fs)) t \<and> crep h (ptr t) (ms @ fs)
     \<longleftrightarrow> rep h (cpar fs) (plug ms t) \<and> crep h (ptr (plug ms t)) fs"
proof (induction ms arbitrary: t)
  case (Cons f ms)
  have "rep h (cpar ((f # ms) @ fs)) t \<and> crep h (ptr t) ((f # ms) @ fs)
      \<longleftrightarrow> rep h (cpar (ms @ fs)) (plug1 f t) \<and> crep h (ptr (plug1 f t)) (ms @ fs)"
    by (cases f) auto
  then show ?case using Cons [of "plug1 f t"] by simp
qed simp

lemma detach_rep:
  assumes T: "represents s (plug fs (Node l z c (plug ms (Node Leaf y yc x))))"
  shows "\<exists>s' zr. detach z y (cpar (ms @ [InR l z c])) s = Some s'
    \<and> (fs \<noteq> [] \<longrightarrow> rb_root s' = faddr (last fs)) \<and> crep (nodes s') z fs
    \<and> cell (nodes s') z (cpar fs) c (ptr l) zr \<and> rep (nodes s') z l
    \<and> (\<exists>q yl. cell (nodes s') y q yc yl (ptr (plug ms x))) \<and> rep (nodes s') y (plug ms x)
    \<and> touched s (addrs (plug fs (Node l z c (plug ms (Node Leaf y yc x))))) s'"
proof (cases ms)
  case Nil
  with T show ?thesis
    by (auto simp: represents_plug detach_def ptr_plug)
next
  case (Cons f ms')
  let ?gs = "ms @ InR l z c # fs"
  have T': "represents s (plug ?gs (Node Leaf y yc x))" using T by (simp add: plug_append)
  then have c: "crep (nodes s) y ?gs" and y: "cell (nodes s) y (cpar ?gs) yc NULL (ptr x)"
    and x: "rep (nodes s) y x" and root: "rb_root s = faddr (last ?gs)"
    and d: "distinct (before ?gs @ inorder (Node Leaf y yc x) @ after ?gs)"
    unfolding represents_plug ptr_plug by auto
  from d have ne: "y \<notin> caddrs ?gs" "y \<notin> addrs x" "distinct (before ?gs @ inorder x @ after ?gs)"
    by (auto simp: caddrs_def addrs_def)
  obtain s1 where s1: "transplant y (ptr x) s = Some s1" "touched s (caddrs ?gs \<union> addrs x) s1"
      "rb_root s1 = rb_root s" "crep (nodes s1) (ptr x) ?gs" "rep (nodes s1) (cpar ?gs) x"
    using transplant_tree [OF c y x ne(1,3)] by auto
  have "rep (nodes s1) z (plug ms x) \<and> crep (nodes s1) (ptr (plug ms x)) (InR l z c # fs)"
    using s1(4,5) rep_plug_append [of "nodes s1" ms "InR l z c # fs" x] by simp
  then have m1: "rep (nodes s1) z (plug ms x)"
    and z1: "cell (nodes s1) z (cpar fs) c (ptr l) (ptr (plug ms x))"
    and l1: "rep (nodes s1) z l" and f1: "crep (nodes s1) z fs" by auto
  have y1: "cell (nodes s1) y (cpar ?gs) yc NULL (ptr x)" using y s1(2) ne by (simp add: touched_frame)
  obtain s2 where s2: "set_right y (ptr (plug ms x)) s1 = Some s2" "touched s1 {y} s2"
      "rb_root s2 = rb_root s1" "cell (nodes s2) y (cpar ?gs) yc NULL (ptr (plug ms x))"
    using set_right_cell [OF y1] by blast
  from d have dj: "z \<noteq> y" "y \<notin> addrs (plug ms x)" "z \<notin> addrs (plug ms x)" "y \<notin> addrs l" "y \<notin> caddrs fs"
      "addrs l \<inter> addrs (plug ms x) = {}" "caddrs fs \<inter> addrs (plug ms x) = {}"
      "distinct (inorder (plug ms x))"
    by (auto simp: addrs_def caddrs_def inorder_plug frames_append)
  have m2: "rep (nodes s2) z (plug ms x)" using m1 s2(2) dj by (simp add: touched_frame)
  have "plug ms x \<noteq> Leaf" using addrs_plug [of ms x] Cons by (cases f) auto
  then have "ptr (plug ms x) \<noteq> NULL" using ptr_in_addrs rep_NULL [OF m2] by metis
  then obtain s3 where s3: "rb_set_parent (ptr (plug ms x)) y s2 = Some s3"
      "touched s2 (addrs (plug ms x)) s3" "rb_root s3 = rb_root s2" "rep (nodes s3) y (plug ms x)"
    using when_set_parent_rep [OF m2 dj(8) cell_aligned [OF y]] by (auto simp: when_nonnull_def)
  have "cpar (ms @ [InR l z c]) \<noteq> z" using Cons dj(3) addrs_plug [of ms x] by (cases f) auto
  then have "detach z y (cpar (ms @ [InR l z c])) s = Some s3"
    using s1(1) s2(1) s3(1) by (simp add: detach_def ld_cell [OF y] ld_cell [OF z1])
  moreover have "crep (nodes s3) z fs" "cell (nodes s3) z (cpar fs) c (ptr l) (ptr (plug ms x))"
      "rep (nodes s3) z l" "cell (nodes s3) y (cpar ?gs) yc NULL (ptr (plug ms x))"
    using f1 z1 l1 s2(2,4) s3(2) dj by (simp_all add: touched_frame)
  moreover have "touched s (addrs (plug fs (Node l z c (plug ms (Node Leaf y yc x))))) s3"
    using s1(2) s2(2) s3(2) by (auto simp: touched_def caddrs_def frames_append addrs_def inorder_plug)
  ultimately show ?thesis using s3 s2(3) s1(3) root by auto
qed

section \<open>Unlinking\<close>

locale rb_erasable = rb_augmented +
  assumes shrink_ok:
      "Q (plug fs (Node Leaf z c x)) d \<Longrightarrow> Q (plug fs x) d"
      "Q (plug fs (Node x z c Leaf)) d \<Longrightarrow> Q (plug fs x) d"
    and copy_ok:
      "represents s (plug fs (Node l y c (plug ms x))) \<Longrightarrow> before ms = [] \<Longrightarrow>
       Q (plug fs (Node l z c (plug ms (Node Leaf y yc x)))) (aug_data s) \<Longrightarrow>
       \<exists>d. call copy aug z y s = Some (s\<lparr>aug_data := d\<rparr>)
         \<and> Q (plug fs (Node l y c (plug ms x))) d"
    and propagate_ok:
      "represents s t \<Longrightarrow> Q t (aug_data s) \<Longrightarrow> a \<in> addrs t \<Longrightarrow>
       \<exists>d. call propagate aug a NULL s = Some (s\<lparr>aug_data := d\<rparr>) \<and> Q t d"

text \<open>What unlinking \<open>z\<close> leaves: a tree with \<open>x\<close> in the hole that lost a node of colour \<open>k\<close>.\<close>

definition unlinked :: "(rbt \<Rightarrow> 'a \<Rightarrow> bool) \<Rightarrow> 'a rb_state \<Rightarrow> rbt \<Rightarrow> addr \<Rightarrow>
    'a rb_state \<Rightarrow> frame list \<Rightarrow> color \<Rightarrow> rbt \<Rightarrow> bool" where
  "unlinked Q s t z s' gs k x \<longleftrightarrow> represents s' (plug gs x) \<and> Q (plug gs x) (aug_data s')
     \<and> inorder (plug gs x) = remove1 z (inorder t)
     \<and> dom (nodes s') = dom (nodes s) \<and> (\<forall>a. a \<notin> addrs t \<longrightarrow> nodes s' a = nodes s a)
     \<and> (rb_ok t \<longrightarrow> rb_sub x \<and> (k = Black \<longrightarrow> ctx_ok (Suc (bheight x)) gs)
          \<and> (k = Red \<longrightarrow> rb_ok (plug gs x)))"

lemma removal_ok:
  assumes "rb_ok (plug gs (Node Leaf y k x)) \<or> rb_ok (plug gs (Node x y k Leaf))"
  shows "rb_sub x" "k = Black \<Longrightarrow> ctx_ok (Suc (bheight x)) gs" "k = Red \<Longrightarrow> rb_ok (plug gs x)"
  using assms by (auto simp: rb_ok_plug fits_def split: if_splits)

lemma ctx_ok_readdress: "ctx_ok n (ms @ InR l z c # fs) = ctx_ok n (ms @ InR l y c # fs)"
proof (induction n ms rule: ctx_ok.induct)
  case (2 n a c' r ms)
  then show ?case by (cases ms) auto
next
  case (3 n l' a c' ms)
  then show ?case by (cases ms) auto
qed simp

lemma rb_ok_readdress: "rb_ok (plug (ms @ InR l z c # fs) t) = rb_ok (plug (ms @ InR l y c # fs) t)"
  by (cases ms) (auto simp: rb_ok_plug fits_def ctx_ok_readdress [of _ _ l z c fs y]
      simp del: append_Cons)

context rb_erasable
begin

lemma unlink_one:
  assumes T: "holds s (plug fs t)" and t: "t = Node Leaf z c x \<or> t = Node x z c Leaf"
  shows "\<exists>s'. rb_unlink aug z s = Some (ptr x, cpar fs, cpar fs, c = Black, s')
    \<and> unlinked Q s (plug fs t) z s' fs c x"
proof -
  from T t have cr: "crep (nodes s) z fs" and x: "rep (nodes s) z x"
    and d: "distinct (before fs @ inorder x @ after fs)" "z \<notin> set (before fs @ inorder x @ after fs)"
    and root: "rb_root s = ptr (plug fs t)"
    by (auto simp: represents_plug)
  from T t obtain zl zr where z: "cell (nodes s) z (cpar fs) c zl zr"
    and lr: "zl = NULL \<and> zr = ptr x \<or> zl = ptr x \<and> zr = NULL"
    by (elim disjE) (simp_all add: represents_plug, blast+)
  obtain s' where s': "transplant z (ptr x) s = Some s'" "touched s (caddrs fs \<union> addrs x) s'"
      "rb_root s' = (if fs = [] then ptr x else rb_root s)" "crep (nodes s') (ptr x) fs"
      "rep (nodes s') (cpar fs) x"
    using transplant_tree [OF cr z x _ d(1)] d(2) by (auto simp: caddrs_def)
  have "rb_unlink aug z s = Some (ptr x, cpar fs, cpar fs, c = Black, s')"
    using s'(1) lr by (auto simp: rb_unlink_def ld_cell [OF z])
  moreover have "represents s' (plug fs x)"
    using s' root d(1) by (auto simp: represents_plug ptr_plug)
  moreover have "Q (plug fs x) (aug_data s')"
    using T t shrink_ok(1) [of fs z c x] shrink_ok(2) [of fs x z c] touched_aug [OF s'(2)] by fastforce
  moreover have "inorder (plug fs x) = remove1 z (inorder (plug fs t))"
    using t d(2) by (auto simp: inorder_plug remove1_append)
  moreover have "dom (nodes s') = dom (nodes s)" using s'(2) by (simp add: touched_def)
  moreover have "\<forall>a. a \<notin> addrs (plug fs t) \<longrightarrow> nodes s' a = nodes s a"
    using s'(2) t by (auto simp: touched_def addrs_plug)
  ultimately show ?thesis using removal_ok [of fs z c x] t by (auto simp: unlinked_def)
qed

lemma unlink_two:
  assumes T: "holds s (plug fs (Node l z c r))" and lr: "l \<noteq> Leaf" "r \<noteq> Leaf"
  shows "\<exists>s' gs k x. rb_unlink aug z s = Some (ptr x, cpar gs, cpar gs, k = Black, s')
    \<and> unlinked Q s (plug fs (Node l z c r)) z s' gs k x"
proof -
  obtain ms y k x where r: "r = plug ms (Node Leaf y k x)" and ms: "before ms = []"
    using split_min [OF lr(2)] by blast
  let ?gs = "\<lambda>a. ms @ InR l a c # fs"
  have T1: "represents s (plug fs (Node l z c (plug ms (Node Leaf y k x))))" using T r by simp
  then have z: "cell (nodes s) z (cpar fs) c (ptr l) (ptr r)" and rr: "rep (nodes s) z r"
    and rl: "rep (nodes s) z l" using r by (auto simp: represents_plug)
  have y: "cell (nodes s) y (cpar (?gs z)) k NULL (ptr x)"
    using represents_cell [of s "?gs z" Leaf y k x] T1 by (simp add: plug_append)
  have d: "distinct (before fs @ inorder (Node l z c (plug ms (Node Leaf y k x))) @ after fs)"
    using T1 by (simp only: represents_plug)
  have nn: "ptr l \<noteq> NULL" "ptr r \<noteq> NULL"
    using lr rep_NULL [OF rl] rep_NULL [OF rr] ptr_in_addrs by metis+
  obtain s1 zr q yl where s1: "detach z y (cpar (?gs z)) s = Some s1"
      "fs \<noteq> [] \<Longrightarrow> rb_root s1 = faddr (last fs)" "crep (nodes s1) z fs"
      "cell (nodes s1) z (cpar fs) c (ptr l) zr" "rep (nodes s1) z l"
      "cell (nodes s1) y q k yl (ptr (plug ms x))" "rep (nodes s1) y (plug ms x)"
      "touched s (addrs (plug fs (Node l z c r))) s1"
    using detach_rep [OF T1] r by (cases ms) auto
  have d1: "distinct (z # before fs @ inorder (Node l y c (plug ms x)) @ after fs)"
    using d ms by (auto simp: inorder_plug)
  obtain s2 where s2: "take_place z y s1 = Some s2" "represents s2 (plug fs (Node l y c (plug ms x)))"
      "touched s1 (insert y (caddrs fs \<union> addrs l)) s2"
    using take_place_rep [OF s1(2,3,4,5) lr(1) s1(6,7) d1] by blast
  have "aug_data s2 = aug_data s" using s1(8) s2(3) by (simp add: touched_def)
  with T r obtain a where a: "call copy aug z y s2 = Some (s2\<lparr>aug_data := a\<rparr>)"
      "Q (plug fs (Node l y c (plug ms x))) a"
    using copy_ok [OF s2(2) ms, of z k] by auto
  have "(if cpar (?gs z) = z then y else cpar (?gs z)) = cpar (?gs y)"
  proof (cases ms)
    case (Cons f ms')
    then have "faddr f \<noteq> z" using d by (cases f) (auto simp: inorder_plug)
    with Cons show ?thesis by simp
  qed simp
  moreover have "subtree_min (ptr r) s = Some y" using subtree_min_rep rr r ms by blast
  ultimately have "rb_unlink aug z s = Some (ptr x, cpar (?gs y), cpar (?gs y), k = Black, s2\<lparr>aug_data := a\<rparr>)"
    using nn s1(1) s2(1) a(1)
    by (simp add: rb_unlink_def ld_cell [OF z] ld_cell [OF y] Let_def)
  moreover have "unlinked Q s (plug fs (Node l z c r)) z (s2\<lparr>aug_data := a\<rparr>) (?gs y) k x"
    unfolding unlinked_def
  proof (intro conjI impI allI)
    show "represents (s2\<lparr>aug_data := a\<rparr>) (plug (?gs y) x)" "Q (plug (?gs y) x) (aug_data (s2\<lparr>aug_data := a\<rparr>))"
      using s2(2) a(2) by (simp_all add: plug_append represents_def)
    show "inorder (plug (?gs y) x) = remove1 z (inorder (plug fs (Node l z c r)))"
      using d ms by (auto simp: inorder_plug frames_append r remove1_append)
    show "dom (nodes (s2\<lparr>aug_data := a\<rparr>)) = dom (nodes s)"
      using s1(8) s2(3) by (simp add: touched_def)
    show "nodes (s2\<lparr>aug_data := a\<rparr>) b = nodes s b" if "b \<notin> addrs (plug fs (Node l z c r))" for b
      using that s1(8) s2(3) by (auto simp: touched_def addrs_plug r)
    assume ok: "rb_ok (plug fs (Node l z c r))"
    then have ok': "rb_ok (plug (?gs y) (Node Leaf y k x))"
      using rb_ok_readdress [of ms l z c fs _ y] by (simp add: plug_append r)
    show "rb_sub x" using removal_ok(1) ok' by blast
    show "ctx_ok (Suc (bheight x)) (?gs y)" if "k = Black" using removal_ok(2) ok' that by blast
    show "rb_ok (plug (?gs y) x)" if "k = Red" using removal_ok(3) ok' that by blast
  qed
  ultimately show ?thesis by blast
qed

lemma unlink_any:
  assumes T: "holds s (plug fs (Node l z c r))"
  shows "\<exists>s' gs k x. rb_unlink aug z s = Some (ptr x, cpar gs, cpar gs, k = Black, s')
    \<and> unlinked Q s (plug fs (Node l z c r)) z s' gs k x"
proof -
  consider "l = Leaf" | "r = Leaf" | "l \<noteq> Leaf" "r \<noteq> Leaf" by blast
  then show ?thesis
  proof cases
    case 1
    then have t: "Node l z c r = Node Leaf z c r \<or> Node l z c r = Node r z c Leaf" by simp
    show ?thesis using unlink_one [OF T t] by blast
  next
    case 2
    then have t: "Node l z c r = Node Leaf z c l \<or> Node l z c r = Node l z c Leaf" by simp
    show ?thesis using unlink_one [OF T t] by blast
  next
    case 3
    then show ?thesis by (rule unlink_two [OF T])
  qed
qed

lemma propagate_reaches:
  assumes "holds s t" and "a \<noteq> NULL \<Longrightarrow> a \<in> addrs t"
  shows "\<exists>s'. when_nonnull a (call propagate aug a NULL) s = Some s' \<and> reaches Q s t s' t"
proof (cases "a = NULL")
  case True
  then show ?thesis using assms(1) reaches_refl by (auto simp: when_nonnull_def)
next
  case False
  then obtain d where "call propagate aug a NULL s = Some (s\<lparr>aug_data := d\<rparr>)" "Q t d"
    using propagate_ok assms by blast
  with False assms(1) show ?thesis by (auto simp: when_nonnull_def reaches_def represents_def)
qed

text \<open>Erasing a node of a red-black tree returns, in a heap that holds a red-black tree of
  the other nodes in the same order.\<close>

theorem rb_erase_augmented_correct:
  assumes T: "holds s t" and z: "z \<in> addrs t" and ok: "rb_ok t"
  shows "\<exists>s' t'. rb_erase_augmented aug z s = Some s' \<and> holds s' t' \<and> rb_ok t'
    \<and> inorder t' = remove1 z (inorder t) \<and> dom (nodes s') = dom (nodes s)
    \<and> (\<forall>a. a \<notin> addrs t \<longrightarrow> nodes s' a = nodes s a)"
proof -
  have "\<exists>fs l c r. t = plug fs (Node l z c r)" using z
  proof (induction t)
    case (Node l a c r)
    consider "z = a" | "z \<in> addrs l" | "z \<in> addrs r" using Node.prems by auto
    then show ?case
    proof cases
      case 1
      then show ?thesis by (metis plug.simps(1))
    next
      case 2
      then obtain fs l' c' r' where "l = plug fs (Node l' z c' r')" using Node.IH by blast
      then have "Node l a c r = plug (fs @ [InL a c r]) (Node l' z c' r')" by (simp add: plug_append)
      then show ?thesis by blast
    next
      case 3
      then obtain fs l' c' r' where "r = plug fs (Node l' z c' r')" using Node.IH by blast
      then have "Node l a c r = plug (fs @ [InR l a c]) (Node l' z c' r')" by (simp add: plug_append)
      then show ?thesis by blast
    qed
  qed simp
  then obtain fs l c r where t: "t = plug fs (Node l z c r)" by blast
  obtain s1 gs k x where s1: "rb_unlink aug z s = Some (ptr x, cpar gs, cpar gs, k = Black, s1)"
    and u: "unlinked Q s t z s1 gs k x" using unlink_any T t by blast
  have T1: "holds s1 (plug gs x)" using u by (simp add: unlinked_def)
  have from_in: "cpar gs \<noteq> NULL \<Longrightarrow> cpar gs \<in> addrs (plug gs x)"
    using cpar_in_caddrs by (simp add: addrs_plug)
  obtain s2 where s2: "when_nonnull (cpar gs) (call propagate aug (cpar gs) NULL) s1 = Some s2"
      "reaches Q s1 (plug gs x) s2 (plug gs x)" using propagate_reaches [OF T1 from_in] by blast
  obtain s3 t' where s3: "(if k = Black then rb_erase_fixup aug (ptr x) (cpar gs) s2 else Some s2) = Some s3"
      "reaches Q s2 (plug gs x) s3 t'" "inorder t' = inorder (plug gs x)" "rb_ok t'"
  proof (cases k)
    case Red
    have "reaches Q s2 (plug gs x) s2 (plug gs x)"
      using reaches_holds [OF s2(2)] by (simp add: reaches_refl)
    with Red that [of s2 "plug gs x"] u ok show ?thesis by (simp add: unlinked_def)
  next
    case Black
    then have c: "ctx_ok (Suc (bheight x)) gs" and x: "rb_sub (paint Black x)"
      using u ok by (simp_all add: unlinked_def)
    obtain s3 where "rb_erase_fixup aug (ptr x) (cpar gs) s2 = Some s3"
        "reaches Q s2 (plug gs x) s3 (del_fix gs x)"
      using rb_erase_fixup_del_fix [OF reaches_holds [OF s2(2)] c] by blast
    with Black that [of s3 "del_fix gs x"] inorder_del_fix del_fix_ok [OF c x] show ?thesis by simp
  qed
  have "addrs t' = addrs (plug gs x)" using s3(3) by (simp add: addrs_def)
  with from_in have from_in': "cpar gs \<noteq> NULL \<Longrightarrow> cpar gs \<in> addrs t'" by simp
  obtain s4 where s4: "when_nonnull (cpar gs) (call propagate aug (cpar gs) NULL) s3 = Some s4"
      "reaches Q s3 t' s4 t'" using propagate_reaches [OF reaches_holds [OF s3(2)] from_in'] by blast
  have "rb_erase_augmented aug z s = Some s4"
    using s1 s2(1) s3(1) s4(1) by (simp add: rb_erase_augmented_def)
  moreover have "inorder t' = remove1 z (inorder t)" using s3(3) u by (simp add: unlinked_def)
  moreover have "addrs (plug gs x) \<subseteq> addrs t"
    using u by (simp add: unlinked_def addrs_def set_remove1_subset)
  then have "\<forall>a. a \<notin> addrs t \<longrightarrow> nodes s4 a = nodes s a"
    using u s2(2) s3(2) s4(2) unfolding unlinked_def reaches_def by (metis subsetD)
  moreover have "dom (nodes s4) = dom (nodes s)"
    using u s2(2) s3(2) s4(2) by (simp add: unlinked_def reaches_def)
  ultimately show ?thesis using reaches_holds [OF s4(2)] s3(4) by blast
qed

end

end
