(* ===== verification/Rbtree_Iter.thy ===== *)
theory Rbtree_Iter
  imports Rbtree_Unlink
begin

text \<open>
  Iteration and linking: the first and last node, the successor and predecessor, and the
  slot a new leaf is linked into.
\<close>

section \<open>Iteration\<close>

definition hd_or_NULL :: "addr list \<Rightarrow> addr" where
  "hd_or_NULL xs = (case xs of [] \<Rightarrow> NULL | a # _ \<Rightarrow> a)"

definition last_or_NULL :: "addr list \<Rightarrow> addr" where
  "last_or_NULL xs = hd_or_NULL (rev xs)"

lemma hd_or_NULL_simps [simp]: "hd_or_NULL [] = NULL" "hd_or_NULL (a # xs) = a"
  by (simp_all add: hd_or_NULL_def)

lemma subtree_min_first:
  assumes "rep (nodes s) q t" and "t \<noteq> Leaf"
  shows "subtree_min (ptr t) s = Some (hd_or_NULL (inorder t))"
proof -
  obtain ms y yc x where t: "t = plug ms (Node Leaf y yc x)" and ms: "before ms = []"
    using split_min [OF assms(2)] by blast
  then have "subtree_min (ptr t) s = Some y" using subtree_min_rep assms(1) by blast
  with t ms show ?thesis by (simp add: inorder_plug)
qed

lemma subtree_max_last:
  "rep (nodes s) q t \<Longrightarrow> t \<noteq> Leaf \<Longrightarrow> subtree_max (ptr t) s = Some (last_or_NULL (inorder t))"
proof (induction t arbitrary: q)
  case (Node l a c r)
  then have ca: "cell (nodes s) a q c (ptr l) (ptr r)" and r: "rep (nodes s) a r" by auto
  show ?case
  proof (cases r)
    case Leaf
    then show ?thesis using ca by (simp add: subtree_max.simps [of a] ld_cell last_or_NULL_def)
  next
    case r': (Node rl ra rc rr)
    then have "ptr r \<noteq> NULL" "inorder r \<noteq> []" using r by (auto dest: cell_NULL)
    moreover have "hd_or_NULL (rev (inorder r) @ xs) = hd_or_NULL (rev (inorder r))" for xs
      using \<open>inorder r \<noteq> []\<close> by (cases "rev (inorder r)") auto
    ultimately show ?thesis using Node.IH(2) [OF r] r'
      by (simp add: subtree_max.simps [of a] ld_cell [OF ca] last_or_NULL_def)
  qed
qed simp

lemma rb_first_rep: "represents s t \<Longrightarrow> rb_first s = Some (hd_or_NULL (inorder t))"
  using subtree_min_first [of s NULL t]
  by (cases t) (auto simp: represents_def rb_first_def dest: cell_NULL)

lemma rb_last_rep: "represents s t \<Longrightarrow> rb_last s = Some (last_or_NULL (inorder t))"
  using subtree_max_last [of s NULL t]
  by (cases t) (auto simp: represents_def rb_last_def last_or_NULL_def dest: cell_NULL)

lemma climb_right_rep:
  assumes "crep (nodes s) n fs" and "ld rb_parent n s = Some (cpar fs)"
    and "n \<noteq> NULL" and "n \<notin> caddrs fs" and "distinct (before fs @ after fs)"
  shows "climb_right n s = Some (hd_or_NULL (after fs))"
  using assms
proof (induction fs arbitrary: n)
  case Nil
  then show ?case by (simp add: climb_right.simps [of n])
next
  case (Cons f fs)
  show ?case
  proof (cases f)
    case (InL a c r)
    with Cons.prems have a: "cell (nodes s) a (cpar fs) c n (ptr r)" and "n \<notin> addrs r" by auto
    then have "ptr r \<noteq> n" using Cons.prems(3) ptr_neq by blast
    with InL Cons.prems(2) show ?thesis
      by (simp add: climb_right.simps [of n] ld_cell [OF a] cell_NULL [OF a])
  next
    case (InR l a c)
    with Cons.prems have a: "cell (nodes s) a (cpar fs) c (ptr l) n" and fs: "crep (nodes s) a fs"
      and d: "a \<notin> caddrs fs" "distinct (before fs @ after fs)" by (auto simp: caddrs_def)
    with InR Cons.prems(2) Cons.IH [OF fs ld_cell(1) [OF a] cell_NULL [OF a] d] show ?thesis
      by (simp add: climb_right.simps [of n] ld_cell [OF a] cell_NULL [OF a])
  qed
qed

lemma climb_left_rep:
  assumes "crep (nodes s) n fs" and "ld rb_parent n s = Some (cpar fs)"
    and "n \<noteq> NULL" and "n \<notin> caddrs fs" and "distinct (before fs @ after fs)"
  shows "climb_left n s = Some (last_or_NULL (before fs))"
  using assms
proof (induction fs arbitrary: n)
  case Nil
  then show ?case by (simp add: climb_left.simps [of n] last_or_NULL_def)
next
  case (Cons f fs)
  show ?case
  proof (cases f)
    case (InR l a c)
    with Cons.prems have a: "cell (nodes s) a (cpar fs) c (ptr l) n" and "n \<notin> addrs l" by auto
    then have "ptr l \<noteq> n" using Cons.prems(3) ptr_neq by blast
    with InR Cons.prems(2) show ?thesis
      by (simp add: climb_left.simps [of n] ld_cell [OF a] cell_NULL [OF a] last_or_NULL_def)
  next
    case (InL a c r)
    with Cons.prems have a: "cell (nodes s) a (cpar fs) c n (ptr r)" and fs: "crep (nodes s) a fs"
      and d: "a \<notin> caddrs fs" "distinct (before fs @ after fs)" by (auto simp: caddrs_def)
    with InL Cons.prems(2) Cons.IH [OF fs ld_cell(1) [OF a] cell_NULL [OF a] d] show ?thesis
      by (simp add: climb_left.simps [of n] ld_cell [OF a] cell_NULL [OF a])
  qed
qed

text \<open>A linked node is not the self-parented node that \<open>RB_CLEAR_NODE\<close> leaves.\<close>

lemma linked_not_clear:
  assumes "represents s (plug fs (Node l n c r))"
  shows "\<exists>pc. ld rb_parent_color n s = Some pc \<and> pc \<noteq> n"
proof -
  have ca: "cell (nodes s) n (cpar fs) c (ptr l) (ptr r)" using assms represents_cell by blast
  have "n \<notin> caddrs fs" using assms by (auto simp: represents_plug caddrs_def)
  then have "cpar fs \<noteq> n" using cell_NULL [OF ca] cpar_in_caddrs by metis
  from ca obtain m where "nodes s n = Some m" "rb_parent m = cpar fs" "aligned n"
    by (auto simp: cell_def)
  moreover have "x AND - 4 = x" if "aligned x" for x :: addr
    using set_parent_color_word(1) [OF that, of 0] by simp
  ultimately show ?thesis using \<open>cpar fs \<noteq> n\<close> by (auto simp: ld_def rb_parent_def)
qed

lemma rb_next_rep:
  assumes "represents s (plug fs (Node l n c r))"
  shows "rb_next n s = Some (hd_or_NULL (inorder r @ after fs))"
proof -
  have ca: "cell (nodes s) n (cpar fs) c (ptr l) (ptr r)" and cr: "crep (nodes s) n fs"
    and r: "rep (nodes s) n r" and d: "n \<notin> caddrs fs" "distinct (before fs @ after fs)"
    using assms by (auto simp: represents_plug caddrs_def)
  note up = climb_right_rep [OF cr ld_cell(1) [OF ca] cell_NULL [OF ca] d]
  from linked_not_clear [OF assms] obtain pc where "ld rb_parent_color n s = Some pc" "pc \<noteq> n"
    by blast
  moreover have "r \<noteq> Leaf \<Longrightarrow> ptr r \<noteq> NULL" "r \<noteq> Leaf \<Longrightarrow> inorder r \<noteq> []"
    using r by (cases r; auto dest: cell_NULL)+
  ultimately show ?thesis using up subtree_min_first [OF r]
    by (cases "r = Leaf"; cases "inorder r") (auto simp: rb_next_def ld_cell [OF ca])
qed

lemma rb_prev_rep:
  assumes "represents s (plug fs (Node l n c r))"
  shows "rb_prev n s = Some (last_or_NULL (before fs @ inorder l))"
proof -
  have ca: "cell (nodes s) n (cpar fs) c (ptr l) (ptr r)" and cr: "crep (nodes s) n fs"
    and l: "rep (nodes s) n l" and d: "n \<notin> caddrs fs" "distinct (before fs @ after fs)"
    using assms by (auto simp: represents_plug caddrs_def)
  note up = climb_left_rep [OF cr ld_cell(1) [OF ca] cell_NULL [OF ca] d]
  from linked_not_clear [OF assms] obtain pc where "ld rb_parent_color n s = Some pc" "pc \<noteq> n"
    by blast
  moreover have "l \<noteq> Leaf \<Longrightarrow> ptr l \<noteq> NULL" "l \<noteq> Leaf \<Longrightarrow> rev (inorder l) \<noteq> []"
    using l by (cases l; auto dest: cell_NULL)+
  ultimately show ?thesis using up subtree_max_last [OF l]
    by (cases "l = Leaf"; cases "rev (inorder l)")
      (auto simp: rb_prev_def ld_cell [OF ca] last_or_NULL_def)
qed

section \<open>Linking a new leaf\<close>

fun link_of :: "frame list \<Rightarrow> rb_link" where
  "link_of [] = Root_Link"
| "link_of (InL a c r # fs) = Left_Of a"
| "link_of (InR l a c # fs) = Right_Of a"

lemma rb_link_node_rep:
  assumes T: "represents s (plug fs Leaf)" and n: "nodes s n = Some v" "n \<noteq> NULL" "aligned n"
    and fresh: "n \<notin> caddrs fs"
  shows "\<exists>s'. rb_link_node n (cpar fs) (link_of fs) s = Some s'
    \<and> represents s' (plug fs (Node Leaf n Red Leaf)) \<and> touched s (insert n (caddrs fs)) s'"
proof -
  let ?s = "s\<lparr>nodes := (nodes s)(n \<mapsto> v\<lparr>rb_parent_color := cpar fs, rb_right := NULL, rb_left := NULL\<rparr>)\<rparr>"
  have c: "crep (nodes s) NULL fs" and root: "rb_root s = ptr (plug fs Leaf)"
    and d: "distinct (before fs @ after fs)" using T by (auto simp: represents_plug)
  have link: "rb_link_node n (cpar fs) (link_of fs) s = write_link (link_of fs) n ?s"
    using n(1) by (simp add: rb_link_node_def upd_def set_right_def set_left_def)
  have al: "aligned (cpar fs)" using c crep_aligned_cpar by blast
  have cn: "cell (nodes ?s) n (cpar fs) Red NULL NULL"
    using n al node_link [OF al, of v]
    by (auto simp: cell_def rb_parent_def rb_is_black_def rb_color_def)
  have c1: "crep (nodes ?s) NULL fs" using c fresh by (simp add: crep_frame)
  have "\<exists>s'. write_link (link_of fs) n ?s = Some s' \<and> touched ?s (caddrs fs) s'
      \<and> rb_root s' = (if fs = [] then n else rb_root s) \<and> crep (nodes s') n fs"
  proof (cases fs)
    case Nil
    then show ?thesis by (simp add: touched_def)
  next
    case (Cons f gs)
    show ?thesis
    proof (cases f)
      case (InL a c r)
      with Cons c1 have ca: "cell (nodes ?s) a (cpar gs) c NULL (ptr r)" by simp
      obtain s' where "set_left a n ?s = Some s'" "touched ?s {a} s'" "rb_root s' = rb_root ?s"
        "cell (nodes s') a (cpar gs) c n (ptr r)" using set_left_cell [OF ca] by blast
      moreover have "a \<notin> addrs r" "a \<notin> caddrs gs" using d Cons InL by (auto simp: addrs_def caddrs_def)
      ultimately show ?thesis using Cons InL c1 by (auto simp: touched_rep touched_crep intro: touched_mono)
    next
      case (InR l a c)
      with Cons c1 have ca: "cell (nodes ?s) a (cpar gs) c (ptr l) NULL" by simp
      obtain s' where "set_right a n ?s = Some s'" "touched ?s {a} s'" "rb_root s' = rb_root ?s"
        "cell (nodes s') a (cpar gs) c (ptr l) n" using set_right_cell [OF ca] by blast
      moreover have "a \<notin> addrs l" "a \<notin> caddrs gs" using d Cons InR by (auto simp: addrs_def caddrs_def)
      ultimately show ?thesis using Cons InR c1 by (auto simp: touched_rep touched_crep intro: touched_mono)
    qed
  qed
  then obtain s' where s': "write_link (link_of fs) n ?s = Some s'" "touched ?s (caddrs fs) s'"
      "rb_root s' = (if fs = [] then n else rb_root s)" "crep (nodes s') n fs" by blast
  have "cell (nodes s') n (cpar fs) Red NULL NULL" using cn s'(2) fresh touched_cell by metis
  then have "represents s' (plug fs (Node Leaf n Red Leaf))"
    using s'(3,4) root d fresh by (auto simp: represents_plug ptr_plug caddrs_def)
  moreover have "touched s (insert n (caddrs fs)) s'"
    using s'(2) n(1) by (auto simp: touched_def)
  ultimately show ?thesis using s'(1) link by simp
qed

end
