(* ===== verification/Rbtree_Correct.thy ===== *)
theory Rbtree_Correct
  imports Rbtree_Iter
begin

text \<open>
  The plain tree: without callbacks, the contract of the locales holds trivially, and the
  correctness of the library functions follows. The properties are stated on the heap:
  \<open>represents s t\<close> relates the pointers in \<open>s\<close> to the tree \<open>t\<close>, \<open>rb_ok\<close> is the red-black
  invariant, and \<open>inorder\<close> the order of the nodes.
\<close>

section \<open>Insertion and erasure under a contract\<close>

lemma plug_leaf_red:
  assumes "rb_ok (plug fs Leaf)"
  shows "ctx_ok (bheight (Node Leaf n Red Leaf)) fs" "fs \<noteq> [] \<Longrightarrow> fcolor (last fs) = Black"
  using assms ctx_ok_outer_black by (auto simp: rb_ok_plug)

context rb_augmented
begin

lemma rb_insert_correct:
  assumes T: "holds s (plug fs (Node Leaf n Red Leaf))" and ok: "rb_ok (plug fs Leaf)"
  shows "\<exists>s' t'. rb_insert aug n s = Some s' \<and> holds s' t' \<and> rb_ok t'
    \<and> inorder t' = before fs @ n # after fs \<and> dom (nodes s') = dom (nodes s)
    \<and> (\<forall>a. a \<notin> insert n (caddrs fs) \<longrightarrow> nodes s' a = nodes s a)"
proof -
  obtain s' where s': "rb_insert aug n s = Some s'"
      "reaches Q s (plug fs (Node Leaf n Red Leaf)) s' (ins_fix fs (Node Leaf n Red Leaf))"
    using rb_insert_ins_fix [OF T plug_leaf_red(2) [OF ok]] by blast
  moreover have "rb_ok (ins_fix fs (Node Leaf n Red Leaf))"
    by (rule ins_fix_ok) (use plug_leaf_red(1) [OF ok] in auto)
  ultimately show ?thesis
    by (auto simp: reaches_def addrs_plug inorder_ins_fix inorder_plug intro!: exI)
qed

end

section \<open>The tree without callbacks\<close>

lemma call_None: "call cb None p q s = Some (s\<lparr>aug_data := aug_data s\<rparr>)"
  by (simp add: call_def)

interpretation plain: rb_erasable None "\<lambda>_ d. d = d0" for d0 :: 'a
  by unfold_locales (use call_None in blast)+

text \<open>\<open>rb_insert_color\<close> follows \<open>rb_link_node\<close> in every caller.\<close>

definition rb_add :: "addr \<Rightarrow> addr \<Rightarrow> rb_link \<Rightarrow> 'a rb_state \<Rightarrow> 'a rb_state option" where
  "rb_add n parent link s = do { s \<leftarrow> rb_link_node n parent link s; rb_insert_color n s }"

definition fresh_node :: "'a rb_state \<Rightarrow> rbt \<Rightarrow> addr \<Rightarrow> bool" where
  "fresh_node s t n \<longleftrightarrow> n \<noteq> NULL \<and> aligned n \<and> nodes s n \<noteq> None \<and> n \<notin> addrs t"

definition same_outside :: "addr set \<Rightarrow> 'a rb_state \<Rightarrow> 'a rb_state \<Rightarrow> bool" where
  "same_outside S s s' \<longleftrightarrow> aug_data s' = aug_data s \<and> dom (nodes s') = dom (nodes s)
     \<and> (\<forall>a. a \<notin> S \<longrightarrow> nodes s' a = nodes s a)"

lemma rb_add_ok:
  assumes T: "represents s (plug fs Leaf)" and ok: "rb_ok (plug fs Leaf)"
    and fresh: "fresh_node s (plug fs Leaf) n"
  shows "\<exists>s' t'. rb_add n (cpar fs) (link_of fs) s = Some s' \<and> represents s' t' \<and> rb_ok t'
    \<and> inorder t' = before fs @ n # after fs \<and> same_outside (insert n (addrs (plug fs Leaf))) s s'"
proof -
  from fresh obtain v where n: "nodes s n = Some v" "n \<noteq> NULL" "aligned n" "n \<notin> caddrs fs"
    by (auto simp: fresh_node_def addrs_plug)
  obtain s1 where s1: "rb_link_node n (cpar fs) (link_of fs) s = Some s1"
      "represents s1 (plug fs (Node Leaf n Red Leaf))" "touched s (insert n (caddrs fs)) s1"
    using rb_link_node_rep [OF T n] by blast
  obtain s' t' where "rb_insert None n s1 = Some s'" "represents s' t' \<and> aug_data s' = aug_data s1"
      "rb_ok t'" "inorder t' = before fs @ n # after fs" "dom (nodes s') = dom (nodes s1)"
      "\<forall>a. a \<notin> insert n (caddrs fs) \<longrightarrow> nodes s' a = nodes s1 a"
    using plain.rb_insert_correct [OF conjI [OF s1(2) refl] ok] by blast
  with s1 show ?thesis
    by (auto simp: rb_add_def rb_insert_color_def touched_def same_outside_def addrs_plug)
qed

lemma rb_erase_ok:
  assumes "represents s t" and "rb_ok t" and "z \<in> addrs t"
  shows "\<exists>s' t'. rb_erase z s = Some s' \<and> represents s' t' \<and> rb_ok t'
    \<and> inorder t' = remove1 z (inorder t) \<and> same_outside (addrs t) s s'"
  using plain.rb_erase_augmented_correct [OF conjI [OF assms(1) refl] assms(3,2)]
  by (auto simp: rb_erase_def same_outside_def)

lemma rep_unique: "rep h p t \<Longrightarrow> rep h p' t' \<Longrightarrow> ptr t = ptr t' \<Longrightarrow> t = t'"
proof (induction t arbitrary: p p' t')
  case Leaf
  then show ?case by (cases t') (auto dest: cell_NULL)
next
  case (Node l a c r)
  then obtain l' c' r' where t': "t' = Node l' a c' r'" by (cases t') (auto dest: cell_NULL)
  with Node.prems have "ptr l = ptr l'" "ptr r = ptr r'" "(c = Black) = (c' = Black)"
    by (auto simp: cell_def)
  with Node t' show ?case by (cases c; cases c') auto
qed

lemma represents_unique: "represents s t \<Longrightarrow> represents s t' \<Longrightarrow> t = t'"
  unfolding represents_def by (metis rep_unique)

section \<open>A concrete heap\<close>

text \<open>Three nodes at 16, 32 and 48; the tree holds 16, black, with the red 32 on its right.\<close>

definition example_state :: "unit rb_state" where
  "example_state = \<lparr>nodes = (\<lambda>a.
       if a = 16 then Some \<lparr>rb_parent_color = 1, rb_right = 32, rb_left = 0\<rparr>
       else if a = 32 then Some \<lparr>rb_parent_color = 16, rb_right = 0, rb_left = 0\<rparr>
       else if a = 48 then Some \<lparr>rb_parent_color = 48, rb_right = 0, rb_left = 0\<rparr>
       else None), rb_root = 16, aug_data = ()\<rparr>"

definition example_slot :: "frame list" where
  "example_slot = [InR Leaf 32 Red, InR Leaf 16 Black]"

lemma example_facts:
  "represents example_state (plug example_slot Leaf)" "rb_ok (plug example_slot Leaf)"
  "fresh_node example_state (plug example_slot Leaf) 48" "32 \<in> addrs (plug example_slot Leaf)"
  by (simp_all add: example_state_def example_slot_def represents_def cell_def aligned_def
      rb_parent_def rb_is_black_def rb_color_def rb_ok_def fresh_node_def)

section \<open>Properties\<close>

text \<open>C4: \<open>rb_link_node\<close> followed by \<open>rb_insert_color\<close>, at the slot of a red-black tree that
  the caller found, returns, and the heap then holds a red-black tree with the new node
  between the nodes before and the nodes after that slot. No other node changes.\<close>

theorem rb_insert_correct_plain:
  assumes "represents s (plug fs Leaf)" and "rb_ok (plug fs Leaf)"
    and "fresh_node s (plug fs Leaf) n"
  shows "\<exists>s' t'. rb_add n (cpar fs) (link_of fs) s = Some s' \<and> represents s' t' \<and> rb_ok t'
    \<and> inorder t' = before fs @ n # after fs \<and> same_outside (insert n (addrs (plug fs Leaf))) s s'"
  using rb_add_ok [OF assms] .

theorem rb_insert_correct_plain_witness:
  "\<exists>s' t'. rb_add 48 32 (Right_Of 32) example_state = Some s' \<and> represents s' t' \<and> rb_ok t'
    \<and> inorder t' = [16, 32, 48] \<and> same_outside {48, 16, 32} example_state s'"
  using rb_insert_correct_plain [OF example_facts(1,2,3)]
  by (simp add: example_slot_def insert_commute)

text \<open>C3: \<open>rb_erase\<close> of any node of a red-black tree returns, and the heap then holds a
  red-black tree of the remaining nodes in the same order.\<close>

theorem rb_erase_correct_plain:
  assumes "represents s t" and "rb_ok t" and "z \<in> addrs t"
  shows "\<exists>s' t'. rb_erase z s = Some s' \<and> represents s' t' \<and> rb_ok t'
    \<and> inorder t' = remove1 z (inorder t) \<and> same_outside (addrs t) s s'"
  using rb_erase_ok [OF assms] .

theorem rb_erase_correct_plain_witness:
  "\<exists>s' t'. rb_erase 32 example_state = Some s' \<and> represents s' t' \<and> rb_ok t'
    \<and> inorder t' = [16] \<and> same_outside {16, 32} example_state s'"
  using rb_erase_correct_plain [OF example_facts(1,2,4)]
  by (simp add: example_slot_def insert_commute)

text \<open>The states a client reaches from an empty root by linking and erasing nodes.\<close>

inductive rb_reach :: "'a rb_state \<Rightarrow> bool" where
  empty: "rb_root s = NULL \<Longrightarrow> rb_reach s"
| add: "rb_reach s \<Longrightarrow> represents s (plug fs Leaf) \<Longrightarrow> fresh_node s (plug fs Leaf) n \<Longrightarrow>
    rb_add n (cpar fs) (link_of fs) s = Some s' \<Longrightarrow> rb_reach s'"
| del: "rb_reach s \<Longrightarrow> represents s t \<Longrightarrow> z \<in> addrs t \<Longrightarrow> rb_erase z s = Some s' \<Longrightarrow> rb_reach s'"

lemma rb_reach_ok: "rb_reach s \<Longrightarrow> \<exists>t. represents s t \<and> rb_ok t"
proof (induction rule: rb_reach.induct)
  case (empty s)
  then have "represents s Leaf \<and> rb_ok Leaf" by (simp add: represents_def rb_ok_def)
  then show ?case by blast
next
  case (add s fs n s')
  then have "rb_ok (plug fs Leaf)" using represents_unique by blast
  then show ?case using rb_add_ok add by fastforce
next
  case (del s t z s')
  then have "rb_ok t" using represents_unique by blast
  then show ?case using rb_erase_ok del by fastforce
qed

lemma height_bound:
  assumes "rb_ok t"
  shows "2 ^ height t \<le> (length (inorder t) + 1) ^ 2"
proof -
  have "height t \<le> 2 * bheight t" using height_le [of t] assms by (simp add: rb_ok_def)
  then have "(2::nat) ^ height t \<le> 2 ^ (2 * bheight t)" by (simp add: power_increasing)
  also have "\<dots> = (2 ^ bheight t) ^ 2" by (simp add: power_mult mult.commute)
  also have "\<dots> \<le> (length (inorder t) + 1) ^ 2"
    using size_ge [of t] assms by (simp add: rb_ok_def power_mono)
  finally show ?thesis .
qed

text \<open>C24: whatever sequence of insertions and erasures led to it, the heap holds a
  red-black tree, and its height is at most twice the logarithm of its size plus one.\<close>

theorem rb_reach_balanced:
  assumes "rb_reach s"
  shows "\<exists>t. represents s t \<and> rb_ok t \<and> 2 ^ height t \<le> (length (inorder t) + 1) ^ 2"
  using rb_reach_ok [OF assms] height_bound by blast


theorem rb_reach_balanced_witness:
  "\<exists>t. represents (\<lparr>nodes = (\<lambda>_. None), rb_root = NULL, aug_data = ()\<rparr>) t \<and> rb_ok t
    \<and> 2 ^ height t \<le> (length (inorder t) + 1) ^ 2"
  by (rule rb_reach_balanced, rule rb_reach.empty) simp

section \<open>Iteration\<close>

lemma plug_at:
  assumes "i < length (inorder t)"
  shows "\<exists>fs l c r. t = plug fs (Node l (inorder t ! i) c r)
    \<and> before fs @ inorder l = take i (inorder t) \<and> inorder r @ after fs = drop (Suc i) (inorder t)"
  using assms
proof (induction t arbitrary: i)
  case (Node l a c r)
  consider "i < length (inorder l)" | "i = length (inorder l)" | "length (inorder l) < i" by linarith
  then show ?case
  proof cases
    case 1
    then obtain fs l' c' r' where l: "l = plug fs (Node l' (inorder l ! i) c' r')"
        "before fs @ inorder l' = take i (inorder l)"
        "inorder r' @ after fs = drop (Suc i) (inorder l)" using Node.IH(1) by blast
    have "Node l a c r = plug (fs @ [InL a c r]) (Node l' (inorder (Node l a c r) ! i) c' r')"
      using l(1) 1 by (simp add: plug_append nth_append)
    moreover have "before (fs @ [InL a c r]) @ inorder l' = take i (inorder (Node l a c r))"
      "inorder r' @ after (fs @ [InL a c r]) = drop (Suc i) (inorder (Node l a c r))"
      using l(2,3) 1 by (simp_all add: frames_append)
    ultimately show ?thesis by blast
  next
    case 2
    then have "Node l a c r = plug [] (Node l (inorder (Node l a c r) ! i) c r)"
      "before [] @ inorder l = take i (inorder (Node l a c r))"
      "inorder r @ after [] = drop (Suc i) (inorder (Node l a c r))" by (simp_all add: nth_append)
    then show ?thesis by blast
  next
    case 3
    define j where "j = i - Suc (length (inorder l))"
    have j: "i = Suc (length (inorder l) + j)" "j < length (inorder r)"
      using 3 Node.prems by (simp_all add: j_def)
    then obtain fs l' c' r' where r: "r = plug fs (Node l' (inorder r ! j) c' r')"
        "before fs @ inorder l' = take j (inorder r)"
        "inorder r' @ after fs = drop (Suc j) (inorder r)" using Node.IH(2) by blast
    have "Node l a c r = plug (fs @ [InR l a c]) (Node l' (inorder (Node l a c r) ! i) c' r')"
      using r(1) j by (simp add: plug_append nth_append)
    moreover have "before (fs @ [InR l a c]) @ inorder l' = take i (inorder (Node l a c r))"
      "inorder r' @ after (fs @ [InR l a c]) = drop (Suc i) (inorder (Node l a c r))"
      using r(2,3) j by (simp_all add: frames_append)
    ultimately show ?thesis by blast
  qed
qed simp

lemma hd_or_NULL_drop: "hd_or_NULL (drop i xs) = (if i < length xs then xs ! i else NULL)"
  by (cases "i < length xs") (simp_all add: Cons_nth_drop_Suc [symmetric])

lemma last_or_NULL_take:
  "i \<le> length xs \<Longrightarrow> last_or_NULL (take i xs) = (if i = 0 then NULL else xs ! (i - 1))"
  by (cases i) (simp_all add: last_or_NULL_def take_Suc_conv_app_nth)

text \<open>C25: on a heap that holds a tree, \<open>rb_first\<close>, \<open>rb_last\<close>, \<open>rb_next\<close> and \<open>rb_prev\<close> return,
  and they walk the nodes in order in both directions: the first and last node, the
  neighbour of each node, and NULL at either end.\<close>

theorem rb_iteration_order:
  assumes "represents s t" and "i < length (inorder t)"
  shows "rb_first s = Some (inorder t ! 0)
    \<and> rb_last s = Some (inorder t ! (length (inorder t) - 1))
    \<and> rb_next (inorder t ! i) s
        = Some (if Suc i < length (inorder t) then inorder t ! Suc i else NULL)
    \<and> rb_prev (inorder t ! i) s = Some (if i = 0 then NULL else inorder t ! (i - 1))"
proof -
  obtain fs l c r where t: "t = plug fs (Node l (inorder t ! i) c r)"
      "before fs @ inorder l = take i (inorder t)" "inorder r @ after fs = drop (Suc i) (inorder t)"
    using plug_at [OF assms(2)] by blast
  have T: "represents s (plug fs (Node l (inorder t ! i) c r))" using assms(1) t(1) by simp
  have "rb_first s = Some (inorder t ! 0)"
    using rb_first_rep [OF assms(1)] hd_or_NULL_drop [of 0 "inorder t"] assms(2) by auto
  moreover have "rb_last s = Some (inorder t ! (length (inorder t) - 1))"
    using rb_last_rep [OF assms(1)] last_or_NULL_take [of "length (inorder t)" "inorder t"] assms(2)
    by auto
  moreover have "rb_next (inorder t ! i) s
      = Some (if Suc i < length (inorder t) then inorder t ! Suc i else NULL)"
    using rb_next_rep [OF T] t(3) by (simp add: hd_or_NULL_drop)
  moreover have "rb_prev (inorder t ! i) s = Some (if i = 0 then NULL else inorder t ! (i - 1))"
    using rb_prev_rep [OF T] t(2) assms(2) by (simp add: last_or_NULL_take)
  ultimately show ?thesis by blast
qed

theorem rb_iteration_order_witness:
  "rb_first example_state = Some 16 \<and> rb_last example_state = Some 32
    \<and> rb_next 16 example_state = Some 32 \<and> rb_prev 16 example_state = Some NULL"
  using rb_iteration_order [OF example_facts(1), of 0] by (simp add: example_slot_def)

section \<open>The cached leftmost node\<close>

definition cached_ok :: "'a rb_root_cached \<Rightarrow> rbt \<Rightarrow> bool" where
  "cached_ok c t \<longleftrightarrow> represents (rb_tree c) t \<and> rb_ok t \<and> rb_leftmost c = hd_or_NULL (inorder t)"

definition rb_add_cached ::
    "addr \<Rightarrow> addr \<Rightarrow> rb_link \<Rightarrow> bool \<Rightarrow> 'a rb_root_cached \<Rightarrow> 'a rb_root_cached option" where
  "rb_add_cached n parent link leftmost c = do {
     s \<leftarrow> rb_link_node n parent link (rb_tree c);
     rb_insert_color_cached n leftmost (c\<lparr>rb_tree := s\<rparr>)
   }"

lemma rb_add_cached_eq:
  "rb_add_cached n parent link leftmost c =
     map_option (\<lambda>s. c\<lparr>rb_leftmost := (if leftmost then n else rb_leftmost c), rb_tree := s\<rparr>)
       (rb_add n parent link (rb_tree c))"
  by (cases "rb_link_node n parent link (rb_tree c)")
    (auto simp: rb_add_cached_def rb_insert_color_cached_def rb_add_def rb_insert_color_def
      map_option_case split: option.split)

lemma rb_add_cached_ok:
  assumes "cached_ok c t" and "t = plug fs Leaf" and "fresh_node (rb_tree c) t n"
  shows "\<exists>c' t'. rb_add_cached n (cpar fs) (link_of fs) (before fs = []) c = Some c'
    \<and> cached_ok c' t' \<and> inorder t' = before fs @ n # after fs"
proof -
  have T: "represents (rb_tree c) (plug fs Leaf)" "rb_ok (plug fs Leaf)"
      "fresh_node (rb_tree c) (plug fs Leaf) n" "rb_leftmost c = hd_or_NULL (before fs @ after fs)"
    using assms by (auto simp: cached_ok_def inorder_plug)
  obtain s' t' where s': "rb_add n (cpar fs) (link_of fs) (rb_tree c) = Some s'" "represents s' t'"
      "rb_ok t'" "inorder t' = before fs @ n # after fs" using rb_add_ok [OF T(1-3)] by blast
  let ?c = "c\<lparr>rb_leftmost := (if before fs = [] then n else rb_leftmost c), rb_tree := s'\<rparr>"
  have "rb_add_cached n (cpar fs) (link_of fs) (before fs = []) c = Some ?c"
    using s'(1) by (simp add: rb_add_cached_eq)
  moreover have "cached_ok ?c t'" using s' T(4) by (cases "before fs") (auto simp: cached_ok_def)
  ultimately show ?thesis using s'(4) by blast
qed

lemma rb_erase_cached_ok:
  assumes c: "cached_ok c t" and z: "z \<in> addrs t"
  shows "\<exists>c' t'. rb_erase_cached z c = Some c' \<and> cached_ok c' t' \<and> inorder t' = remove1 z (inorder t)"
proof -
  from z obtain x xs where io: "inorder t = x # xs" by (cases "inorder t") (auto simp: addrs_def)
  have T: "represents (rb_tree c) t" "rb_ok t" "rb_leftmost c = x"
    using c io by (auto simp: cached_ok_def)
  obtain s' t' where s': "rb_erase z (rb_tree c) = Some s'" "represents s' t'" "rb_ok t'"
      "inorder t' = remove1 z (inorder t)" using rb_erase_ok [OF T(1,2) z] by blast
  have "\<exists>c'. rb_erase_cached z c = Some c' \<and> cached_ok c' t'"
  proof (cases "x = z")
    case True
    obtain fs l k r where t: "t = plug fs (Node l z k r)" "before fs @ inorder l = take 0 (inorder t)"
        "inorder r @ after fs = drop (Suc 0) (inorder t)"
      using plug_at [of 0 t] io True by auto
    then have "rb_next z (rb_tree c) = Some (hd_or_NULL xs)"
      using rb_next_rep [of "rb_tree c" fs l z k r] T(1) io by simp
    then show ?thesis using True T(3) s' io
      by (simp add: rb_erase_cached_def rb_erase_augmented_cached_def rb_erase_def cached_ok_def)
  next
    case False
    then show ?thesis using T(3) s' io
      by (simp add: rb_erase_cached_def rb_erase_augmented_cached_def rb_erase_def cached_ok_def)
  qed
  with s'(4) show ?thesis by blast
qed

text \<open>\<open>rb_leftmost\<close> stays the first node of the tree: under a cached insertion whose
  \<open>leftmost\<close> argument says whether the slot has no node before it, and under a cached
  erasure of any node.\<close>

theorem rb_cached_leftmost:
  assumes "cached_ok c (plug fs Leaf)" and "fresh_node (rb_tree c) (plug fs Leaf) n"
    and "z \<in> addrs (plug fs Leaf)"
  shows "(\<exists>c' t'. rb_add_cached n (cpar fs) (link_of fs) (before fs = []) c = Some c'
      \<and> represents (rb_tree c') t' \<and> rb_ok t' \<and> inorder t' = before fs @ n # after fs
      \<and> rb_first_cached c' = hd_or_NULL (inorder t'))
    \<and> (\<exists>c' t'. rb_erase_cached z c = Some c' \<and> represents (rb_tree c') t' \<and> rb_ok t'
      \<and> inorder t' = remove1 z (before fs @ after fs)
      \<and> rb_first_cached c' = hd_or_NULL (inorder t'))"
  using rb_add_cached_ok [OF assms(1) refl assms(2)] rb_erase_cached_ok [OF assms(1,3)]
  by (simp add: cached_ok_def rb_first_cached_def inorder_plug) blast

theorem rb_cached_leftmost_witness:
  "(\<exists>c' t'. rb_add_cached 48 32 (Right_Of 32) False \<lparr>rb_tree = example_state, rb_leftmost = 16\<rparr> = Some c'
      \<and> represents (rb_tree c') t' \<and> rb_ok t' \<and> inorder t' = [16, 32, 48]
      \<and> rb_first_cached c' = hd_or_NULL (inorder t'))
    \<and> (\<exists>c' t'. rb_erase_cached 16 \<lparr>rb_tree = example_state, rb_leftmost = 16\<rparr> = Some c'
      \<and> represents (rb_tree c') t' \<and> rb_ok t' \<and> inorder t' = [32]
      \<and> rb_first_cached c' = hd_or_NULL (inorder t'))"
proof -
  let ?c = "\<lparr>rb_tree = example_state, rb_leftmost = 16\<rparr>"
  have "cached_ok ?c (plug example_slot Leaf)"
    using example_facts(1,2) by (simp add: cached_ok_def example_slot_def)
  moreover have "fresh_node (rb_tree ?c) (plug example_slot Leaf) 48" using example_facts(3) by simp
  moreover have "16 \<in> addrs (plug example_slot Leaf)" by (simp add: example_slot_def)
  ultimately show ?thesis using rb_cached_leftmost [of ?c example_slot 48 16]
    by (simp add: example_slot_def)
qed

section \<open>Replacement\<close>

lemma rb_replace_node_rep:
  assumes T: "represents s (plug fs (Node l v c r))" and n: "fresh_node s (plug fs (Node l v c r)) n"
  shows "\<exists>s'. rb_replace_node v n s = Some s' \<and> represents s' (plug fs (Node l n c r))"
proof -
  have v: "cell (nodes s) v (cpar fs) c (ptr l) (ptr r)" and l: "rep (nodes s) v l"
    and r: "rep (nodes s) v r" and f: "crep (nodes s) v fs" and root: "rb_root s = ptr (plug fs (Node l v c r))"
    and d: "distinct (before fs @ inorder (Node l v c r) @ after fs)"
    using T unfolding represents_plug by auto
  from n obtain m where m: "nodes s n = Some m" and nn: "n \<noteq> NULL" "aligned n"
    by (auto simp: fresh_node_def)
  have ne: "n \<noteq> v" "n \<notin> addrs l" "n \<notin> addrs r" "n \<notin> caddrs fs" "v \<notin> addrs l" "v \<notin> addrs r"
      "v \<notin> caddrs fs" "addrs l \<inter> addrs r = {}" "addrs r \<inter> addrs l = {}"
      "caddrs fs \<inter> addrs l = {}" "caddrs fs \<inter> addrs r = {}"
      "addrs l \<inter> caddrs fs = {}" "addrs r \<inter> caddrs fs = {}"
    and d': "distinct (inorder l)" "distinct (inorder r)" "distinct (before fs @ after fs)"
    using d n by (auto simp: fresh_node_def addrs_def caddrs_def inorder_plug)
  from v obtain w where w: "nodes s v = Some w" "rb_parent w = cpar fs" "rb_is_black w = (c = Black)"
      "rb_left w = ptr l" "rb_right w = ptr r" by (auto simp: cell_def)
  define s0 where "s0 = s\<lparr>nodes := (nodes s)(n \<mapsto>
    m\<lparr>rb_parent_color := rb_parent_color w, rb_left := ptr l, rb_right := ptr r\<rparr>)\<rparr>"
  have t0: "touched s {n} s0" "rb_root s0 = rb_root s" by (auto simp: s0_def touched_def m)
  have n0: "cell (nodes s0) n (cpar fs) c (ptr l) (ptr r)"
    using nn w by (simp add: s0_def cell_def rb_parent_def rb_is_black_def rb_color_def)
  have v0: "cell (nodes s0) v (cpar fs) c (ptr l) (ptr r)" and l0: "rep (nodes s0) v l"
    using v l t0(1) ne by (simp_all add: touched_frame)
  obtain s1 where s1: "when_nonnull (ptr l) (rb_set_parent (ptr l) n) s0 = Some s1"
      "touched s0 (addrs l) s1" "rb_root s1 = rb_root s0" "rep (nodes s1) n l"
    using when_set_parent_rep [OF l0 d'(1) nn(2)] by blast
  have v1: "cell (nodes s1) v (cpar fs) c (ptr l) (ptr r)" and r1: "rep (nodes s1) v r"
    using v0 r t0(1) s1(2) ne by (simp_all add: touched_frame)
  obtain s2 where s2: "when_nonnull (ptr r) (rb_set_parent (ptr r) n) s1 = Some s2"
      "touched s1 (addrs r) s2" "rb_root s2 = rb_root s1" "rep (nodes s2) n r"
    using when_set_parent_rep [OF r1 d'(2) nn(2)] by blast
  have f2: "crep (nodes s2) v fs" using f t0(1) s1(2) s2(2) ne by (simp add: touched_frame)
  obtain s3 where s3: "(if cpar fs \<noteq> NULL
        then do { l \<leftarrow> ld rb_left (cpar fs) s2;
                  if l = v then set_left (cpar fs) n s2 else set_right (cpar fs) n s2 }
        else Some (s2\<lparr>rb_root := n\<rparr>)) = Some s3"
      "touched s2 (caddrs fs) s3" "rb_root s3 = (if fs = [] then n else rb_root s2)"
      "crep (nodes s3) n fs"
    using replace_child [OF f2 cell_NULL [OF v] ne(7) d'(3), of n] by blast
  have w': "nodes s v = Some w" "nodes s0 v = Some w" using w(1) ne(1) by (simp_all add: s0_def)
  have w1: "nodes s1 v = Some w" using s1(2) ne(5) w'(2) by (simp add: touched_def)
  have eq: "rb_replace_node v n s = Some s3"
    using s1(1) s2(1) s3(1) m w ne(1) w1
    by (cases "cpar fs = NULL") (simp_all add: rb_replace_node_def ld_def upd_def
        set_left_def set_right_def s0_def eq_commute [of v] cong: if_cong)
  have "rep (nodes s3) (cpar fs) (Node l n c r)"
    using n0 s1(2,4) s2(2,4) s3(2) ne by (simp add: touched_frame)
  moreover have "rb_root s3 = ptr (plug fs (Node l n c r))"
    using s3(3) s2(3) s1(3) t0(2) root by (simp add: ptr_plug)
  ultimately have "represents s3 (plug fs (Node l n c r))"
    using s3(4) d ne by (auto simp: represents_plug addrs_def caddrs_def)
  with eq show ?thesis by blast
qed

text \<open>\<open>rb_replace_node\<close> puts the new node exactly where the victim was: same neighbours,
  same colours, same shape.\<close>

theorem rb_replace_node_in_place:
  assumes "represents s (plug fs (Node l v c r))" and "rb_ok (plug fs (Node l v c r))"
    and "fresh_node s (plug fs (Node l v c r)) n"
  shows "\<exists>s'. rb_replace_node v n s = Some s' \<and> represents s' (plug fs (Node l n c r))
    \<and> rb_ok (plug fs (Node l n c r)) \<and> inorder (plug fs (Node l n c r)) = before fs @ inorder l @ n # inorder r @ after fs"
  using rb_replace_node_rep [OF assms(1,3)] assms(2) by (auto simp: rb_ok_plug fits_def inorder_plug)

theorem rb_replace_node_in_place_witness:
  "\<exists>s'. rb_replace_node 16 48 example_state = Some s'
    \<and> represents s' (Node Leaf 48 Black (Node Leaf 32 Red Leaf))"
  using rb_replace_node_in_place [of example_state "[]" Leaf 16 Black "Node Leaf 32 Red Leaf" 48]
    example_facts(1-3) by (auto simp: example_slot_def)

end
