(* ===== verification/Fair.thy ===== *)
theory Fair
  imports Rbtree_Correct "HOL-Library.Signed_Division"
begin

text \<open>
  The fair scheduling class (EEVDF): \<open>src/kernel/sched/fair.c\<close>, the entity of
  \<open>sched_entity.h\<close>, the run queue of \<open>rq.h\<close> and the tables of \<open>sched_prio.c\<close>.

  An entity is named by the address of its \<open>run_node\<close>, the first member of the struct, so
  \<open>se_of_node\<close> is the identity; the entities are the data embedded around the tree nodes,
  that is the \<open>aug_data\<close> of the run queue's tree. 64-bit quantities are words, signed ones
  included: arithmetic wraps and signed comparisons are \<open><s\<close>. Every operation runs under
  the run queue lock and is one state transformer; \<open>None\<close> is a bad dereference. The fields
  \<open>fifo_key\<close> and \<open>batch_hint\<close> are not read by this code.
\<close>

section \<open>Entities and weights\<close>

abbreviation (input) SCHED_IDLE :: int where "SCHED_IDLE \<equiv> 5"
abbreviation (input) NICE_0_WEIGHT :: u64 where "NICE_0_WEIGHT \<equiv> 1024"
abbreviation (input) WEIGHT_IDLEPRIO :: u64 where "WEIGHT_IDLEPRIO \<equiv> 3"
abbreviation (input) SCHED_BASE_SLICE_NS :: u64 where "SCHED_BASE_SLICE_NS \<equiv> 700000"
abbreviation (input) SCHED_MIN_PREEMPT_NS :: u64 where "SCHED_MIN_PREEMPT_NS \<equiv> 100000"
abbreviation (input) SCHED_HOUSEKEEPING_NS :: u64 where "SCHED_HOUSEKEEPING_NS \<equiv> 10000000"

record load_weight =
  weight :: u64
  inv_weight :: u32

record sched_entity =
  load :: load_weight
  vruntime :: u64
  vlag :: u64
  slice :: u64
  deadline :: u64
  se_min_vruntime :: u64
  on_rq :: bool
  policy :: int
  nice :: int
  exec_start :: u64
  sum_exec_runtime :: u64
  prev_sum_exec_runtime :: u64

type_synonym ents = "addr \<rightharpoonup> sched_entity"

definition sched_prio_to_weight :: "u64 list" where
  "sched_prio_to_weight =
    [88761, 71755, 56483, 46273, 36291, 29154, 23254, 18705, 14949, 11916,
     9548, 7620, 6100, 4904, 3906, 3121, 2501, 1991, 1586, 1277,
     1024, 820, 655, 526, 423, 335, 272, 215, 172, 137,
     110, 87, 70, 56, 45, 36, 29, 23, 18, 15]"

definition sched_prio_to_wmult :: "u32 list" where
  "sched_prio_to_wmult =
    [48388, 59856, 76040, 92818, 118348, 147320, 184698, 229616, 287308, 360437,
     449829, 563644, 704093, 875809, 1099582, 1376151, 1717300, 2157191, 2708050, 3363326,
     4194304, 5237765, 6557202, 8165337, 10153587, 12820798, 15790321, 19976592, 24970740, 31350126,
     39045157, 49367440, 61356676, 76695844, 95443717, 119304647, 148102320, 186737708, 238609294, 286331153]"

definition nice_to_index :: "int \<Rightarrow> nat" where
  "nice_to_index n = nat ((if n < -20 then -20 else if n > 19 then 19 else n) + 20)"

definition set_load_weight :: "sched_entity \<Rightarrow> int \<Rightarrow> sched_entity" where
  "set_load_weight se n =
     (if policy se = SCHED_IDLE
      then se\<lparr>load := \<lparr>weight = WEIGHT_IDLEPRIO, inv_weight = ucast ((4294967296 :: u64) div WEIGHT_IDLEPRIO)\<rparr>\<rparr>
      else se\<lparr>load := \<lparr>weight = sched_prio_to_weight ! nice_to_index n,
                       inv_weight = sched_prio_to_wmult ! nice_to_index n\<rparr>\<rparr>)"

definition vtime_before :: "u64 \<Rightarrow> u64 \<Rightarrow> bool" where
  "vtime_before a b \<longleftrightarrow> a - b <s 0"

definition vtime_min :: "u64 \<Rightarrow> u64 \<Rightarrow> u64" where
  "vtime_min a b = (if vtime_before a b then a else b)"

definition slice_of :: "sched_entity \<Rightarrow> u64" where
  "slice_of se = (if slice se \<noteq> 0 then slice se else SCHED_BASE_SLICE_NS)"

definition calc_delta_fair :: "u64 \<Rightarrow> sched_entity \<Rightarrow> u64" where
  "calc_delta_fair delta_exec se =
     (if weight (load se) = NICE_0_WEIGHT then delta_exec
      else (let p = (ucast delta_exec :: 128 word) * ucast NICE_0_WEIGHT
            in ucast (drop_bit 32 (p * ucast (inv_weight (load se))))))"

section \<open>The run queue\<close>

record cfs_rq =
  tasks_timeline :: "ents rb_root_cached"
  nr_running :: u32
  min_vruntime :: u64
  avg_vruntime :: u64
  avg_load :: u64
  curr :: addr
  fifo_seq :: u64

record rq =
  cfs :: cfs_rq
  clock :: u64
  clock_task :: u64

abbreviation timeline :: "cfs_rq \<Rightarrow> ents rb_state" where
  "timeline c \<equiv> rb_tree (tasks_timeline c)"

abbreviation ents :: "cfs_rq \<Rightarrow> ents" where
  "ents c \<equiv> aug_data (timeline c)"

definition set_ents :: "ents \<Rightarrow> cfs_rq \<Rightarrow> cfs_rq" where
  "set_ents e c = c\<lparr>tasks_timeline := (tasks_timeline c)\<lparr>rb_tree := (timeline c)\<lparr>aug_data := e\<rparr>\<rparr>\<rparr>"

definition se_upd :: "addr \<Rightarrow> (sched_entity \<Rightarrow> sched_entity) \<Rightarrow> cfs_rq \<Rightarrow> cfs_rq option" where
  "se_upd a f c = map_option (\<lambda>se. set_ents ((ents c)(a \<mapsto> f se)) c) (ents c a)"

section \<open>Virtual-time sums\<close>

definition entity_key :: "cfs_rq \<Rightarrow> sched_entity \<Rightarrow> u64" where
  "entity_key c se = vruntime se - min_vruntime c"

definition avg_vruntime_add :: "cfs_rq \<Rightarrow> sched_entity \<Rightarrow> cfs_rq" where
  "avg_vruntime_add c se =
     c\<lparr>avg_vruntime := avg_vruntime c + entity_key c se * weight (load se),
       avg_load := avg_load c + weight (load se)\<rparr>"

definition avg_vruntime_sub :: "cfs_rq \<Rightarrow> sched_entity \<Rightarrow> cfs_rq" where
  "avg_vruntime_sub c se =
     c\<lparr>avg_vruntime := avg_vruntime c - entity_key c se * weight (load se),
       avg_load := avg_load c - weight (load se)\<rparr>"

definition avg_vruntime_shift :: "cfs_rq \<Rightarrow> u64 \<Rightarrow> cfs_rq" where
  "avg_vruntime_shift c delta = c\<lparr>avg_vruntime := avg_vruntime c - avg_load c * delta\<rparr>"

text \<open>The sums with the contribution of a runnable \<open>curr\<close>, as \<open>avg_vruntime\<close> and
  \<open>vruntime_eligible\<close> compute them first.\<close>

definition sums_with_curr :: "cfs_rq \<Rightarrow> (u64 \<times> u64) option" where
  "sums_with_curr c =
     (if curr c = NULL then Some (avg_vruntime c, avg_load c)
      else do {
        se \<leftarrow> ents c (curr c);
        Some (if on_rq se
              then (avg_vruntime c + entity_key c se * weight (load se), avg_load c + weight (load se))
              else (avg_vruntime c, avg_load c)) })"

definition avg_vruntime_V :: "cfs_rq \<Rightarrow> u64 option" where
  "avg_vruntime_V c = do {
     (avg, ld) \<leftarrow> sums_with_curr c;
     if ld \<le>s 0 then Some (min_vruntime c)
     else (let avg = (if avg <s 0 then avg - (ld - 1) else avg)
           in Some (min_vruntime c + word_of_int (sint avg sdiv sint ld)))
   }"

definition vruntime_eligible :: "cfs_rq \<Rightarrow> u64 \<Rightarrow> bool option" where
  "vruntime_eligible c v = do {
     (avg, ld) \<leftarrow> sums_with_curr c;
     let key = v - min_vruntime c;
     Some (key * ld \<le>s avg)
   }"

definition entity_eligible :: "cfs_rq \<Rightarrow> addr \<Rightarrow> bool option" where
  "entity_eligible c a = do { se \<leftarrow> ents c a; vruntime_eligible c (vruntime se) }"

section \<open>The augment callbacks\<close>

definition child_min :: "ents \<Rightarrow> addr \<Rightarrow> u64 \<Rightarrow> u64 option" where
  "child_min e child m = (if child = NULL then Some m
     else map_option (\<lambda>se. vtime_min m (se_min_vruntime se)) (e child))"

definition node_min_vruntime :: "rb_heap \<Rightarrow> addr \<Rightarrow> ents \<Rightarrow> u64 option" where
  "node_min_vruntime h n e = do {
     nd \<leftarrow> h n;
     se \<leftarrow> e n;
     m \<leftarrow> child_min e (rb_left nd) (vruntime se);
     child_min e (rb_right nd) m
   }"

partial_function (option) mv_propagate :: "rb_heap \<Rightarrow> addr \<Rightarrow> addr \<Rightarrow> ents \<Rightarrow> ents option" where
  "mv_propagate h node stop e =
     (if node = stop then Some e
      else do {
        se \<leftarrow> e node;
        m \<leftarrow> node_min_vruntime h node e;
        if se_min_vruntime se = m then Some e
        else do {
          nd \<leftarrow> h node;
          mv_propagate h (rb_parent nd) stop (e(node \<mapsto> se\<lparr>se_min_vruntime := m\<rparr>)) } })"

definition mv_copy :: "rb_heap \<Rightarrow> addr \<Rightarrow> addr \<Rightarrow> ents \<Rightarrow> ents option" where
  "mv_copy h old newn e = do {
     so \<leftarrow> e old;
     sn \<leftarrow> e newn;
     Some (e(newn \<mapsto> sn\<lparr>se_min_vruntime := se_min_vruntime so\<rparr>))
   }"

definition mv_rotate :: "rb_heap \<Rightarrow> addr \<Rightarrow> addr \<Rightarrow> ents \<Rightarrow> ents option" where
  "mv_rotate h old newn e = do {
     e \<leftarrow> mv_copy h old newn e;
     m \<leftarrow> node_min_vruntime h old e;
     so \<leftarrow> e old;
     Some (e(old \<mapsto> so\<lparr>se_min_vruntime := m\<rparr>))
   }"

definition min_vruntime_cb :: "ents rb_aug" where
  "min_vruntime_cb = Some \<lparr>propagate = Some mv_propagate, copy = Some mv_copy, rotate = Some mv_rotate\<rparr>"

section \<open>The floor of the virtual time\<close>

definition pick_root_entity :: "cfs_rq \<Rightarrow> addr" where
  "pick_root_entity c = rb_root (timeline c)"

definition pick_first_entity :: "cfs_rq \<Rightarrow> addr" where
  "pick_first_entity c = rb_first_cached (tasks_timeline c)"

definition live_curr :: "cfs_rq \<Rightarrow> sched_entity option option" where
  "live_curr c = (if curr c = NULL then Some None
     else map_option (\<lambda>se. if on_rq se then Some se else None) (ents c (curr c)))"

definition update_min_vruntime :: "cfs_rq \<Rightarrow> cfs_rq option" where
  "update_min_vruntime c = do {
     cu \<leftarrow> live_curr c;
     root \<leftarrow> (if pick_root_entity c = NULL then Some None
              else map_option Some (ents c (pick_root_entity c)));
     let v = (case (cu, root) of
         (Some cse, Some r) \<Rightarrow> vtime_min (vruntime cse) (se_min_vruntime r)
       | (Some cse, None) \<Rightarrow> vruntime cse
       | (None, Some r) \<Rightarrow> se_min_vruntime r
       | (None, None) \<Rightarrow> min_vruntime c);
     let delta = v - min_vruntime c;
     Some (if 0 <s delta then (avg_vruntime_shift c delta)\<lparr>min_vruntime := v\<rparr> else c)
   }"

section \<open>Tree insertion and removal\<close>

definition deadline_less :: "sched_entity \<Rightarrow> sched_entity \<Rightarrow> bool" where
  "deadline_less a b = vtime_before (deadline a) (deadline b)"

text \<open>The descent to the empty slot: the link, its parent and the \<open>leftmost\<close> flag.\<close>

partial_function (option) enqueue_slot :: "ents rb_state \<Rightarrow> sched_entity \<Rightarrow> rb_link \<Rightarrow> addr \<Rightarrow>
    bool \<Rightarrow> (rb_link \<times> addr \<times> bool) option" where
  "enqueue_slot t se link parent leftmost = do {
     p \<leftarrow> read_link link t;
     if p = NULL then Some (link, parent, leftmost)
     else do {
       pse \<leftarrow> aug_data t p;
       if deadline_less se pse then enqueue_slot t se (Left_Of p) p leftmost
       else enqueue_slot t se (Right_Of p) p False } }"

definition enqueue_entity_tree :: "cfs_rq \<Rightarrow> addr \<Rightarrow> cfs_rq option" where
  "enqueue_entity_tree c a = do {
     se \<leftarrow> ents c a;
     let c = avg_vruntime_add c se;
     c \<leftarrow> se_upd a (\<lambda>se. se\<lparr>se_min_vruntime := vruntime se\<rparr>) c;
     (link, parent, leftmost) \<leftarrow> enqueue_slot (timeline c) se Root_Link NULL True;
     s \<leftarrow> rb_link_node a parent link (timeline c);
     t \<leftarrow> rb_insert_augmented_cached min_vruntime_cb a leftmost ((tasks_timeline c)\<lparr>rb_tree := s\<rparr>);
     Some (c\<lparr>tasks_timeline := t\<rparr>)
   }"

definition dequeue_entity_tree :: "cfs_rq \<Rightarrow> addr \<Rightarrow> cfs_rq option" where
  "dequeue_entity_tree c a = do {
     t \<leftarrow> rb_erase_augmented_cached min_vruntime_cb a (tasks_timeline c);
     let c = c\<lparr>tasks_timeline := t\<rparr>;
     se \<leftarrow> ents c a;
     Some (avg_vruntime_sub c se)
   }"

section \<open>Accounting, deadlines and placement\<close>

definition update_deadline :: "sched_entity \<Rightarrow> sched_entity" where
  "update_deadline se =
     (if vruntime se - deadline se <s 0 then se
      else (let se = se\<lparr>slice := slice_of se\<rparr>
            in se\<lparr>deadline := vruntime se + calc_delta_fair (slice se) se\<rparr>))"

text \<open>\<open>now\<close> is \<open>rq_of(cfs)->clock_task\<close>.\<close>

definition update_curr :: "u64 \<Rightarrow> cfs_rq \<Rightarrow> cfs_rq option" where
  "update_curr now c =
     (if curr c = NULL then Some c
      else do {
        cu \<leftarrow> ents c (curr c);
        if now \<le> exec_start cu then se_upd (curr c) (\<lambda>se. se\<lparr>exec_start := now\<rparr>) c
        else do {
          let delta = now - exec_start cu;
          c \<leftarrow> se_upd (curr c) (\<lambda>se. update_deadline (se\<lparr>exec_start := now,
                 sum_exec_runtime := sum_exec_runtime se + delta,
                 vruntime := vruntime se + calc_delta_fair delta se\<rparr>)) c;
          update_min_vruntime c } })"

text \<open>The bound on the lag of an entity, and the clamp to it.\<close>

definition lag_limit :: "sched_entity \<Rightarrow> u64" where
  "lag_limit se =
     (let twoslc = 2 * slice_of se;
          base = (if 10000000 < twoslc then twoslc else 10000000)
      in calc_delta_fair base se)"

definition clamp_lag :: "sched_entity \<Rightarrow> u64 \<Rightarrow> u64" where
  "clamp_lag se l =
     (let limit = lag_limit se;
          l = (if limit <s l then limit else l)
      in if l <s - limit then - limit else l)"

definition update_entity_lag :: "cfs_rq \<Rightarrow> addr \<Rightarrow> cfs_rq option" where
  "update_entity_lag c a = do {
     V \<leftarrow> avg_vruntime_V c;
     se_upd a (\<lambda>se. se\<lparr>vlag := clamp_lag se (V - vruntime se)\<rparr>) c
   }"

definition placed_lag :: "cfs_rq \<Rightarrow> sched_entity \<Rightarrow> u64 option" where
  "placed_lag c se =
     (if nr_running c \<noteq> 0 \<and> vlag se \<noteq> 0
      then do {
        let l = clamp_lag se (vlag se);
        cu \<leftarrow> live_curr c;
        let W = avg_load c + (case cu of None \<Rightarrow> 0 | Some cse \<Rightarrow> weight (load cse));
        let W = (if W <s 1 then 1 else W);
        Some (word_of_int (sint (l * (W + weight (load se))) sdiv sint W)) }
      else Some 0)"

definition place_entity :: "cfs_rq \<Rightarrow> addr \<Rightarrow> bool \<Rightarrow> cfs_rq option" where
  "place_entity c a initial = do {
     V \<leftarrow> avg_vruntime_V c;
     se \<leftarrow> ents c a;
     let vslice = calc_delta_fair (slice_of se) se;
     lag \<leftarrow> placed_lag c se;
     let vslice = (if initial then vslice div 2 else vslice);
     se_upd a (\<lambda>se. se\<lparr>vruntime := V - lag, deadline := V - lag + vslice, vlag := 0\<rparr>) c
   }"

section \<open>Picking\<close>

partial_function (option) eevdf_search :: "cfs_rq \<Rightarrow> addr \<Rightarrow> addr option" where
  "eevdf_search c node =
     (if node = NULL then Some NULL
      else do {
        left \<leftarrow> ld rb_left node (timeline c);
        lel \<leftarrow> (if left = NULL then Some False
                else do { lse \<leftarrow> ents c left; vruntime_eligible c (se_min_vruntime lse) });
        if lel then eevdf_search c left
        else do {
          el \<leftarrow> entity_eligible c node;
          if el then Some node
          else do { right \<leftarrow> ld rb_right node (timeline c); eevdf_search c right } } })"

definition pick_eevdf :: "cfs_rq \<Rightarrow> addr option" where
  "pick_eevdf c = do {
     let first = pick_first_entity c;
     cu \<leftarrow> live_curr c;
     if nr_running c = 1 then Some (if cu \<noteq> None then curr c else first)
     else do {
       cel \<leftarrow> (if cu = None then Some False else entity_eligible c (curr c));
       let cur = (if cel then curr c else NULL);
       fel \<leftarrow> (if first = NULL then Some False else entity_eligible c first);
       best \<leftarrow> (if fel then Some first else eevdf_search c (rb_root (timeline c)));
       better \<leftarrow> (if best = NULL then Some True
                  else if cur = NULL then Some False
                  else do { cse \<leftarrow> ents c cur; bse \<leftarrow> ents c best;
                            Some (vtime_before (deadline cse) (deadline bse)) });
       let best = (if better then cur else best);
       Some (if best = NULL then first else best) } }"

section \<open>Class hooks\<close>

definition enqueue_entity :: "u64 \<Rightarrow> cfs_rq \<Rightarrow> addr \<Rightarrow> cfs_rq option" where
  "enqueue_entity now c a = do {
     c \<leftarrow> update_curr now c;
     c \<leftarrow> se_upd a (\<lambda>se. set_load_weight se (nice se)) c;
     se \<leftarrow> ents c a;
     c \<leftarrow> place_entity c a (sum_exec_runtime se = 0);
     c \<leftarrow> enqueue_entity_tree c a;
     c \<leftarrow> se_upd a (\<lambda>se. se\<lparr>on_rq := True\<rparr>) c;
     Some (c\<lparr>nr_running := nr_running c + 1\<rparr>)
   }"

definition dequeue_entity :: "u64 \<Rightarrow> cfs_rq \<Rightarrow> addr \<Rightarrow> cfs_rq option" where
  "dequeue_entity now c a = do {
     c \<leftarrow> update_curr now c;
     c \<leftarrow> update_entity_lag c a;
     c \<leftarrow> (if a = curr c then Some (c\<lparr>curr := NULL\<rparr>) else dequeue_entity_tree c a);
     c \<leftarrow> se_upd a (\<lambda>se. se\<lparr>on_rq := False\<rparr>) c;
     update_min_vruntime (c\<lparr>nr_running := nr_running c - 1\<rparr>)
   }"

definition set_next_entity :: "cfs_rq \<Rightarrow> addr \<Rightarrow> cfs_rq option" where
  "set_next_entity c a = do {
     se \<leftarrow> ents c a;
     c \<leftarrow> (if on_rq se \<and> a \<noteq> curr c then dequeue_entity_tree c a else Some c);
     c \<leftarrow> se_upd a (\<lambda>se. se\<lparr>prev_sum_exec_runtime := sum_exec_runtime se\<rparr>) c;
     Some (c\<lparr>curr := a\<rparr>)
   }"

definition put_prev_entity :: "u64 \<Rightarrow> cfs_rq \<Rightarrow> addr \<Rightarrow> cfs_rq option" where
  "put_prev_entity now c a = do {
     c \<leftarrow> update_curr now c;
     se \<leftarrow> ents c a;
     c \<leftarrow> (if on_rq se then enqueue_entity_tree c a else Some c);
     Some (if curr c = a then c\<lparr>curr := NULL\<rparr> else c)
   }"

text \<open>The structs are reset in place: the memory of nodes and entities stays.\<close>

definition cfs_rq_init :: "cfs_rq \<Rightarrow> cfs_rq" where
  "cfs_rq_init c =
     c\<lparr>tasks_timeline := (tasks_timeline c)\<lparr>rb_tree := (timeline c)\<lparr>rb_root := NULL\<rparr>, rb_leftmost := NULL\<rparr>,
       nr_running := 0, min_vruntime := 0, avg_vruntime := 0, avg_load := 0, curr := NULL, fifo_seq := 0\<rparr>"

definition fair_enqueue :: "rq \<Rightarrow> addr \<Rightarrow> rq option" where
  "fair_enqueue r t = do {
     c \<leftarrow> enqueue_entity (clock_task r) (cfs r) t;
     Some (r\<lparr>cfs := c\<rparr>)
   }"

definition fair_pick :: "rq \<Rightarrow> (addr \<times> rq) option" where
  "fair_pick r = do {
     c \<leftarrow> update_curr (clock_task r) (cfs r);
     if nr_running c = 0 then Some (NULL, r\<lparr>cfs := c\<lparr>curr := NULL\<rparr>\<rparr>)
     else do {
       se \<leftarrow> pick_eevdf c;
       if se = NULL then Some (NULL, r\<lparr>cfs := c\<rparr>)
       else do {
         c \<leftarrow> (if se \<noteq> curr c then set_next_entity c se else Some c);
         c \<leftarrow> se_upd se (\<lambda>x. x\<lparr>exec_start := clock_task r\<rparr>) c;
         Some (se, r\<lparr>cfs := c\<rparr>) } }
   }"

definition fair_block_current :: "rq \<Rightarrow> addr \<Rightarrow> rq option" where
  "fair_block_current r prev = do {
     c \<leftarrow> dequeue_entity (clock_task r) (cfs r) prev;
     Some (r\<lparr>cfs := c\<rparr>)
   }"

definition fair_requeue_preempted :: "rq \<Rightarrow> addr \<Rightarrow> rq option" where
  "fair_requeue_preempted r prev = do {
     c \<leftarrow> put_prev_entity (clock_task r) (cfs r) prev;
     Some (r\<lparr>cfs := c\<rparr>)
   }"

text \<open>\<open>now\<close> is the value of the monotonic clock source.\<close>

definition rq_clock_update :: "u64 \<Rightarrow> rq \<Rightarrow> rq" where
  "rq_clock_update now r = r\<lparr>clock := now, clock_task := now\<rparr>"

definition fair_steal :: "u64 \<Rightarrow> rq \<Rightarrow> (addr \<times> rq) option" where
  "fair_steal now r =
     (let se = pick_first_entity (cfs r)
      in if se = NULL then Some (NULL, r)
         else do {
           let r = rq_clock_update now r;
           c \<leftarrow> dequeue_entity (clock_task r) (cfs r) se;
           Some (se, r\<lparr>cfs := c\<rparr>) })"

definition fair_accept_stolen :: "rq \<Rightarrow> addr \<Rightarrow> rq option" where
  "fair_accept_stolen r t = do {
     c \<leftarrow> enqueue_entity (clock_task r) (cfs r) t;
     Some (r\<lparr>cfs := c\<rparr>)
   }"

section \<open>Tick, renice, yield\<close>

definition fair_entity_tick :: "rq \<Rightarrow> (bool \<times> rq) option" where
  "fair_entity_tick r = do {
     c \<leftarrow> update_curr (clock_task r) (cfs r);
     let r = r\<lparr>cfs := c\<rparr>;
     if curr c = NULL \<or> nr_running c \<le> 1 then Some (False, r)
     else do {
       cu \<leftarrow> ents c (curr c);
       let ran = sum_exec_runtime cu - prev_sum_exec_runtime cu;
       if slice_of cu \<le> ran then Some (True, r)
       else if ran < SCHED_MIN_PREEMPT_NS then Some (False, r)
       else do {
         first \<leftarrow> pick_eevdf c;
         if first \<noteq> NULL \<and> first \<noteq> curr c
         then do { fse \<leftarrow> ents c first; Some (vtime_before (deadline fse) (deadline cu), r) }
         else Some (False, r) } } }"

definition sched_tick :: "u64 \<Rightarrow> rq \<Rightarrow> (bool \<times> rq) option" where
  "sched_tick now r = fair_entity_tick (rq_clock_update now r)"

definition fair_reweight_current :: "rq \<Rightarrow> int \<Rightarrow> int \<Rightarrow> u64 \<Rightarrow> rq option" where
  "fair_reweight_current r n pol slice_ns =
     (let a = curr (cfs r)
      in if a = NULL then Some r
         else do {
           c \<leftarrow> update_curr (clock_task r) (cfs r);
           c \<leftarrow> se_upd a (\<lambda>se.
             let se = se\<lparr>nice := n, policy := pol\<rparr>;
                 se = (if slice_ns \<noteq> -1 then se\<lparr>slice := slice_ns\<rparr> else se);
                 se = set_load_weight se n
             in se\<lparr>deadline := vruntime se + calc_delta_fair (slice_of se) se\<rparr>) c;
           Some (r\<lparr>cfs := c\<rparr>) })"

definition fair_yield_current :: "rq \<Rightarrow> rq option" where
  "fair_yield_current r =
     (let a = curr (cfs r)
      in if a = NULL then Some r
         else do {
           c \<leftarrow> update_curr (clock_task r) (cfs r);
           c \<leftarrow> se_upd a (\<lambda>se.
             let vslice = calc_delta_fair (slice_of se) se;
                 se = se\<lparr>vruntime := vruntime se + vslice\<rparr>
             in se\<lparr>deadline := vruntime se + vslice\<rparr>) c;
           c \<leftarrow> update_min_vruntime c;
           Some (r\<lparr>cfs := c\<rparr>) })"

definition fair_slice_remaining_ns :: "rq \<Rightarrow> u64 option" where
  "fair_slice_remaining_ns r =
     (let c = cfs r
      in if curr c = NULL \<or> nr_running c \<le> 1 then Some SCHED_HOUSEKEEPING_NS
         else do {
           cu \<leftarrow> ents c (curr c);
           let ran = sum_exec_runtime cu - prev_sum_exec_runtime cu;
           let sl = slice_of cu;
           Some (if sl \<le> ran then SCHED_MIN_PREEMPT_NS else sl - ran) })"

definition sched_slice_remaining_ns :: "u64 \<Rightarrow> rq \<Rightarrow> (u64 \<times> rq) option" where
  "sched_slice_remaining_ns now r =
     (let r = rq_clock_update now r
      in map_option (\<lambda>ns. (ns, r)) (fair_slice_remaining_ns r))"

text \<open>The loops evaluate by unfolding.\<close>

declare mv_propagate.simps [code] enqueue_slot.simps [code] eevdf_search.simps [code]

end
