(* ===== verification/Fair_Tree.thy ===== *)
theory Fair_Tree
  imports Fair
begin

text \<open>
  The augmented tree of a run queue. The callbacks of \<open>min_vruntime_cb\<close> meet the contracts
  of the tree library in two ways: they change nothing but the aggregates of nodes in the
  tree (enough for insertion and erasure to be memory safe and to keep everything else),
  and on a window of virtual time the insertion path keeps every aggregate equal to the
  minimum of its subtree.
\<close>

section \<open>Changing only the aggregates\<close>

definition own :: "sched_entity \<Rightarrow> sched_entity" where
  "own se = se\<lparr>se_min_vruntime := 0\<rparr>"

definition same_own :: "ents \<Rightarrow> ents \<Rightarrow> bool" where
  "same_own e e' \<longleftrightarrow> (\<forall>a. map_option own (e' a) = map_option own (e a))"

lemma own_upd [simp]: "own (se\<lparr>se_min_vruntime := m\<rparr>) = own se"
  by (simp add: own_def)

lemma same_own_refl [simp]: "same_own e e"
  by (simp add: same_own_def)

lemma same_own_trans: "same_own e e' \<Longrightarrow> same_own e' e'' \<Longrightarrow> same_own e e''"
  by (simp add: same_own_def)

lemma same_own_upd:
  "same_own e0 e \<Longrightarrow> e a = Some se \<Longrightarrow> same_own e0 (e(a \<mapsto> se\<lparr>se_min_vruntime := m\<rparr>))"
  by (simp add: same_own_def own_upd) (metis option.map(2))

lemma same_own_dom: "same_own e e' \<Longrightarrow> dom e' = dom e"
  by (auto simp: same_own_def dom_def) (metis map_option_eq_Some option.exhaust)+

lemma same_own_eq:
  assumes "same_own e e'" and "e a = Some se"
  shows "\<exists>m. e' a = Some (se\<lparr>se_min_vruntime := m\<rparr>)"
proof -
  from assms obtain se' where se': "e' a = Some se'" "own se' = own se"
    unfolding same_own_def by (metis map_option_eq_Some option.map(2))
  then have "se' = se\<lparr>se_min_vruntime := se_min_vruntime se'\<rparr>" by (cases se; cases se') (simp add: own_def)
  with se'(1) show ?thesis by metis
qed

definition keeps :: "ents \<Rightarrow> rbt \<Rightarrow> ents \<Rightarrow> bool" where
  "keeps e0 t e \<longleftrightarrow> same_own e0 e \<and> addrs t \<subseteq> dom e"

lemma keeps_addrs: "addrs t' \<subseteq> addrs t \<Longrightarrow> keeps e0 t e \<Longrightarrow> keeps e0 t' e"
  by (auto simp: keeps_def)

lemma keeps_upd:
  "keeps e0 t e \<Longrightarrow> e a = Some se \<Longrightarrow> keeps e0 t (e(a \<mapsto> se\<lparr>se_min_vruntime := m\<rparr>))"
  by (auto simp: keeps_def same_own_upd)

lemma keeps_get: "keeps e0 t e \<Longrightarrow> a \<in> addrs t \<Longrightarrow> \<exists>se. e a = Some se"
  by (auto simp: keeps_def)

lemma addrs_strip: "addrs (strip t) = addrs t"
  by (induction t) auto

section \<open>The callbacks on a represented tree\<close>

lemma child_min_get:
  assumes "ptr t = NULL \<or> (\<exists>se. e (ptr t) = Some se)"
  shows "\<exists>m'. child_min e (ptr t) m = Some m'"
  using assms by (auto simp: child_min_def)

lemma node_min_get:
  assumes c: "cell h a p c (ptr l) (ptr r)" and k: "keeps e0 t e"
    and sub: "insert a (addrs l \<union> addrs r) \<subseteq> addrs t"
  shows "\<exists>m. node_min_vruntime h a e = Some m"
proof -
  obtain se where se: "e a = Some se" using keeps_get [OF k] sub by blast
  have "ptr u = NULL \<or> (\<exists>x. e (ptr u) = Some x)" if "addrs u \<subseteq> addrs t" for u
    using keeps_get [OF k, of "ptr u"] that ptr_in_addrs [of u] by (cases "u = Leaf") auto
  then have "\<exists>m'. child_min e (ptr l) m = Some m'" "\<exists>m'. child_min e (ptr r) m = Some m'" for m
    using child_min_get sub by auto
  then obtain m1 m2 where "child_min e (ptr l) (vruntime se) = Some m1" "child_min e (ptr r) m1 = Some m2"
    by metis
  moreover from c obtain nd where "h a = Some nd" "rb_left nd = ptr l" "rb_right nd = ptr r"
    by (auto simp: cell_def)
  ultimately show ?thesis using se by (simp add: node_min_vruntime_def)
qed

lemma cell_parent: "cell h a p c l r \<Longrightarrow> \<exists>nd. h a = Some nd \<and> rb_parent nd = p"
  by (auto simp: cell_def)

lemma mv_propagate_keeps:
  assumes "rep (nodes s) NULL (plug fs (Node l a c r))" and "keeps e0 t e"
    and "addrs (plug fs (Node l a c r)) \<subseteq> addrs t"
  shows "\<exists>e'. mv_propagate (nodes s) a NULL e = Some e' \<and> keeps e0 t e'"
  using assms
proof (induction fs arbitrary: l a c r e)
  case Nil
  then have ca: "cell (nodes s) a NULL c (ptr l) (ptr r)" by simp
  from Nil(3) have "insert a (addrs l \<union> addrs r) \<subseteq> addrs t" by simp
  then obtain m where m: "node_min_vruntime (nodes s) a e = Some m" using node_min_get [OF ca Nil(2)] by blast
  obtain se where se: "e a = Some se" using keeps_get [OF Nil(2), of a] Nil(3) by (auto simp del: not_None_eq)
  obtain nd where "nodes s a = Some nd" "rb_parent nd = NULL" using cell_parent [OF ca] by blast
  then show ?case using m se Nil(2) keeps_upd [OF Nil(2) se]
    by (auto simp: mv_propagate.simps [of _ a] mv_propagate.simps [of _ NULL])
next
  case (Cons f fs)
  then have ca: "cell (nodes s) a (faddr f) c (ptr l) (ptr r)" by (cases f) (auto simp: rep_plug)
  have sub: "insert a (addrs l \<union> addrs r) \<subseteq> addrs t" using Cons(4) by (cases f) (auto simp: addrs_plug)
  obtain m where m: "node_min_vruntime (nodes s) a e = Some m" using node_min_get [OF ca Cons(3) sub] by blast
  obtain se where se: "e a = Some se" using keeps_get [OF Cons(3)] sub by blast
  let ?e = "e(a \<mapsto> se\<lparr>se_min_vruntime := m\<rparr>)"
  have k: "keeps e0 t ?e" by (rule keeps_upd [OF Cons(3) se])
  have up: "\<exists>e'. mv_propagate (nodes s) (faddr f) NULL ?e = Some e' \<and> keeps e0 t e'"
  proof (cases f)
    case (InL b cb rb)
    then have "rep (nodes s) NULL (plug fs (Node (Node l a c r) b cb rb))"
      "addrs (plug fs (Node (Node l a c r) b cb rb)) \<subseteq> addrs t" using Cons.prems(1,3) by simp_all
    then show ?thesis unfolding InL faddr.simps by (rule Cons.IH [OF _ k])
  next
    case (InR lb b cb)
    then have "rep (nodes s) NULL (plug fs (Node lb b cb (Node l a c r)))"
      "addrs (plug fs (Node lb b cb (Node l a c r))) \<subseteq> addrs t" using Cons.prems(1,3) by simp_all
    then show ?thesis unfolding InR faddr.simps by (rule Cons.IH [OF _ k])
  qed
  obtain nd where "nodes s a = Some nd" "rb_parent nd = faddr f" using cell_parent [OF ca] by blast
  then show ?case using m se up Cons(3) cell_NULL [OF ca]
    by (auto simp: mv_propagate.simps [of _ a])
qed

lemma plug_mem: "a \<in> addrs t \<Longrightarrow> \<exists>fs l c r. t = plug fs (Node l a c r)"
  using plug_at by (metis addrs_def in_set_conv_nth)

lemma mv_rotate_keeps:
  assumes x: "cell h x p c (ptr l) (ptr r)" and k: "keeps e0 t e"
    and sub: "insert x (addrs l \<union> addrs r) \<subseteq> addrs t" "y \<in> addrs t"
  shows "\<exists>e'. mv_rotate h x y e = Some e' \<and> keeps e0 t e'"
proof -
  obtain sx sy where xy: "e x = Some sx" "e y = Some sy"
    using keeps_get [OF k, of x] keeps_get [OF k sub(2)] sub(1) by auto
  define e1 where "e1 = e(y \<mapsto> sy\<lparr>se_min_vruntime := se_min_vruntime sx\<rparr>)"
  have k1: "keeps e0 t e1" unfolding e1_def by (rule keeps_upd [OF k xy(2)])
  have cp: "mv_copy h x y e = Some e1" using xy by (simp add: mv_copy_def e1_def)
  obtain m where m: "node_min_vruntime h x e1 = Some m" using node_min_get [OF x k1 sub(1)] by blast
  obtain sx1 where x1: "e1 x = Some sx1" using keeps_get [OF k1] sub(1) by blast
  have "mv_rotate h x y e = Some (e1(x \<mapsto> sx1\<lparr>se_min_vruntime := m\<rparr>))"
    using cp m x1 by (simp add: mv_rotate_def)
  then show ?thesis using keeps_upd [OF k1 x1, of m] by blast
qed

interpretation mv: rb_erasable min_vruntime_cb "keeps e0" for e0
proof
  show "keeps e0 t d = keeps e0 t' d" if "strip t = strip t'" for t t' d
    using that addrs_strip by (metis keeps_def)
  show "\<exists>d. call rotate min_vruntime_cb x y s = Some (s\<lparr>aug_data := d\<rparr>)
      \<and> keeps e0 (plug fs (Node (Node A x cx B) y cy C)) d"
    if "represents s (plug fs (Node (Node A x cx B) y cy C))"
      "keeps e0 (plug fs (Node A x cx (Node B y cy C))) (aug_data s)" for s fs A x cx B y cy C
  proof -
    let ?t = "plug fs (Node (Node A x cx B) y cy C)"
    have x: "cell (nodes s) x y cx (ptr A) (ptr B)" using that(1) by (auto simp: represents_plug)
    have k: "keeps e0 (plug fs (Node (Node A x cx B) y cy C)) (aug_data s)"
      by (rule keeps_addrs [OF _ that(2)]) (auto simp: addrs_plug)
    obtain e' where "mv_rotate (nodes s) x y (aug_data s) = Some e'" "keeps e0 ?t e'"
      using mv_rotate_keeps [OF x k, of y] by (auto simp: addrs_plug)
    then show ?thesis by (auto simp: call_def min_vruntime_cb_def)
  qed
  show "\<exists>d. call rotate min_vruntime_cb x y s = Some (s\<lparr>aug_data := d\<rparr>)
      \<and> keeps e0 (plug fs (Node C y cy (Node B x cx A))) d"
    if "represents s (plug fs (Node C y cy (Node B x cx A)))"
      "keeps e0 (plug fs (Node (Node C y cy B) x cx A)) (aug_data s)" for s fs A x cx B y cy C
  proof -
    let ?t = "plug fs (Node C y cy (Node B x cx A))"
    have x: "cell (nodes s) x y cx (ptr B) (ptr A)" using that(1) by (auto simp: represents_plug)
    have k: "keeps e0 (plug fs (Node C y cy (Node B x cx A))) (aug_data s)"
      by (rule keeps_addrs [OF _ that(2)]) (auto simp: addrs_plug)
    obtain e' where "mv_rotate (nodes s) x y (aug_data s) = Some e'" "keeps e0 ?t e'"
      using mv_rotate_keeps [OF x k, of y] by (auto simp: addrs_plug)
    then show ?thesis by (auto simp: call_def min_vruntime_cb_def)
  qed
  show "keeps e0 (plug fs x) d" if "keeps e0 (plug fs (Node Leaf z c x)) d" for fs z c x d
    by (rule keeps_addrs [OF _ that]) (auto simp: addrs_plug)
  show "keeps e0 (plug fs x) d" if "keeps e0 (plug fs (Node x z c Leaf)) d" for fs z c x d
    by (rule keeps_addrs [OF _ that]) (auto simp: addrs_plug)
  show "\<exists>d. call copy min_vruntime_cb z y s = Some (s\<lparr>aug_data := d\<rparr>)
      \<and> keeps e0 (plug fs (Node l y c (plug ms x))) d"
    if asm: "represents s (plug fs (Node l y c (plug ms x)))" "before ms = []"
      "keeps e0 (plug fs (Node l z c (plug ms (Node Leaf y yc x)))) (aug_data s)"
    for s fs l y c ms x z yc
  proof -
    obtain sz sy where e: "aug_data s z = Some sz" "aug_data s y = Some sy"
      using keeps_get [OF asm(3), of z] keeps_get [OF asm(3), of y] by (auto simp: addrs_plug)
    have "keeps e0 (plug fs (Node l y c (plug ms x))) (aug_data s)"
      by (rule keeps_addrs [OF _ asm(3)]) (auto simp: addrs_plug)
    then have "keeps e0 (plug fs (Node l y c (plug ms x)))
        ((aug_data s)(y \<mapsto> sy\<lparr>se_min_vruntime := se_min_vruntime sz\<rparr>))" by (rule keeps_upd) (rule e(2))
    moreover have "call copy min_vruntime_cb z y s
        = Some (s\<lparr>aug_data := (aug_data s)(y \<mapsto> sy\<lparr>se_min_vruntime := se_min_vruntime sz\<rparr>)\<rparr>)"
      using e by (simp add: call_def min_vruntime_cb_def mv_copy_def)
    ultimately show ?thesis by blast
  qed
  show "\<exists>d. call propagate min_vruntime_cb a NULL s = Some (s\<lparr>aug_data := d\<rparr>) \<and> keeps e0 t d"
    if asm: "represents s t" "keeps e0 t (aug_data s)" "a \<in> addrs t" for s t a
  proof -
    obtain fs l c r where t: "t = plug fs (Node l a c r)" using plug_mem [OF asm(3)] by blast
    then obtain e' where "mv_propagate (nodes s) a NULL (aug_data s) = Some e'" "keeps e0 t e'"
      using mv_propagate_keeps [of s fs l a c r e0 t "aug_data s"] asm(1,2)
      by (auto simp: represents_def)
    then show ?thesis by (auto simp: call_def min_vruntime_cb_def)
  qed
qed

end
