(* ===== verification/Fair_Min.thy ===== *)
theory Fair_Min
  imports Fair_Tree
begin

text \<open>
  The subtree minimum. Virtual times are compared wrap-safely; on a window of half the
  64-bit range, seen from some base, the comparison is the order of the distances from
  the base (\<open>vkey\<close>). There, insertion keeps every aggregate equal to the minimum of its
  subtree: \<open>agg\<close> is another instance of the contract \<open>rb_augmented\<close>.
\<close>

section \<open>Windows of virtual time\<close>

definition vkey :: "u64 \<Rightarrow> u64 \<Rightarrow> nat" where
  "vkey b v = unat (v - b)"

lemma vkey_inj: "vkey b x = vkey b y \<longleftrightarrow> x = y"
  by (simp add: vkey_def word_unat_eq_iff [symmetric])

lemma sint_of_int_range: "- (2 ^ 63) \<le> i \<Longrightarrow> i < 2 ^ 63 \<Longrightarrow> sint (word_of_int i :: u64) = i"
  by (simp add: sint_sbintrunc' signed_take_bit_int_eq_self)

lemma vtime_before_vkey:
  assumes "vkey b x < 2 ^ 63" and "vkey b y < 2 ^ 63"
  shows "vtime_before x y \<longleftrightarrow> vkey b x < vkey b y"
proof -
  have "x - y = word_of_int (int (vkey b x) - int (vkey b y))"
    unfolding vkey_def by (simp add: of_int_diff algebra_simps)
  then have "sint (x - y) = int (vkey b x) - int (vkey b y)"
    using sint_of_int_range [of "int (vkey b x) - int (vkey b y)"] assms by simp
  then show ?thesis by (simp add: vtime_before_def word_sless_alt)
qed

lemma vtime_min_vkey:
  assumes "vkey b x < 2 ^ 63" and "vkey b y < 2 ^ 63"
  shows "vkey b (vtime_min x y) = min (vkey b x) (vkey b y)"
  using vtime_before_vkey [OF assms] by (auto simp: vtime_min_def)

section \<open>Aggregates\<close>

definition vrk :: "u64 \<Rightarrow> ents \<Rightarrow> addr \<Rightarrow> nat" where
  "vrk b e a = (case e a of None \<Rightarrow> 2 ^ 63 | Some se \<Rightarrow> vkey b (vruntime se))"

fun kmin :: "u64 \<Rightarrow> ents \<Rightarrow> rbt \<Rightarrow> nat" where
  "kmin b e Leaf = 2 ^ 63"
| "kmin b e (Node l a c r) = min (vrk b e a) (min (kmin b e l) (kmin b e r))"

definition agg1 :: "u64 \<Rightarrow> ents \<Rightarrow> addr \<Rightarrow> nat \<Rightarrow> bool" where
  "agg1 b e a k \<longleftrightarrow> (\<exists>se. e a = Some se \<and> vkey b (vruntime se) < 2 ^ 63
     \<and> vkey b (se_min_vruntime se) = min (vkey b (vruntime se)) k)"

fun agg :: "u64 \<Rightarrow> ents \<Rightarrow> rbt \<Rightarrow> bool" where
  "agg b e Leaf = True"
| "agg b e (Node l a c r) \<longleftrightarrow> agg b e l \<and> agg b e r
     \<and> agg1 b e a (min (kmin b e l) (kmin b e r))"

text \<open>The aggregates around a hole whose minimum is \<open>k\<close>.\<close>

fun cagg :: "u64 \<Rightarrow> ents \<Rightarrow> nat \<Rightarrow> frame list \<Rightarrow> bool" where
  "cagg b e k [] = True"
| "cagg b e k (InL a c r # fs) \<longleftrightarrow> agg b e r \<and> agg1 b e a (min k (kmin b e r))
     \<and> cagg b e (min (vrk b e a) (min k (kmin b e r))) fs"
| "cagg b e k (InR l a c # fs) \<longleftrightarrow> agg b e l \<and> agg1 b e a (min (kmin b e l) k)
     \<and> cagg b e (min (vrk b e a) (min (kmin b e l) k)) fs"

lemma agg_plug: "agg b e (plug fs t) \<longleftrightarrow> agg b e t \<and> cagg b e (kmin b e t) fs"
proof (induction fs arbitrary: t)
  case (Cons f fs)
  then show ?case by (cases f) auto
qed simp

lemma vrk_cong: "e' a = e a \<Longrightarrow> vrk b e' a = vrk b e a"
  by (simp add: vrk_def)

lemma kmin_cong: "(\<And>a. a \<in> addrs t \<Longrightarrow> vrk b e' a = vrk b e a) \<Longrightarrow> kmin b e' t = kmin b e t"
  by (induction t) auto

lemma agg_cong: "(\<And>a. a \<in> addrs t \<Longrightarrow> e' a = e a) \<Longrightarrow> agg b e' t = agg b e t"
proof (induction t)
  case (Node l a c r)
  have "kmin b e' l = kmin b e l" "kmin b e' r = kmin b e r"
    using Node.prems by (auto intro!: kmin_cong vrk_cong)
  with Node show ?case by (simp add: agg1_def)
qed simp

lemma cagg_cong: "(\<And>a. a \<in> caddrs fs \<Longrightarrow> e' a = e a) \<Longrightarrow> cagg b e' k fs = cagg b e k fs"
proof (induction fs arbitrary: k)
  case (Cons f fs)
  show ?case
  proof (cases f)
    case (InL a c r)
    have "kmin b e' r = kmin b e r" "agg b e' r = agg b e r" "vrk b e' a = vrk b e a"
      using Cons.prems InL by (auto intro!: kmin_cong vrk_cong agg_cong)
    with Cons InL show ?thesis by (simp add: agg1_def)
  next
    case (InR l a c)
    have "kmin b e' l = kmin b e l" "agg b e' l = agg b e l" "vrk b e' a = vrk b e a"
      using Cons.prems InR by (auto intro!: kmin_cong vrk_cong agg_cong)
    with Cons InR show ?thesis by (simp add: agg1_def)
  qed
qed simp

lemma vrk_upd [simp]:
  "e a = Some se \<Longrightarrow> vrk b (e(a \<mapsto> se\<lparr>se_min_vruntime := m\<rparr>)) x = vrk b e x"
  by (simp add: vrk_def)

lemma kmin_upd [simp]:
  "e a = Some se \<Longrightarrow> kmin b (e(a \<mapsto> se\<lparr>se_min_vruntime := m\<rparr>)) t = kmin b e t"
  by (rule kmin_cong) simp

lemma agg_upd: "a \<notin> addrs t \<Longrightarrow> agg b (e(a \<mapsto> x)) t = agg b e t"
  by (rule agg_cong) auto

lemma cagg_upd: "a \<notin> caddrs fs \<Longrightarrow> cagg b (e(a \<mapsto> x)) k fs = cagg b e k fs"
  by (rule cagg_cong) auto

lemma kmin_le: "kmin b e t \<le> 2 ^ 63"
  by (induction t) auto

lemma agg_ptr:
  assumes "agg b e t" and "t \<noteq> Leaf"
  shows "\<exists>se. e (ptr t) = Some se \<and> vkey b (se_min_vruntime se) = kmin b e t \<and> kmin b e t < 2 ^ 63"
  using assms by (cases t) (auto simp: agg1_def vrk_def)

lemma child_min_agg:
  assumes "agg b e t" and "NULL \<notin> addrs t" and "vkey b m < 2 ^ 63"
  shows "\<exists>m'. child_min e (ptr t) m = Some m' \<and> vkey b m' = min (vkey b m) (kmin b e t)"
proof (cases "t = Leaf")
  case True
  with assms(3) show ?thesis by (simp add: child_min_def)
next
  case False
  then obtain se where "e (ptr t) = Some se" "vkey b (se_min_vruntime se) = kmin b e t" "kmin b e t < 2 ^ 63"
    using agg_ptr assms(1) by blast
  moreover have "ptr t \<noteq> NULL" using ptr_in_addrs [OF False] assms(2) by metis
  ultimately show ?thesis using vtime_min_vkey [OF assms(3), of "se_min_vruntime se"]
    by (simp add: child_min_def)
qed

lemma node_min_agg:
  assumes c: "cell h a p c (ptr l) (ptr r)" and se: "e a = Some se" "vkey b (vruntime se) < 2 ^ 63"
    and lr: "agg b e l" "agg b e r" "NULL \<notin> addrs l" "NULL \<notin> addrs r"
  shows "\<exists>m. node_min_vruntime h a e = Some m \<and> vkey b m = kmin b e (Node l a c r)"
proof -
  from c obtain nd where nd: "h a = Some nd" "rb_left nd = ptr l" "rb_right nd = ptr r"
    by (auto simp: cell_def)
  obtain m1 where m1: "child_min e (ptr l) (vruntime se) = Some m1"
      "vkey b m1 = min (vkey b (vruntime se)) (kmin b e l)"
    using child_min_agg [OF lr(1,3) se(2)] by blast
  then have "vkey b m1 < 2 ^ 63" using se(2) by simp
  then obtain m2 where "child_min e (ptr r) m1 = Some m2" "vkey b m2 = min (vkey b m1) (kmin b e r)"
    using child_min_agg [OF lr(2,4)] by blast
  with m1 nd se show ?thesis by (auto simp: node_min_vruntime_def vrk_def min.assoc)
qed

section \<open>Propagation repairs the path above a changed subtree\<close>

lemma agg1_I:
  "e a = Some (se\<lparr>se_min_vruntime := m\<rparr>) \<Longrightarrow> vkey b (vruntime se) < 2 ^ 63 \<Longrightarrow>
     vkey b m = min (vkey b (vruntime se)) k \<Longrightarrow> agg1 b e a k"
  by (simp add: agg1_def)

lemma agg1_upd:
  "vkey b (vruntime se) < 2 ^ 63 \<Longrightarrow> vkey b m = min (vkey b (vruntime se)) k \<Longrightarrow>
     agg1 b (e(a \<mapsto> se\<lparr>se_min_vruntime := m\<rparr>)) a k"
  by (simp add: agg1_def)

lemma mv_propagate_repairs:
  assumes "rep (nodes s) NULL (plug fs t)" and "distinct (inorder (plug fs t))"
    and "agg b e t" and "cagg b e k0 fs"
  shows "\<exists>e'. mv_propagate (nodes s) (cpar fs) NULL e = Some e' \<and> agg b e' (plug fs t) \<and> same_own e e'"
  using assms
proof (induction fs arbitrary: t e k0)
  case Nil
  then show ?case by (simp add: mv_propagate.simps [of _ 0])
next
  case (Cons f fs)
  define l r a c where "l = (case f of InL a c r \<Rightarrow> t | InR l a c \<Rightarrow> l)"
    and "r = (case f of InL a c r \<Rightarrow> r | InR l a c \<Rightarrow> t)" and "a = faddr f" and "c = fcolor f"
  define kl0 kr0 where "kl0 = (case f of InL a c r \<Rightarrow> k0 | InR l a c \<Rightarrow> kmin b e l)"
    and "kr0 = (case f of InL a c r \<Rightarrow> kmin b e r | InR l a c \<Rightarrow> k0)"
  have f: "plug1 f t = Node l a c r" by (cases f) (simp_all add: l_def r_def a_def c_def)
  have lr: "agg b e l" "agg b e r" and a1: "agg1 b e a (min kl0 kr0)"
    and up0: "cagg b e (min (vrk b e a) (min kl0 kr0)) fs"
    using Cons.prems(3,4) by (cases f; simp add: l_def r_def a_def kl0_def kr0_def)+
  from Cons.prems(1) f have T: "rep (nodes s) NULL (plug fs (Node l a c r))" by simp
  then have ca: "cell (nodes s) a (cpar fs) c (ptr l) (ptr r)"
    and nn: "NULL \<notin> addrs l" "NULL \<notin> addrs r" using rep_NULL by (auto simp: rep_plug)
  from a1 obtain se where se: "e a = Some se" "vkey b (vruntime se) < 2 ^ 63"
      "vkey b (se_min_vruntime se) = min (vkey b (vruntime se)) (min kl0 kr0)" by (auto simp: agg1_def)
  obtain m where m: "node_min_vruntime (nodes s) a e = Some m" "vkey b m = kmin b e (Node l a c r)"
    using node_min_agg [OF ca se(1,2) lr nn] by blast
  have vk: "vrk b e a = vkey b (vruntime se)" using se(1) by (simp add: vrk_def)
  from Cons.prems(2) f have d: "distinct (inorder (plug fs (Node l a c r)))" by simp
  then have fr: "a \<notin> addrs l" "a \<notin> addrs r" "a \<notin> caddrs fs"
    by (auto simp: inorder_plug addrs_def caddrs_def)
  have nn': "a \<noteq> NULL" using ca by (rule cell_NULL)
  show ?case
  proof (cases "se_min_vruntime se = m")
    case True
    then have k: "min (vrk b e a) (min kl0 kr0) = kmin b e (Node l a c r)" using se(3) m(2) vk by simp
    have "agg1 b e a (min (kmin b e l) (kmin b e r))"
      using se True m(2) vk by (auto simp: agg1_def)
    then have "agg b e (plug fs (Node l a c r))" using lr up0 k by (simp add: agg_plug)
    then show ?thesis using True m(1) se(1) nn' f
      by (auto simp: mv_propagate.simps [of _ a] a_def [symmetric])
  next
    case False
    let ?e = "e(a \<mapsto> se\<lparr>se_min_vruntime := m\<rparr>)"
    have "agg b ?e (Node l a c r)"
      using lr fr m(2) vk agg1_upd [OF se(2), of m _ e a] se(1) by (simp add: agg_upd)
    moreover have "cagg b ?e (min (vrk b e a) (min kl0 kr0)) fs" using up0 fr by (simp add: cagg_upd)
    ultimately obtain e' where e': "mv_propagate (nodes s) (cpar fs) NULL ?e = Some e'"
        "agg b e' (plug fs (Node l a c r))" "same_own ?e e'"
      using Cons.IH [OF T d] by blast
    have "same_own e ?e" by (rule same_own_upd) (simp_all add: se(1))
    then have "same_own e e'" using e'(3) by (rule same_own_trans)
    moreover obtain nd where "nodes s a = Some nd" "rb_parent nd = cpar fs" using cell_parent [OF ca] by blast
    ultimately show ?thesis using False m(1) se(1) nn' f e'
      by (auto simp: mv_propagate.simps [of _ a] a_def [symmetric])
  qed
qed

section \<open>Rotations keep the aggregates\<close>

definition agg_of :: "u64 \<Rightarrow> ents \<Rightarrow> rbt \<Rightarrow> ents \<Rightarrow> bool" where
  "agg_of b e0 t e \<longleftrightarrow> same_own e0 e \<and> agg b e t"

lemma kmin_strip: "kmin b e (strip t) = kmin b e t"
  by (induction t) auto

lemma agg_strip: "agg b e (strip t) = agg b e t"
  by (induction t) (auto simp: kmin_strip)

lemma same_own_vrk: "same_own e e' \<Longrightarrow> vrk b e' a = vrk b e a"
proof (cases "e a")
  case None
  assume "same_own e e'"
  then have "e' a = None" using None same_own_dom by (metis domIff)
  with None show ?thesis by (simp add: vrk_def)
next
  case (Some se)
  assume "same_own e e'"
  then obtain m where "e' a = Some (se\<lparr>se_min_vruntime := m\<rparr>)" using same_own_eq Some by blast
  with Some show ?thesis by (simp add: vrk_def)
qed

lemma mv_rotate_agg:
  assumes x: "cell h x y c (ptr l) (ptr r)" and lr: "agg b e l" "agg b e r" and w: "agg b e w"
    and nn: "NULL \<notin> addrs l" "NULL \<notin> addrs r"
    and fr: "x \<noteq> y" "x \<notin> addrs l" "y \<notin> addrs l" "x \<notin> addrs r" "y \<notin> addrs r" "x \<notin> addrs w" "y \<notin> addrs w"
    and ay: "agg1 b e y ky"
    and ax: "agg1 b e x (min (kmin b e l) (min (kmin b e r) (min (vrk b e y) (kmin b e w))))"
  shows "\<exists>e'. mv_rotate h x y e = Some e' \<and> same_own e e' \<and> (\<forall>a. a \<notin> {x, y} \<longrightarrow> e' a = e a)
    \<and> agg b e' (Node l x c r) \<and> agg1 b e' y (min (kmin b e' (Node l x c r)) (kmin b e' w)) \<and> agg b e' w"
proof -
  obtain sx where sx: "e x = Some sx" "vkey b (vruntime sx) < 2 ^ 63" "vkey b (se_min_vruntime sx)
      = min (vkey b (vruntime sx)) (min (kmin b e l) (min (kmin b e r) (min (vrk b e y) (kmin b e w))))"
    using ax by (auto simp: agg1_def)
  obtain sy where sy: "e y = Some sy" "vkey b (vruntime sy) < 2 ^ 63" using ay by (auto simp: agg1_def)
  define e1 where "e1 = e(y \<mapsto> sy\<lparr>se_min_vruntime := se_min_vruntime sx\<rparr>)"
  have e1: "mv_copy h x y e = Some e1" "e1 x = Some sx" using sx(1) sy(1) fr(1) by (simp_all add: mv_copy_def e1_def)
  have l1: "agg b e1 l" "agg b e1 r" "agg b e1 w" using lr w fr by (simp_all add: e1_def agg_upd)
  obtain m where m: "node_min_vruntime h x e1 = Some m" "vkey b m = kmin b e1 (Node l x c r)"
    using node_min_agg [OF x e1(2) sx(2) l1(1,2) nn] by blast
  define e2 where "e2 = e1(x \<mapsto> sx\<lparr>se_min_vruntime := m\<rparr>)"
  have k1: "kmin b e1 t = kmin b e t" for t using sy(1) by (simp add: e1_def)
  have k: "kmin b e2 t = kmin b e t" for t using e1(2) k1 by (simp add: e2_def)
  have vx: "vrk b e x = vkey b (vruntime sx)" "vrk b e y = vkey b (vruntime sy)" using sx(1) sy(1) by (simp_all add: vrk_def)
  have "agg1 b e2 x (min (kmin b e2 l) (kmin b e2 r))"
    unfolding e2_def by (rule agg1_upd [OF sx(2)])
      (use m(2) e1(2) sy(1) vx in \<open>simp add: vrk_def e1_def fr(1)\<close>)
  moreover have "agg b e2 l" "agg b e2 r" "agg b e2 w" using l1 fr by (simp_all add: e2_def agg_upd)
  moreover have y2: "e2 y = Some (sy\<lparr>se_min_vruntime := se_min_vruntime sx\<rparr>)"
    using fr(1) by (simp add: e2_def e1_def)
  have "vkey b (se_min_vruntime sx)
      = min (vkey b (vruntime sy)) (min (kmin b e (Node l x c r)) (kmin b e w))"
    unfolding sx(3) kmin.simps vx by (simp add: min.left_commute min.assoc min.commute)
  then have "agg1 b e2 y (min (kmin b e2 (Node l x c r)) (kmin b e2 w))"
    unfolding k by (intro agg1_I [where se = sy and m = "se_min_vruntime sx"] y2 sy(2))
  moreover have "mv_rotate h x y e = Some e2" using e1 m(1) by (simp add: mv_rotate_def e2_def)
  moreover have "same_own e e2"
    unfolding e2_def
  proof (rule same_own_upd)
    show "same_own e e1" unfolding e1_def by (rule same_own_upd) (simp_all add: sy(1))
  qed (rule e1(2))
  moreover have "\<forall>a. a \<notin> {x, y} \<longrightarrow> e2 a = e a" by (simp add: e1_def e2_def)
  ultimately show ?thesis unfolding agg.simps by blast
qed

lemma rotate_left_agg:
  assumes T: "represents s (plug fs (Node (Node A x cx B) y cy C))"
    and g: "agg b (aug_data s) (plug fs (Node A x cx (Node B y cy C)))"
  shows "\<exists>e'. mv_rotate (nodes s) x y (aug_data s) = Some e' \<and> same_own (aug_data s) e'
    \<and> agg b e' (plug fs (Node (Node A x cx B) y cy C))"
proof -
  let ?e = "aug_data s"
  have x: "cell (nodes s) x y cx (ptr A) (ptr B)" and rp: "rep (nodes s) x A" "rep (nodes s) x B"
    and d: "distinct (before fs @ inorder (Node (Node A x cx B) y cy C) @ after fs)"
    using T unfolding represents_plug by simp_all
  note nn = rp [THEN rep_NULL]
  from d have fr: "x \<noteq> y" "x \<notin> addrs A" "y \<notin> addrs A" "x \<notin> addrs B" "y \<notin> addrs B"
      "x \<notin> addrs C" "y \<notin> addrs C" and fs: "x \<notin> caddrs fs" "y \<notin> caddrs fs"
    by (auto simp: addrs_def caddrs_def)
  let ?k = "min (vrk b ?e x) (min (kmin b ?e A) (min (vrk b ?e y) (min (kmin b ?e B) (kmin b ?e C))))"
  have a: "agg b ?e A" "agg b ?e B" "agg b ?e C" "agg1 b ?e y (min (kmin b ?e B) (kmin b ?e C))"
      "cagg b ?e ?k fs"
    using g by (simp_all add: agg_plug)
  have "agg1 b ?e x (min (kmin b ?e A) (min (vrk b ?e y) (min (kmin b ?e B) (kmin b ?e C))))"
    using g by (simp add: agg_plug)
  then have ax: "agg1 b ?e x (min (kmin b ?e A) (min (kmin b ?e B) (min (vrk b ?e y) (kmin b ?e C))))"
    by (simp add: min.left_commute min.assoc min.commute)
  obtain e' where e': "mv_rotate (nodes s) x y ?e = Some e'" "same_own ?e e'" "\<forall>a. a \<notin> {x, y} \<longrightarrow> e' a = ?e a"
      "agg b e' (Node A x cx B)" "agg1 b e' y (min (kmin b e' (Node A x cx B)) (kmin b e' C))" "agg b e' C"
    using mv_rotate_agg [OF x a(1-3) nn fr a(4) ax] by blast
  have k: "kmin b e' t = kmin b ?e t" for t
    by (rule kmin_cong) (use same_own_vrk [OF e'(2)] in simp)
  have "kmin b e' (Node (Node A x cx B) y cy C) = ?k"
    unfolding k by (simp add: min.left_commute min.assoc min.commute)
  moreover have "cagg b e' ?k fs = cagg b ?e ?k fs"
    by (rule cagg_cong, rule e'(3) [rule_format]) (use fs in auto)
  ultimately have "agg b e' (plug fs (Node (Node A x cx B) y cy C))"
    using a(5) e'(4-6) by (simp only: agg_plug agg.simps simp_thms)
  with e'(1,2) show ?thesis by (intro exI conjI)
qed

lemma rotate_right_agg:
  assumes T: "represents s (plug fs (Node C y cy (Node B x cx A)))"
    and g: "agg b (aug_data s) (plug fs (Node (Node C y cy B) x cx A))"
  shows "\<exists>e'. mv_rotate (nodes s) x y (aug_data s) = Some e' \<and> same_own (aug_data s) e'
    \<and> agg b e' (plug fs (Node C y cy (Node B x cx A)))"
proof -
  let ?e = "aug_data s"
  have x: "cell (nodes s) x y cx (ptr B) (ptr A)" and rp: "rep (nodes s) x B" "rep (nodes s) x A"
    and d: "distinct (before fs @ inorder (Node C y cy (Node B x cx A)) @ after fs)"
    using T unfolding represents_plug by simp_all
  note nn = rp [THEN rep_NULL]
  from d have fr: "x \<noteq> y" "x \<notin> addrs B" "y \<notin> addrs B" "x \<notin> addrs A" "y \<notin> addrs A"
      "x \<notin> addrs C" "y \<notin> addrs C" and fs: "x \<notin> caddrs fs" "y \<notin> caddrs fs"
    by (auto simp: addrs_def caddrs_def)
  let ?k = "min (vrk b ?e x) (min (min (vrk b ?e y) (min (kmin b ?e C) (kmin b ?e B))) (kmin b ?e A))"
  have a: "agg b ?e B" "agg b ?e A" "agg b ?e C" "agg1 b ?e y (min (kmin b ?e C) (kmin b ?e B))"
      "cagg b ?e ?k fs" using g by (simp_all add: agg_plug)
  have "agg1 b ?e x (min (min (vrk b ?e y) (min (kmin b ?e C) (kmin b ?e B))) (kmin b ?e A))"
    using g by (simp add: agg_plug)
  then have ax: "agg1 b ?e x (min (kmin b ?e B) (min (kmin b ?e A) (min (vrk b ?e y) (kmin b ?e C))))"
    by (simp add: min.left_commute min.assoc min.commute)
  obtain e' where e': "mv_rotate (nodes s) x y ?e = Some e'" "same_own ?e e'" "\<forall>a. a \<notin> {x, y} \<longrightarrow> e' a = ?e a"
      "agg b e' (Node B x cx A)" "agg1 b e' y (min (kmin b e' (Node B x cx A)) (kmin b e' C))" "agg b e' C"
    using mv_rotate_agg [OF x a(1-3) nn fr a(4) ax] by blast
  have k: "kmin b e' t = kmin b ?e t" for t
    by (rule kmin_cong) (use same_own_vrk [OF e'(2)] in simp)
  have "kmin b e' (Node C y cy (Node B x cx A)) = ?k"
    unfolding k by (simp add: min.left_commute min.assoc min.commute)
  moreover have "cagg b e' ?k fs = cagg b ?e ?k fs"
    by (rule cagg_cong, rule e'(3) [rule_format]) (use fs in auto)
  moreover have "agg1 b e' y (min (kmin b e' C) (kmin b e' (Node B x cx A)))"
    using e'(5) by (simp add: min.commute)
  ultimately have "agg b e' (plug fs (Node C y cy (Node B x cx A)))"
    using a(5) e'(4,6) by (simp only: agg_plug agg.simps simp_thms)
  with e'(1,2) show ?thesis by (intro exI conjI)
qed

interpretation agg: rb_augmented min_vruntime_cb "agg_of b e0" for b e0
proof
  show "agg_of b e0 t d = agg_of b e0 t' d" if "strip t = strip t'" for t t' d
    using that agg_strip unfolding agg_of_def by metis
  show "\<exists>d. call rotate min_vruntime_cb x y s = Some (s\<lparr>aug_data := d\<rparr>)
      \<and> agg_of b e0 (plug fs (Node (Node A x cx B) y cy C)) d"
    if asm: "represents s (plug fs (Node (Node A x cx B) y cy C))"
      "agg_of b e0 (plug fs (Node A x cx (Node B y cy C))) (aug_data s)" for s fs A x cx B y cy C
  proof -
    obtain e' where "mv_rotate (nodes s) x y (aug_data s) = Some e'" "same_own (aug_data s) e'"
        "agg b e' (plug fs (Node (Node A x cx B) y cy C))"
      using rotate_left_agg [OF asm(1)] asm(2) unfolding agg_of_def by blast
    then show ?thesis using asm(2) same_own_trans [of e0 "aug_data s" e']
      by (auto simp: agg_of_def call_def min_vruntime_cb_def)
  qed
  show "\<exists>d. call rotate min_vruntime_cb x y s = Some (s\<lparr>aug_data := d\<rparr>)
      \<and> agg_of b e0 (plug fs (Node C y cy (Node B x cx A))) d"
    if asm: "represents s (plug fs (Node C y cy (Node B x cx A)))"
      "agg_of b e0 (plug fs (Node (Node C y cy B) x cx A)) (aug_data s)" for s fs A x cx B y cy C
  proof -
    obtain e' where "mv_rotate (nodes s) x y (aug_data s) = Some e'" "same_own (aug_data s) e'"
        "agg b e' (plug fs (Node C y cy (Node B x cx A)))"
      using rotate_right_agg [OF asm(1)] asm(2) unfolding agg_of_def by blast
    then show ?thesis using asm(2) same_own_trans [of e0 "aug_data s" e']
      by (auto simp: agg_of_def call_def min_vruntime_cb_def)
  qed
qed

end
