(* ===== verification/Fair_Queue.thy ===== *)
theory Fair_Queue
  imports Fair_Min
begin

text \<open>
  Entities in and out of the tree: the descent by deadline finds a slot in order, and
  \<open>__enqueue_entity\<close> and \<open>__dequeue_entity\<close> keep the tree, the cached first entity and the
  entities themselves.
\<close>

section \<open>The descent by deadline\<close>

lemma read_link_rep: "represents s (plug fs t) \<Longrightarrow> read_link (link_of fs) s = Some (ptr t)"
proof (cases fs)
  case Nil
  assume "represents s (plug fs t)"
  with Nil show ?thesis by (simp add: represents_def)
next
  case (Cons f gs)
  assume "represents s (plug fs t)"
  with Cons show ?thesis by (cases f) (auto simp: represents_plug ld_cell)
qed

definition splits :: "(addr \<Rightarrow> bool) \<Rightarrow> addr list \<Rightarrow> bool" where
  "splits lt = sorted_wrt (\<lambda>x y. lt x \<longrightarrow> lt y)"

lemma splits_mid:
  assumes "splits lt (ps @ (xs @ a # ys) @ qs)"
  shows "x \<in> set xs \<Longrightarrow> lt x \<Longrightarrow> lt a" "y \<in> set ys \<Longrightarrow> lt a \<Longrightarrow> lt y"
proof -
  have "sorted_wrt (\<lambda>x y. lt x \<longrightarrow> lt y) (xs @ a # ys)"
    using assms unfolding splits_def sorted_wrt_append [of _ ps] sorted_wrt_append [of _ _ qs] by blast
  then have "\<forall>x \<in> set xs. lt x \<longrightarrow> lt a" "\<forall>y \<in> set ys. lt a \<longrightarrow> lt y"
    unfolding sorted_wrt_append sorted_wrt.simps list.set by blast+
  then show "x \<in> set xs \<Longrightarrow> lt x \<Longrightarrow> lt a" "y \<in> set ys \<Longrightarrow> lt a \<Longrightarrow> lt y" by blast+
qed

definition slot_in_order :: "(addr \<Rightarrow> bool) \<Rightarrow> frame list \<Rightarrow> bool" where
  "slot_in_order lt gs \<longleftrightarrow> (\<forall>x \<in> set (before gs). \<not> lt x) \<and> (\<forall>x \<in> set (after gs). lt x)"

definition later :: "ents \<Rightarrow> sched_entity \<Rightarrow> addr \<Rightarrow> bool" where
  "later e se x \<longleftrightarrow> (\<exists>xe. e x = Some xe \<and> deadline_less se xe)"

lemma enqueue_slot_rep:
  assumes "represents s (plug fs t)" and "addrs t \<subseteq> dom (aug_data s)"
  shows "\<exists>gs. enqueue_slot s se (link_of fs) (cpar fs) (before fs = [])
      = Some (link_of gs, cpar gs, before gs = [])
    \<and> plug gs Leaf = plug fs t
    \<and> (splits (later (aug_data s) se) (inorder (plug fs t)) \<and> slot_in_order (later (aug_data s) se) fs
        \<longrightarrow> slot_in_order (later (aug_data s) se) gs)"
  using assms
proof (induction t arbitrary: fs)
  case Leaf
  have "enqueue_slot s se (link_of fs) (cpar fs) (before fs = []) = Some (link_of fs, cpar fs, before fs = [])"
    using read_link_rep [OF Leaf(1)] by (subst enqueue_slot.simps) simp
  then show ?case by blast
next
  case (Node l a c r)
  let ?lt = "later (aug_data s) se"
  obtain ae where ae: "aug_data s a = Some ae" using Node.prems(2) by auto
  have nn: "a \<noteq> NULL" using cell_NULL [OF represents_cell [OF Node.prems(1)]] .
  have link: "read_link (link_of fs) s = Some a" using read_link_rep [OF Node.prems(1)] by simp
  have sp: "\<forall>x \<in> set (inorder l). ?lt x \<longrightarrow> ?lt a" "\<forall>x \<in> set (inorder r). ?lt a \<longrightarrow> ?lt x"
    if "splits ?lt (inorder (plug fs (Node l a c r)))"
    using splits_mid [of ?lt "before fs" "inorder l" a "inorder r" "after fs"] that
    by (simp_all add: inorder_plug)
  show ?case
  proof (cases "deadline_less se ae")
    case True
    then have lt: "?lt a" using ae by (auto simp: later_def)
    have T: "represents s (plug (InL a c r # fs) l)" using Node.prems(1) by simp
    obtain gs where gs: "enqueue_slot s se (Left_Of a) a (before fs = [])
        = Some (link_of gs, cpar gs, before gs = [])" "plug gs Leaf = plug fs (Node l a c r)"
        "splits ?lt (inorder (plug fs (Node l a c r))) \<and> slot_in_order ?lt (InL a c r # fs) \<longrightarrow> slot_in_order ?lt gs"
      using Node.IH(1) [OF T] Node.prems(2) by auto
    have "enqueue_slot s se (link_of fs) (cpar fs) (before fs = []) = enqueue_slot s se (Left_Of a) a (before fs = [])"
      using link nn ae True by (subst enqueue_slot.simps) simp
    moreover have "slot_in_order ?lt (InL a c r # fs)"
      if "splits ?lt (inorder (plug fs (Node l a c r)))" "slot_in_order ?lt fs"
      using that(2) lt sp(2) [OF that(1)] by (auto simp: slot_in_order_def)
    ultimately show ?thesis using gs by metis
  next
    case False
    then have lt: "\<not> ?lt a" using ae by (auto simp: later_def)
    have T: "represents s (plug (InR l a c # fs) r)" using Node.prems(1) by simp
    obtain gs where gs: "enqueue_slot s se (Right_Of a) a False = Some (link_of gs, cpar gs, before gs = [])"
        "plug gs Leaf = plug fs (Node l a c r)"
        "splits ?lt (inorder (plug fs (Node l a c r))) \<and> slot_in_order ?lt (InR l a c # fs) \<longrightarrow> slot_in_order ?lt gs"
      using Node.IH(2) [OF T] Node.prems(2) by auto
    have "enqueue_slot s se (link_of fs) (cpar fs) (before fs = []) = enqueue_slot s se (Right_Of a) a False"
      using link nn ae False by (subst enqueue_slot.simps) simp
    moreover have "slot_in_order ?lt (InR l a c # fs)"
      if "splits ?lt (inorder (plug fs (Node l a c r)))" "slot_in_order ?lt fs"
      using that(2) lt sp(1) [OF that(1)] by (auto simp: slot_in_order_def)
    ultimately show ?thesis using gs by metis
  qed
qed

section \<open>The tree of a run queue\<close>

definition tree_ok :: "ents rb_root_cached \<Rightarrow> rbt \<Rightarrow> bool" where
  "tree_ok q t \<longleftrightarrow> cached_ok q t \<and> addrs t \<subseteq> dom (aug_data (rb_tree q))"

lemma rb_insert_augmented_ok:
  assumes T: "represents s (plug gs (Node Leaf a Red Leaf))" and ok: "rb_ok (plug gs Leaf)"
    and dom: "addrs (plug gs (Node Leaf a Red Leaf)) \<subseteq> dom (aug_data s)"
  shows "\<exists>s' t'. rb_insert_augmented min_vruntime_cb a s = Some s' \<and> represents s' t' \<and> rb_ok t'
    \<and> inorder t' = before gs @ a # after gs \<and> same_own (aug_data s) (aug_data s')
    \<and> dom (nodes s') = dom (nodes s) \<and> (\<forall>x. x \<notin> insert a (caddrs gs) \<longrightarrow> nodes s' x = nodes s x)
    \<and> (\<forall>b. agg b (aug_data s) (Node Leaf a Red Leaf) \<and> agg b (aug_data s) (plug gs Leaf) \<longrightarrow> agg b (aug_data s') t')"
proof -
  let ?t = "plug gs (Node Leaf a Red Leaf)" and ?e = "aug_data s"
  have par: "ld rb_parent a s = Some (cpar gs)" using represents_cell [OF T] by (rule ld_cell)
  have rp: "rep (nodes s) NULL ?t" "distinct (inorder ?t)" using T by (simp_all add: represents_def)
  have k: "keeps ?e ?t ?e" using dom by (simp add: keeps_def)
  have "\<exists>e1. mv_propagate (nodes s) (cpar gs) NULL ?e = Some e1 \<and> keeps ?e ?t e1"
  proof (cases gs)
    case Nil
    then show ?thesis using k by (simp add: mv_propagate.simps [of _ 0])
  next
    case (Cons f fs)
    then show ?thesis
      using mv_propagate_keeps [of s fs "Node Leaf a Red Leaf" "faddr f" "fcolor f" _ ?e ?t ?e]
        mv_propagate_keeps [of s fs _ "faddr f" "fcolor f" "Node Leaf a Red Leaf" ?e ?t ?e] rp(1) k
      by (cases f) auto
  qed
  then obtain e1 where e1: "mv_propagate (nodes s) (cpar gs) NULL ?e = Some e1" "keeps ?e ?t e1" by blast
  define s1 where "s1 = s\<lparr>aug_data := e1\<rparr>"
  have s1: "represents s1 ?t" "aug_data s1 = e1" using T by (simp_all add: s1_def represents_def)
  have call: "rb_insert_augmented min_vruntime_cb a s = rb_insert min_vruntime_cb a s1"
    using par e1(1) by (simp add: rb_insert_augmented_def call_def min_vruntime_cb_def s1_def)
  obtain s' t' where s': "rb_insert min_vruntime_cb a s1 = Some s'" "represents s' t'" "keeps ?e t' (aug_data s')"
      "rb_ok t'" "inorder t' = before gs @ a # after gs"
      "dom (nodes s') = dom (nodes s1)" "\<forall>x. x \<notin> insert a (caddrs gs) \<longrightarrow> nodes s' x = nodes s1 x"
    using mv.rb_insert_correct [OF _ ok, of s1 a ?e] s1 e1(2) by auto
  have "agg b (aug_data s') t'" if asm: "agg b ?e (Node Leaf a Red Leaf)" "agg b ?e (plug gs Leaf)" for b
  proof -
    obtain e2 where "mv_propagate (nodes s) (cpar gs) NULL ?e = Some e2" "agg b e2 ?t" "same_own ?e e2"
      using mv_propagate_repairs [OF rp asm(1), of "kmin b ?e Leaf"] asm(2) by (auto simp: agg_plug)
    then have "agg_of b ?e ?t e1" using e1(1) by (simp add: agg_of_def)
    then obtain s2 t2 where "rb_insert min_vruntime_cb a s1 = Some s2" "represents s2 t2" "agg_of b ?e t2 (aug_data s2)"
      using agg.rb_insert_correct [OF _ ok, of s1 a b ?e] s1 by auto
    then show ?thesis using s'(1,2) represents_unique by (auto simp: agg_of_def)
  qed
  then show ?thesis using s' call by (auto simp: keeps_def s1_def)
qed

section \<open>Insertion and removal\<close>

lemma later_same_own: "same_own e e' \<Longrightarrow> later e' se x = later e se x"
proof -
  assume so: "same_own e e'"
  show ?thesis
  proof (cases "e x")
    case None
    then have "e' x = None" using same_own_dom [OF so] by (metis domIff)
    with None show ?thesis by (simp add: later_def)
  next
    case (Some xe)
    then obtain m where "e' x = Some (xe\<lparr>se_min_vruntime := m\<rparr>)" using same_own_eq [OF so] by blast
    with Some show ?thesis by (simp add: later_def deadline_less_def)
  qed
qed

lemma set_ents_simps [simp]:
  "ents (set_ents e c) = e" "nodes (timeline (set_ents e c)) = nodes (timeline c)"
  "rb_root (timeline (set_ents e c)) = rb_root (timeline c)"
  "rb_leftmost (tasks_timeline (set_ents e c)) = rb_leftmost (tasks_timeline c)"
  "nr_running (set_ents e c) = nr_running c" "min_vruntime (set_ents e c) = min_vruntime c"
  "avg_vruntime (set_ents e c) = avg_vruntime c" "avg_load (set_ents e c) = avg_load c"
  "curr (set_ents e c) = curr c"
  by (simp_all add: set_ents_def)

lemma represents_aug [simp]: "represents (s\<lparr>aug_data := d\<rparr>) t = represents s t"
  by (simp add: represents_def)

lemma fresh_node_aug [simp]: "fresh_node (s\<lparr>aug_data := d\<rparr>) t n = fresh_node s t n"
  by (simp add: fresh_node_def)

text \<open>What \<open>__enqueue_entity\<close> does to the tree: the entity goes into a slot of the tree that
  is in order when the tree is.\<close>

definition inserted :: "ents rb_root_cached \<Rightarrow> rbt \<Rightarrow> addr \<Rightarrow> sched_entity \<Rightarrow>
    ents rb_root_cached \<Rightarrow> rbt \<Rightarrow> bool" where
  "inserted q t a se q' t' \<longleftrightarrow> tree_ok q' t' \<and> same_own (aug_data (rb_tree q)) (aug_data (rb_tree q'))
     \<and> dom (nodes (rb_tree q')) = dom (nodes (rb_tree q))
     \<and> (\<exists>gs. t = plug gs Leaf \<and> inorder t' = before gs @ a # after gs
          \<and> (splits (later (aug_data (rb_tree q)) se) (inorder t)
               \<longrightarrow> slot_in_order (later (aug_data (rb_tree q)) se) gs))
     \<and> (\<forall>b. vkey b (vruntime se) < 2 ^ 63 \<and> agg b (aug_data (rb_tree q)) t
          \<longrightarrow> agg b (aug_data (rb_tree q')) t')"

lemma enqueue_tree_ok:
  assumes ok: "tree_ok (tasks_timeline c) t" and fresh: "fresh_node (timeline c) t a"
    and se: "ents c a = Some se"
  shows "\<exists>q t'. enqueue_entity_tree c a = Some ((avg_vruntime_add c se)\<lparr>tasks_timeline := q\<rparr>)
    \<and> inserted (tasks_timeline c) t a se q t'"
proof -
  let ?e = "(ents c)(a \<mapsto> se\<lparr>se_min_vruntime := vruntime se\<rparr>)" and ?s = "timeline c"
  define s0 where "s0 = ?s\<lparr>aug_data := ?e\<rparr>"
  have so: "same_own (ents c) ?e" by (rule same_own_upd) (simp_all add: se)
  have T: "represents s0 (plug [] t)" and rbok: "rb_ok t" and lm: "rb_leftmost (tasks_timeline c) = hd_or_NULL (inorder t)"
    and dom: "addrs t \<subseteq> dom (aug_data s0)"
    using ok by (auto simp: tree_ok_def cached_ok_def s0_def)
  obtain gs where gs: "enqueue_slot s0 se Root_Link NULL True = Some (link_of gs, cpar gs, before gs = [])"
      "plug gs Leaf = t" "splits (later ?e se) (inorder t) \<longrightarrow> slot_in_order (later ?e se) gs"
    using enqueue_slot_rep [OF T dom, of se] by (auto simp: slot_in_order_def s0_def)
  have lt: "later ?e se = later (ents c) se" using later_same_own [OF so] by blast
  from fresh obtain v where v: "nodes s0 a = Some v" "a \<noteq> NULL" "aligned a" "a \<notin> caddrs gs"
    using gs(2) [symmetric] by (auto simp: fresh_node_def addrs_plug s0_def)
  have T': "represents s0 (plug gs Leaf)" using T gs(2) by simp
  obtain s1 where s1: "rb_link_node a (cpar gs) (link_of gs) s0 = Some s1"
      "represents s1 (plug gs (Node Leaf a Red Leaf))" "touched s0 (insert a (caddrs gs)) s1"
    using rb_link_node_rep [OF T' v] by blast
  have a1: "aug_data s1 = ?e" "dom (nodes s1) = dom (nodes ?s)" using s1(3) by (auto simp: touched_def s0_def)
  have ok1: "rb_ok (plug gs Leaf)" using rbok gs(2) by simp
  have dom1: "addrs (plug gs (Node Leaf a Red Leaf)) \<subseteq> dom (aug_data s1)"
    using dom a1(1) gs(2) [symmetric] by (auto simp: addrs_plug s0_def)
  obtain s2 t' where s2: "rb_insert_augmented min_vruntime_cb a s1 = Some s2" "represents s2 t'" "rb_ok t'"
      "inorder t' = before gs @ a # after gs" "same_own (aug_data s1) (aug_data s2)" "dom (nodes s2) = dom (nodes s1)"
      "\<forall>b. agg b (aug_data s1) (Node Leaf a Red Leaf) \<and> agg b (aug_data s1) (plug gs Leaf) \<longrightarrow> agg b (aug_data s2) t'"
    using rb_insert_augmented_ok [OF s1(2) ok1 dom1] by blast
  define q where "q = (tasks_timeline c)\<lparr>rb_leftmost := (if before gs = [] then a else rb_leftmost (tasks_timeline c)), rb_tree := s2\<rparr>"
  have eq: "enqueue_entity_tree c a = Some ((avg_vruntime_add c se)\<lparr>tasks_timeline := q\<rparr>)"
    using se gs(1) s1(1) s2(1)
    by (simp add: enqueue_entity_tree_def se_upd_def set_ents_def avg_vruntime_add_def s0_def
        rb_insert_augmented_cached_def q_def)
  have "same_own (ents c) (aug_data s2)" by (rule same_own_trans [OF so s2(5) [unfolded a1(1)]])
  moreover have "tree_ok q t'"
  proof -
    have "inorder t = before gs @ after gs" using gs(2) [symmetric] by (simp add: inorder_plug)
    then have "rb_leftmost q = hd_or_NULL (inorder t')"
      using lm s2(4) by (cases "before gs") (simp_all add: q_def)
    moreover have "addrs t' \<subseteq> dom (aug_data s2)"
      using dom1 s2(4) same_own_dom [OF s2(5)] by (auto simp: addrs_def inorder_plug)
    ultimately show ?thesis using s2 by (simp add: tree_ok_def cached_ok_def q_def)
  qed
  moreover have "agg b (aug_data s2) t'" if "vkey b (vruntime se) < 2 ^ 63" "agg b (ents c) t" for b
  proof -
    have "agg b ?e (Node Leaf a Red Leaf)" using that(1) agg1_upd [of b se "vruntime se" "2 ^ 63" "ents c" a] by simp
    moreover have "agg b ?e t" using that(2) fresh by (simp add: agg_upd fresh_node_def)
    ultimately show ?thesis using s2(7) a1(1) gs(2) by simp
  qed
  moreover have "rb_tree q = s2" by (simp add: q_def)
  moreover have "\<exists>gs. t = plug gs Leaf \<and> inorder t' = before gs @ a # after gs
      \<and> (splits (later (ents c) se) (inorder t) \<longrightarrow> slot_in_order (later (ents c) se) gs)"
    using gs(2,3) s2(4) lt by metis
  ultimately have "inserted (tasks_timeline c) t a se q t'"
    using s2(6) a1(2) unfolding inserted_def by simp
  with eq show ?thesis by blast
qed

lemma dequeue_tree_ok:
  assumes ok: "tree_ok q t" and a: "a \<in> addrs t"
  shows "\<exists>q' t'. rb_erase_augmented_cached min_vruntime_cb a q = Some q' \<and> tree_ok q' t'
    \<and> inorder t' = remove1 a (inorder t) \<and> same_own (aug_data (rb_tree q)) (aug_data (rb_tree q'))
    \<and> dom (nodes (rb_tree q')) = dom (nodes (rb_tree q))"
proof -
  let ?s = "rb_tree q"
  from a obtain x xs where io: "inorder t = x # xs" by (cases "inorder t") (auto simp: addrs_def)
  have T: "represents ?s t" "rb_ok t" "rb_leftmost q = x" and k: "keeps (aug_data ?s) t (aug_data ?s)"
    using ok io by (auto simp: tree_ok_def cached_ok_def keeps_def)
  obtain s' t' where s': "rb_erase_augmented min_vruntime_cb a ?s = Some s'" "represents s' t'"
      "keeps (aug_data ?s) t' (aug_data s')" "rb_ok t'" "inorder t' = remove1 a (inorder t)"
      "dom (nodes s') = dom (nodes ?s)"
    using mv.rb_erase_augmented_correct [OF conjI [OF T(1) k] a T(2)] by blast
  have "\<exists>q'. rb_erase_augmented_cached min_vruntime_cb a q = Some q' \<and> rb_tree q' = s'
      \<and> rb_leftmost q' = hd_or_NULL (inorder t')"
  proof (cases "x = a")
    case True
    obtain fs l k r where t: "t = plug fs (Node l a k r)" "before fs @ inorder l = take 0 (inorder t)"
        "inorder r @ after fs = drop (Suc 0) (inorder t)"
      using plug_at [of 0 t] io True by auto
    then have "rb_next a ?s = Some (hd_or_NULL xs)"
      using rb_next_rep [of ?s fs l a k r] T(1) io by simp
    then show ?thesis using True T(3) s' io by (simp add: rb_erase_augmented_cached_def)
  next
    case False
    then show ?thesis using T(3) s' io by (simp add: rb_erase_augmented_cached_def)
  qed
  then obtain q' where q': "rb_erase_augmented_cached min_vruntime_cb a q = Some q'" "rb_tree q' = s'"
      "rb_leftmost q' = hd_or_NULL (inorder t')" by blast
  then have "tree_ok q' t'" using s' by (simp add: tree_ok_def cached_ok_def keeps_def)
  with q' s' show ?thesis unfolding keeps_def by blast
qed

end
