(* ===== verification/Fair_Inv.thy ===== *)
theory Fair_Inv
  imports Fair_Queue
begin

text \<open>
  The invariant of a run queue and that every hook of the fair class keeps it. It says that
  the tree, its cached first entity and its nodes are sound, that the two running sums are
  exactly the sums over the entities in the tree (as 64-bit words, so no overflow has to be
  excluded), and that \<open>nr_running\<close> counts the entities in the tree, the runnable current
  one, and the preempted ones that are not yet back in the tree (the set \<open>L\<close>).
\<close>

section \<open>Reading entities\<close>

definition vr :: "ents \<Rightarrow> addr \<Rightarrow> u64" where
  "vr e a = (case e a of None \<Rightarrow> 0 | Some se \<Rightarrow> vruntime se)"

definition wt :: "ents \<Rightarrow> addr \<Rightarrow> u64" where
  "wt e a = (case e a of None \<Rightarrow> 0 | Some se \<Rightarrow> weight (load se))"

definition onq :: "ents \<Rightarrow> addr \<Rightarrow> bool" where
  "onq e a = (case e a of None \<Rightarrow> False | Some se \<Rightarrow> on_rq se)"

definition wsum :: "ents \<Rightarrow> u64 \<Rightarrow> addr list \<Rightarrow> u64" where
  "wsum e m xs = (\<Sum>a\<leftarrow>xs. (vr e a - m) * wt e a)"

definition lsum :: "ents \<Rightarrow> addr list \<Rightarrow> u64" where
  "lsum e xs = (\<Sum>a\<leftarrow>xs. wt e a)"

lemma entity_read [simp]:
  "e a = Some se \<Longrightarrow> vr e a = vruntime se" "e a = Some se \<Longrightarrow> wt e a = weight (load se)"
  "e a = Some se \<Longrightarrow> onq e a = on_rq se"
  by (simp_all add: vr_def wt_def onq_def)

lemma sums_append [simp]:
  "wsum e m (xs @ ys) = wsum e m xs + wsum e m ys" "wsum e m (a # xs) = (vr e a - m) * wt e a + wsum e m xs"
  "wsum e m [] = 0"
  "lsum e (xs @ ys) = lsum e xs + lsum e ys" "lsum e (a # xs) = wt e a + lsum e xs" "lsum e [] = 0"
  by (simp_all add: wsum_def lsum_def)

lemma sums_remove1:
  assumes "a \<in> set xs"
  shows "wsum e m (remove1 a xs) = wsum e m xs - (vr e a - m) * wt e a"
    "lsum e (remove1 a xs) = lsum e xs - wt e a"
  using assms by (induction xs) auto

lemma wsum_shift: "wsum e (m + d) xs = wsum e m xs - lsum e xs * d"
  by (induction xs) (simp_all add: algebra_simps)

lemma sums_cong:
  assumes "\<And>a. a \<in> set xs \<Longrightarrow> vr e' a = vr e a" "\<And>a. a \<in> set xs \<Longrightarrow> wt e' a = wt e a"
  shows "wsum e' m xs = wsum e m xs" "lsum e' xs = lsum e xs"
  using assms by (induction xs) auto

lemma same_own_reads:
  assumes "same_own e e'"
  shows "vr e' a = vr e a" "wt e' a = wt e a" "onq e' a = onq e a"
proof -
  consider "e a = None" "e' a = None" | se m where "e a = Some se" "e' a = Some (se\<lparr>se_min_vruntime := m\<rparr>)"
    using same_own_eq [OF assms] same_own_dom [OF assms] by (metis domIff option.exhaust)
  then show "vr e' a = vr e a" "wt e' a = wt e a" "onq e' a = onq e a"
    by (cases; simp add: vr_def wt_def onq_def)+
qed

section \<open>The invariant\<close>

definition cfs_inv :: "addr set \<Rightarrow> cfs_rq \<Rightarrow> rbt \<Rightarrow> bool" where
  "cfs_inv L c t \<longleftrightarrow> tree_ok (tasks_timeline c) t
     \<and> avg_vruntime c = wsum (ents c) (min_vruntime c) (inorder t)
     \<and> avg_load c = lsum (ents c) (inorder t)
     \<and> finite L \<and> L \<inter> addrs t = {} \<and> curr c \<notin> addrs t \<union> L
     \<and> (\<forall>a \<in> addrs t \<union> L. onq (ents c) a)
     \<and> (curr c \<noteq> NULL \<longrightarrow> curr c \<in> dom (ents c))
     \<and> (\<forall>a \<in> dom (ents c). a \<noteq> NULL \<and> aligned a \<and> a \<in> dom (nodes (timeline c)))
     \<and> nr_running c = of_nat (length (inorder t) + card L + (if onq (ents c) (curr c) then 1 else 0))"

lemma cfs_inv_ents:
  assumes inv: "cfs_inv L c t" and dom: "dom e' = dom (ents c)"
    and tree: "\<And>a. a \<in> addrs t \<Longrightarrow> vr e' a = vr (ents c) a \<and> wt e' a = wt (ents c) a"
    and onq: "\<And>a. a \<in> addrs t \<union> L \<union> {curr c} \<Longrightarrow> onq e' a = onq (ents c) a"
  shows "cfs_inv L (set_ents e' c) t"
proof -
  have "wsum e' (min_vruntime c) (inorder t) = wsum (ents c) (min_vruntime c) (inorder t)"
      "lsum e' (inorder t) = lsum (ents c) (inorder t)"
    by (rule sums_cong; use tree in \<open>simp add: addrs_def\<close>)+
  then show ?thesis using inv dom onq
    by (simp add: cfs_inv_def tree_ok_def cached_ok_def represents_def)
qed

text \<open>An update of one entity that keeps \<open>on_rq\<close> and, in the tree, what the sums read.\<close>

lemma se_upd_ok:
  assumes inv: "cfs_inv L c t" and se: "ents c a = Some se" and on: "on_rq (f se) = on_rq se"
    and tree: "a \<in> addrs t \<Longrightarrow> vruntime (f se) = vruntime se \<and> weight (load (f se)) = weight (load se)"
  shows "se_upd a f c = Some (set_ents ((ents c)(a \<mapsto> f se)) c)"
    "cfs_inv L (set_ents ((ents c)(a \<mapsto> f se)) c) t"
proof -
  show "se_upd a f c = Some (set_ents ((ents c)(a \<mapsto> f se)) c)" using se by (simp add: se_upd_def)
  show "cfs_inv L (set_ents ((ents c)(a \<mapsto> f se)) c) t"
  proof (rule cfs_inv_ents [OF inv])
    show "dom ((ents c)(a \<mapsto> f se)) = dom (ents c)" using se by auto
    show "vr ((ents c)(a \<mapsto> f se)) x = vr (ents c) x \<and> wt ((ents c)(a \<mapsto> f se)) x = wt (ents c) x"
      if "x \<in> addrs t" for x
      using that se tree by (cases "x = a") (simp_all add: vr_def wt_def)
    show "onq ((ents c)(a \<mapsto> f se)) x = onq (ents c) x" for x
      using se on by (cases "x = a") (simp_all add: onq_def)
  qed
qed

lemma cfs_inv_curr: "cfs_inv L c t \<Longrightarrow> curr c \<noteq> NULL \<Longrightarrow> \<exists>se. ents c (curr c) = Some se"
  by (auto simp: cfs_inv_def)

lemma cfs_inv_NULL: "cfs_inv L c t \<Longrightarrow> ents c NULL = None"
  by (metis (no_types, lifting) cfs_inv_def domIff)

lemma live_curr_ok:
  assumes "cfs_inv L c t"
  shows "\<exists>cu. live_curr c = Some cu \<and> (cu \<noteq> None \<longleftrightarrow> onq (ents c) (curr c))
    \<and> (\<forall>se. cu = Some se \<longrightarrow> ents c (curr c) = Some se)"
proof (cases "curr c = NULL")
  case True
  then show ?thesis using cfs_inv_NULL [OF assms] by (simp add: live_curr_def onq_def)
next
  case False
  then obtain se where "ents c (curr c) = Some se" using cfs_inv_curr [OF assms] by blast
  with False show ?thesis by (cases "on_rq se") (simp_all add: live_curr_def)
qed

section \<open>The floor moves forward only\<close>

definition floor_moved :: "cfs_rq \<Rightarrow> cfs_rq \<Rightarrow> bool" where
  "floor_moved c c' \<longleftrightarrow> c' = c \<or> (\<exists>v. 0 <s v - min_vruntime c
     \<and> c' = c\<lparr>min_vruntime := v, avg_vruntime := avg_vruntime c - avg_load c * (v - min_vruntime c)\<rparr>)"

lemma floor_moved_inv: "cfs_inv L c t \<Longrightarrow> floor_moved c c' \<Longrightarrow> cfs_inv L c' t"
proof -
  assume inv: "cfs_inv L c t" and "floor_moved c c'"
  then consider "c' = c" | v where
      "c' = c\<lparr>min_vruntime := v, avg_vruntime := avg_vruntime c - avg_load c * (v - min_vruntime c)\<rparr>"
    by (auto simp: floor_moved_def)
  then show ?thesis
  proof cases
    case 2
    have "wsum (ents c) v (inorder t)
        = wsum (ents c) (min_vruntime c) (inorder t) - lsum (ents c) (inorder t) * (v - min_vruntime c)"
      using wsum_shift [of "ents c" "min_vruntime c" "v - min_vruntime c"] by simp
    with inv show ?thesis unfolding 2 by (simp add: cfs_inv_def)
  qed (use inv in simp)
qed

lemma update_min_vruntime_ok:
  assumes inv: "cfs_inv L c t"
  shows "\<exists>c'. update_min_vruntime c = Some c' \<and> floor_moved c c'"
proof -
  obtain cu where cu: "live_curr c = Some cu" using live_curr_ok [OF inv] by blast
  have "\<exists>root. (if pick_root_entity c = NULL then Some None
      else map_option Some (ents c (pick_root_entity c))) = Some root"
  proof (cases "t = Leaf")
    case True
    with inv show ?thesis
      by (simp add: cfs_inv_def tree_ok_def cached_ok_def represents_def pick_root_entity_def)
  next
    case False
    then have "ptr t \<in> dom (ents c)" using inv ptr_in_addrs [of t]
      by (auto simp: cfs_inv_def tree_ok_def)
    with inv show ?thesis
      by (auto simp: cfs_inv_def tree_ok_def cached_ok_def represents_def pick_root_entity_def)
  qed
  then obtain root where root: "(if pick_root_entity c = NULL then Some None
      else map_option Some (ents c (pick_root_entity c))) = Some root" by blast
  define v where "v = (case (cu, root) of
         (Some cse, Some r) \<Rightarrow> vtime_min (vruntime cse) (se_min_vruntime r)
       | (Some cse, None) \<Rightarrow> vruntime cse
       | (None, Some r) \<Rightarrow> se_min_vruntime r
       | (None, None) \<Rightarrow> min_vruntime c)"
  have "update_min_vruntime c = Some (if 0 <s v - min_vruntime c
      then (avg_vruntime_shift c (v - min_vruntime c))\<lparr>min_vruntime := v\<rparr> else c)"
    unfolding update_min_vruntime_def cu root v_def Let_def by (simp cong: if_cong)
  then show ?thesis by (auto simp: floor_moved_def avg_vruntime_shift_def)
qed

section \<open>Accounting\<close>

lemma set_ents_set_ents [simp]: "set_ents e (set_ents e' c) = set_ents e c"
  by (simp add: set_ents_def)

text \<open>\<open>charged c c'\<close>: the step from \<open>c\<close> to \<open>c'\<close> changes at most the current entity, keeping
  its \<open>on_rq\<close>, and the floor.\<close>

definition charged :: "cfs_rq \<Rightarrow> cfs_rq \<Rightarrow> bool" where
  "charged c c' \<longleftrightarrow> curr c' = curr c \<and> nr_running c' = nr_running c \<and> dom (ents c') = dom (ents c)
     \<and> dom (nodes (timeline c')) = dom (nodes (timeline c))
     \<and> (\<forall>a. a \<noteq> curr c \<longrightarrow> ents c' a = ents c a) \<and> (\<forall>a. onq (ents c') a = onq (ents c) a)"

lemma charged_trans: "charged c c' \<Longrightarrow> charged c' c'' \<Longrightarrow> charged c c''"
  by (simp add: charged_def)

lemma charged_floor: "floor_moved c c' \<Longrightarrow> charged c c'"
  by (auto simp: floor_moved_def charged_def)

lemma charge_curr:
  assumes inv: "cfs_inv L c t" and cu: "ents c (curr c) = Some se" and on: "on_rq (f se) = on_rq se"
  shows "\<exists>c'. se_upd (curr c) f c = Some c' \<and> cfs_inv L c' t \<and> charged c c'"
proof -
  have "curr c \<notin> addrs t" using inv by (simp add: cfs_inv_def)
  then show ?thesis using se_upd_ok [OF inv cu, of f] on cu
    by (auto simp: charged_def onq_def)
qed

lemma update_deadline_on [simp]: "on_rq (update_deadline se) = on_rq se"
  by (simp add: update_deadline_def Let_def)

lemma update_curr_ok:
  assumes inv: "cfs_inv L c t"
  shows "\<exists>c'. update_curr now c = Some c' \<and> cfs_inv L c' t \<and> charged c c'"
proof (cases "curr c = NULL")
  case True
  then show ?thesis using inv by (simp add: update_curr_def charged_def)
next
  case False
  then obtain se where se: "ents c (curr c) = Some se" using cfs_inv_curr [OF inv] by blast
  show ?thesis
  proof (cases "now \<le> exec_start se")
    case True
    then show ?thesis using False se charge_curr [OF inv se, of "\<lambda>se. se\<lparr>exec_start := now\<rparr>"]
      by (simp add: update_curr_def)
  next
    case late: False
    let ?d = "now - exec_start se"
    let ?f = "\<lambda>se. update_deadline (se\<lparr>exec_start := now, sum_exec_runtime := sum_exec_runtime se + ?d,
      vruntime := vruntime se + calc_delta_fair ?d se\<rparr>)"
    obtain c1 where c1: "se_upd (curr c) ?f c = Some c1" "cfs_inv L c1 t" "charged c c1"
      using charge_curr [OF inv se, of ?f] by auto
    obtain c2 where c2: "update_min_vruntime c1 = Some c2" "floor_moved c1 c2"
      using update_min_vruntime_ok [OF c1(2)] by blast
    have "update_curr now c = Some c2" using False se late c1(1) c2(1) by (simp add: update_curr_def)
    moreover have "cfs_inv L c2 t" by (rule floor_moved_inv [OF c1(2) c2(2)])
    moreover have "charged c c2" by (rule charged_trans [OF c1(3) charged_floor [OF c2(2)]])
    ultimately show ?thesis by blast
  qed
qed

lemma sums_with_curr_ok: "cfs_inv L c t \<Longrightarrow> \<exists>p. sums_with_curr c = Some p"
  using cfs_inv_curr [of L c t] by (auto simp: sums_with_curr_def)

lemma avg_vruntime_V_ok: "cfs_inv L c t \<Longrightarrow> \<exists>V. avg_vruntime_V c = Some V"
  using sums_with_curr_ok [of L c t] by (auto simp: avg_vruntime_V_def Let_def)

lemma vruntime_eligible_ok: "cfs_inv L c t \<Longrightarrow> \<exists>b. vruntime_eligible c v = Some b"
  using sums_with_curr_ok [of L c t] by (auto simp: vruntime_eligible_def)

end
