(* ===== verification/Fair_Hooks.thy ===== *)
theory Fair_Hooks
  imports Fair_Inv
begin

text \<open>
  Every hook of the fair class returns and keeps the invariant of the run queue: waking,
  blocking, picking, requeueing, stealing, the tick, renicing and yielding.
\<close>

section \<open>The tree and the counts\<close>

definition queue_ok :: "cfs_rq \<Rightarrow> rbt \<Rightarrow> bool" where
  "queue_ok c t \<longleftrightarrow> tree_ok (tasks_timeline c) t
     \<and> avg_vruntime c = wsum (ents c) (min_vruntime c) (inorder t)
     \<and> avg_load c = lsum (ents c) (inorder t)
     \<and> (\<forall>a \<in> dom (ents c). a \<noteq> NULL \<and> aligned a \<and> a \<in> dom (nodes (timeline c)))"

definition counts :: "addr set \<Rightarrow> cfs_rq \<Rightarrow> rbt \<Rightarrow> bool" where
  "counts L c t \<longleftrightarrow> finite L \<and> L \<inter> addrs t = {} \<and> curr c \<notin> addrs t \<union> L
     \<and> (\<forall>a \<in> addrs t \<union> L. onq (ents c) a) \<and> (curr c \<noteq> NULL \<longrightarrow> curr c \<in> dom (ents c))
     \<and> nr_running c = of_nat (length (inorder t) + card L + (if onq (ents c) (curr c) then 1 else 0))"

lemma cfs_inv_split: "cfs_inv L c t \<longleftrightarrow> queue_ok c t \<and> counts L c t"
  by (auto simp: cfs_inv_def queue_ok_def counts_def)

lemma onq_NULL: "cfs_inv L c t \<Longrightarrow> \<not> onq (ents c) NULL"
  using cfs_inv_NULL [of L c t] by (simp add: onq_def)

lemma NULL_not_queued: "cfs_inv L c t \<Longrightarrow> NULL \<notin> addrs t \<union> L"
  using onq_NULL [of L c t] by (auto simp: cfs_inv_def)

lemma tree_ok_distinct: "tree_ok q t \<Longrightarrow> distinct (inorder t)"
  by (simp add: tree_ok_def cached_ok_def represents_def)

lemma enqueue_tree_queue:
  assumes q: "queue_ok c t" and a: "ents c a = Some se" "a \<notin> addrs t"
  shows "\<exists>q t'. enqueue_entity_tree c a = Some ((avg_vruntime_add c se)\<lparr>tasks_timeline := q\<rparr>)
    \<and> queue_ok ((avg_vruntime_add c se)\<lparr>tasks_timeline := q\<rparr>) t'
    \<and> inserted (tasks_timeline c) t a se q t'
    \<and> same_own (ents c) (aug_data (rb_tree q))
    \<and> addrs t' = insert a (addrs t) \<and> length (inorder t') = Suc (length (inorder t))"
proof -
  have ok: "tree_ok (tasks_timeline c) t" and "a \<in> dom (ents c)" using q a by (auto simp: queue_ok_def)
  then have fresh: "fresh_node (timeline c) t a" using q a(2) by (auto simp: queue_ok_def fresh_node_def)
  obtain q' t' where q': "enqueue_entity_tree c a = Some ((avg_vruntime_add c se)\<lparr>tasks_timeline := q'\<rparr>)"
      "inserted (tasks_timeline c) t a se q' t'" using enqueue_tree_ok [OF ok fresh a(1)] by blast
  let ?e = "aug_data (rb_tree q')"
  have so: "same_own (ents c) ?e" and t': "tree_ok q' t'" and dn: "dom (nodes (rb_tree q')) = dom (nodes (timeline c))"
    using q'(2) by (simp_all add: inserted_def)
  obtain gs where gs: "t = plug gs Leaf" "inorder t' = before gs @ a # after gs"
    using q'(2) by (auto simp: inserted_def)
  then have io: "inorder t = before gs @ after gs" by (simp add: inorder_plug)
  have s: "wsum ?e m xs = wsum (ents c) m xs" "lsum ?e xs = lsum (ents c) xs" for m xs
    by (rule sums_cong; simp add: same_own_reads [OF so])+
  have "queue_ok ((avg_vruntime_add c se)\<lparr>tasks_timeline := q'\<rparr>) t'"
    using q t' dn same_own_dom [OF so] a(1) io gs(2) same_own_reads [OF so, of a]
    by (simp add: queue_ok_def avg_vruntime_add_def s entity_key_def)
  moreover have "addrs t' = insert a (addrs t)" "length (inorder t') = Suc (length (inorder t))"
    using gs(2) io by (simp_all add: addrs_def)
  ultimately show ?thesis using q' so by blast
qed

lemma dequeue_tree_queue:
  assumes q: "queue_ok c t" and a: "a \<in> addrs t"
  shows "\<exists>c' t'. dequeue_entity_tree c a = Some c' \<and> queue_ok c' t'
    \<and> same_own (ents c) (ents c') \<and> inorder t' = remove1 a (inorder t) \<and> addrs t' = addrs t - {a}
    \<and> length (inorder t) = Suc (length (inorder t'))
    \<and> nr_running c' = nr_running c \<and> curr c' = curr c \<and> min_vruntime c' = min_vruntime c"
proof -
  have ok: "tree_ok (tasks_timeline c) t" using q by (simp add: queue_ok_def)
  obtain q' t' where q': "rb_erase_augmented_cached min_vruntime_cb a (tasks_timeline c) = Some q'"
      "tree_ok q' t'" "inorder t' = remove1 a (inorder t)" "same_own (ents c) (aug_data (rb_tree q'))"
      "dom (nodes (rb_tree q')) = dom (nodes (timeline c))"
    using dequeue_tree_ok [OF ok a] by blast
  let ?e = "aug_data (rb_tree q')" and ?c = "c\<lparr>tasks_timeline := q'\<rparr>"
  have "a \<in> dom ?e" using ok a same_own_dom [OF q'(4)] by (auto simp: tree_ok_def)
  then obtain se where se: "?e a = Some se" by blast
  have s: "wsum ?e m xs = wsum (ents c) m xs" "lsum ?e xs = lsum (ents c) xs" for m xs
    by (rule sums_cong; simp add: same_own_reads [OF q'(4)])+
  have ain: "a \<in> set (inorder t)" using a by (simp add: addrs_def)
  have "dequeue_entity_tree c a = Some (avg_vruntime_sub ?c se)"
    using q'(1) se by (simp add: dequeue_entity_tree_def)
  moreover have "queue_ok (avg_vruntime_sub ?c se) t'"
    using q q'(2,5) same_own_dom [OF q'(4)] sums_remove1 [OF ain] se
    by (simp add: queue_ok_def avg_vruntime_sub_def s entity_key_def q'(3))
  moreover have "addrs t' = addrs t - {a}"
    using q'(3) tree_ok_distinct [OF ok] by (simp add: addrs_def set_remove1_eq)
  moreover have "length (inorder t) = Suc (length (inorder t'))"
    using q'(3) length_pos_if_in_set [OF ain] ain by (simp add: length_remove1)
  ultimately show ?thesis using q'(3,4) by (auto simp: avg_vruntime_sub_def)
qed

text \<open>An update of one entity; in the tree, it keeps what the sums read.\<close>

lemma queue_ok_upd:
  assumes q: "queue_ok c t" and a: "ents c a = Some se"
    and f: "a \<in> addrs t \<Longrightarrow> vruntime (f se) = vruntime se \<and> weight (load (f se)) = weight (load se)"
  shows "se_upd a f c = Some (set_ents ((ents c)(a \<mapsto> f se)) c)"
    "queue_ok (set_ents ((ents c)(a \<mapsto> f se)) c) t"
proof -
  let ?e = "(ents c)(a \<mapsto> f se)"
  show "se_upd a f c = Some (set_ents ?e c)" using a by (simp add: se_upd_def)
  have "vr ?e x = vr (ents c) x \<and> wt ?e x = wt (ents c) x" if "x \<in> addrs t" for x
    using that a f by (cases "x = a") (simp_all add: vr_def wt_def)
  then have "wsum ?e (min_vruntime c) (inorder t) = wsum (ents c) (min_vruntime c) (inorder t)"
      "lsum ?e (inorder t) = lsum (ents c) (inorder t)"
    by - (rule sums_cong; simp add: addrs_def)+
  moreover have "dom ?e = dom (ents c)" using a by auto
  ultimately show "queue_ok (set_ents ?e c) t" using q
    by (simp add: queue_ok_def tree_ok_def cached_ok_def represents_def)
qed

lemma queue_ok_fields [simp]:
  "queue_ok (c\<lparr>nr_running := n\<rparr>) t = queue_ok c t" "queue_ok (c\<lparr>curr := x\<rparr>) t = queue_ok c t"
  by (simp_all add: queue_ok_def)

section \<open>Enqueueing\<close>

lemma set_load_weight_keeps [simp]:
  "on_rq (set_load_weight se n) = on_rq se" "vruntime (set_load_weight se n) = vruntime se"
  by (simp_all add: set_load_weight_def)

lemma placed_lag_ok: "cfs_inv L c t \<Longrightarrow> \<exists>l. placed_lag c se = Some l"
  using live_curr_ok [of L c t] by (auto simp: placed_lag_def Let_def)

lemma place_entity_ok:
  assumes inv: "cfs_inv L c t" and a: "ents c a = Some se" "a \<notin> addrs t"
  shows "\<exists>se'. place_entity c a i = Some (set_ents ((ents c)(a \<mapsto> se')) c) \<and> on_rq se' = on_rq se
    \<and> cfs_inv L (set_ents ((ents c)(a \<mapsto> se')) c) t"
proof -
  obtain V l where V: "avg_vruntime_V c = Some V" and l: "placed_lag c se = Some l"
    using avg_vruntime_V_ok [OF inv] placed_lag_ok [OF inv] by blast
  define d where "d = (if i then calc_delta_fair (slice_of se) se div 2 else calc_delta_fair (slice_of se) se)"
  define f where "f = (\<lambda>se :: sched_entity. se\<lparr>vruntime := V - l, deadline := V - l + d, vlag := 0\<rparr>)"
  have "place_entity c a i = se_upd a f c" using V l a by (simp add: place_entity_def d_def f_def)
  with se_upd_ok [OF inv a(1), of f] a(2) show ?thesis by (auto simp: f_def)
qed

lemma enqueue_entity_ok:
  assumes inv: "cfs_inv L c t" and a: "a \<in> dom (ents c)" "\<not> onq (ents c) a" "a \<noteq> curr c"
  shows "\<exists>c' t'. enqueue_entity now c a = Some c' \<and> cfs_inv L c' t' \<and> addrs t' = insert a (addrs t)
    \<and> curr c' = curr c \<and> dom (ents c') = dom (ents c) \<and> dom (nodes (timeline c')) = dom (nodes (timeline c))"
proof -
  have out: "a \<notin> addrs t" "a \<notin> L" using inv a(2) by (auto simp: cfs_inv_def)
  obtain c1 where c1: "update_curr now c = Some c1" "cfs_inv L c1 t" "charged c c1"
    using update_curr_ok [OF inv] by blast
  obtain se where se: "ents c1 a = Some se" "\<not> on_rq se"
    using c1(3) a by (auto simp: charged_def onq_def)
  define s1 where "s1 = set_load_weight se (nice se)"
  define c2 where "c2 = set_ents ((ents c1)(a \<mapsto> s1)) c1"
  have c2: "se_upd a (\<lambda>se. set_load_weight se (nice se)) c1 = Some c2" "cfs_inv L c2 t"
    using se_upd_ok [OF c1(2) se(1), of "\<lambda>se. set_load_weight se (nice se)"] out
    by (simp_all add: c2_def s1_def)
  have e2: "ents c2 a = Some s1" by (simp add: c2_def)
  obtain s2 where s2: "place_entity c2 a (sum_exec_runtime s1 = 0) = Some (set_ents ((ents c2)(a \<mapsto> s2)) c2)"
      "on_rq s2 = on_rq s1" "cfs_inv L (set_ents ((ents c2)(a \<mapsto> s2)) c2) t"
    using place_entity_ok [OF c2(2) e2 out(1)] by blast
  define c3 where "c3 = set_ents ((ents c2)(a \<mapsto> s2)) c2"
  have c3: "queue_ok c3 t" "counts L c3 t" "ents c3 a = Some s2" "\<not> on_rq s2"
    using s2 se(2) unfolding cfs_inv_split c3_def [symmetric] by (simp_all add: c3_def s1_def)
  obtain q t' where c4: "enqueue_entity_tree c3 a = Some ((avg_vruntime_add c3 s2)\<lparr>tasks_timeline := q\<rparr>)"
      "queue_ok ((avg_vruntime_add c3 s2)\<lparr>tasks_timeline := q\<rparr>) t'" "same_own (ents c3) (aug_data (rb_tree q))"
      "inserted (tasks_timeline c3) t a s2 q t'"
      "addrs t' = insert a (addrs t)" "length (inorder t') = Suc (length (inorder t))"
    using enqueue_tree_queue [OF c3(1) c3(3) out(1)] by blast
  define c4 where "c4 = (avg_vruntime_add c3 s2)\<lparr>tasks_timeline := q\<rparr>"
  have on4: "onq (ents c4) x = onq (ents c3) x" for x
    using same_own_reads(3) [OF c4(3)] by (simp add: c4_def)
  have "a \<in> dom (ents c4)" using same_own_dom [OF c4(3)] domI [of "ents c3"] c3(3) by (simp add: c4_def)
  then obtain s4 where s4: "ents c4 a = Some s4" by blast
  define c5 where "c5 = set_ents ((ents c4)(a \<mapsto> s4\<lparr>on_rq := True\<rparr>)) c4"
  have c5: "se_upd a (\<lambda>se. se\<lparr>on_rq := True\<rparr>) c4 = Some c5" "queue_ok c5 t'"
    using queue_ok_upd [of c4 t' a s4 "\<lambda>se. se\<lparr>on_rq := True\<rparr>"] c4(2) s4 by (simp_all add: c4_def c5_def)
  have on5: "onq (ents c5) x = (x = a \<or> onq (ents c3) x)" for x
    using on4 [of x] by (simp add: c5_def onq_def)
  have k: "curr c5 = curr c3" "nr_running c5 = nr_running c3" "dom (ents c5) = dom (ents c3)"
      "dom (nodes (timeline c5)) = dom (nodes (timeline c3))"
    using same_own_dom [OF c4(3)] s4 c4(4)
    by (auto simp: c5_def c4_def avg_vruntime_add_def inserted_def)
  have k3: "curr c3 = curr c" "dom (ents c3) = dom (ents c)" "dom (nodes (timeline c3)) = dom (nodes (timeline c))"
    using c1(3) a(1) by (auto simp: c3_def c2_def charged_def)
  have "counts L (c5\<lparr>nr_running := nr_running c5 + 1\<rparr>) t'"
    using c3(2) c4(5,6) out a(3) k k3(1) by (auto simp: counts_def on5)
  then have "cfs_inv L (c5\<lparr>nr_running := nr_running c5 + 1\<rparr>) t'"
    using c5(2) by (simp add: cfs_inv_split)
  moreover have "enqueue_entity now c a = Some (c5\<lparr>nr_running := nr_running c5 + 1\<rparr>)"
    using c1(1) c2(1) e2 s2(1) c4(1) c5(1) by (simp add: enqueue_entity_def c3_def [symmetric] c4_def)
  ultimately show ?thesis using c4(5) k k3 by auto
qed

section \<open>Dequeueing\<close>

lemma update_entity_lag_ok:
  assumes inv: "cfs_inv L c t" and a: "a \<in> dom (ents c)"
  shows "\<exists>c'. update_entity_lag c a = Some c' \<and> cfs_inv L c' t \<and> curr c' = curr c
    \<and> dom (ents c') = dom (ents c) \<and> dom (nodes (timeline c')) = dom (nodes (timeline c))
    \<and> nr_running c' = nr_running c \<and> (\<forall>x. onq (ents c') x = onq (ents c) x)"
proof -
  obtain V se where V: "avg_vruntime_V c = Some V" and se: "ents c a = Some se"
    using avg_vruntime_V_ok [OF inv] a by blast
  let ?f = "\<lambda>se. se\<lparr>vlag := clamp_lag se (V - vruntime se)\<rparr>"
  have "update_entity_lag c a = se_upd a ?f c" using V by (simp add: update_entity_lag_def)
  with se_upd_ok [OF inv se, of ?f] se show ?thesis by (auto simp: onq_def)
qed

text \<open>Taking an entity off the queue, before \<open>on_rq\<close> is cleared.\<close>

lemma take_off_ok:
  assumes inv: "cfs_inv L c t" and a: "a = curr c \<and> onq (ents c) a \<or> a \<in> addrs t"
  shows "\<exists>c' t'. (if a = curr c then Some (c\<lparr>curr := NULL\<rparr>) else dequeue_entity_tree c a) = Some c'
    \<and> queue_ok c' t' \<and> addrs t' = addrs t - {a} \<and> nr_running c' = nr_running c
    \<and> curr c' = (if a = curr c then NULL else curr c) \<and> same_own (ents c) (ents c')
    \<and> length (inorder t) + (if onq (ents c) (curr c) then 1 else 0)
        = Suc (length (inorder t') + (if onq (ents c) (curr c') then 1 else 0))"
proof (cases "a = curr c")
  case True
  then have "a \<notin> addrs t" "onq (ents c) a" using inv a by (auto simp: cfs_inv_def)
  then show ?thesis using True inv cfs_inv_NULL [OF inv]
    by (auto simp: cfs_inv_split onq_def intro!: exI [of _ t] same_own_refl)
next
  case False
  then have "a \<in> addrs t" using a by simp
  then obtain c' t' where "dequeue_entity_tree c a = Some c'" "queue_ok c' t'" "addrs t' = addrs t - {a}"
      "nr_running c' = nr_running c" "curr c' = curr c" "same_own (ents c) (ents c')"
      "length (inorder t) = Suc (length (inorder t'))"
    using dequeue_tree_queue [of c t a] inv unfolding cfs_inv_split by blast
  then show ?thesis using False by (intro exI [of _ c'] exI [of _ t']) simp
qed

lemma dequeue_entity_ok:
  assumes inv: "cfs_inv L c t" and a: "a = curr c \<and> onq (ents c) a \<or> a \<in> addrs t"
  shows "\<exists>c' t'. dequeue_entity now c a = Some c' \<and> cfs_inv L c' t' \<and> addrs t' = addrs t - {a}
    \<and> \<not> onq (ents c') a \<and> curr c' = (if a = curr c then NULL else curr c)
    \<and> dom (ents c') = dom (ents c)"
proof -
  have ad: "a \<in> dom (ents c)" "a \<noteq> NULL" "a \<notin> L"
    using inv a cfs_inv_NULL [OF inv] by (auto simp: cfs_inv_def tree_ok_def onq_def split: option.splits)
  obtain c1 where c1: "update_curr now c = Some c1" "cfs_inv L c1 t" "charged c c1"
    using update_curr_ok [OF inv] by blast
  have ad1: "a \<in> dom (ents c1)" using c1(3) ad by (simp add: charged_def)
  obtain c2 where c2: "update_entity_lag c1 a = Some c2" "cfs_inv L c2 t" "curr c2 = curr c1"
      "dom (ents c2) = dom (ents c1)" "nr_running c2 = nr_running c1" "\<And>x. onq (ents c2) x = onq (ents c1) x"
    using update_entity_lag_ok [OF c1(2) ad1] by blast
  have k2: "curr c2 = curr c" "dom (ents c2) = dom (ents c)" "\<And>x. onq (ents c2) x = onq (ents c) x"
    using c1(3) c2 by (auto simp: charged_def)
  obtain c3 t' where c3: "(if a = curr c2 then Some (c2\<lparr>curr := NULL\<rparr>) else dequeue_entity_tree c2 a) = Some c3"
      "queue_ok c3 t'" "addrs t' = addrs t - {a}" "nr_running c3 = nr_running c2"
      "curr c3 = (if a = curr c2 then NULL else curr c2)" "same_own (ents c2) (ents c3)"
      "length (inorder t) + (if onq (ents c2) (curr c2) then 1 else 0)
        = Suc (length (inorder t') + (if onq (ents c2) (curr c3) then 1 else 0))"
    using take_off_ok [OF c2(2)] a k2 by metis
  have "a \<in> dom (ents c3)" using same_own_dom [OF c3(6)] k2(2) ad by simp
  then obtain se where se: "ents c3 a = Some se" by blast
  define c4 where "c4 = set_ents ((ents c3)(a \<mapsto> se\<lparr>on_rq := False\<rparr>)) c3"
  have c4: "se_upd a (\<lambda>se. se\<lparr>on_rq := False\<rparr>) c3 = Some c4" "queue_ok c4 t'"
    using queue_ok_upd [OF c3(2) se, of "\<lambda>se. se\<lparr>on_rq := False\<rparr>"] by (simp_all add: c4_def)
  have on4: "onq (ents c4) x = (x \<noteq> a \<and> onq (ents c2) x)" for x
    using same_own_reads(3) [OF c3(6), of x] by (simp add: c4_def onq_def)
  have k4: "curr c4 = curr c3" "nr_running c4 = nr_running c2" "dom (ents c4) = dom (ents c2)"
    using same_own_dom [OF c3(6)] se c3(4) by (auto simp: c4_def)
  let ?c5 = "c4\<lparr>nr_running := nr_running c4 - 1\<rparr>"
  have cn: "curr c3 \<noteq> a" using c3(5) ad(2) by (simp split: if_splits)
  have n2: "counts L c2 t" using c2(2) by (simp add: cfs_inv_split)
  have "nr_running c2 = of_nat (Suc (length (inorder t') + card L + (if onq (ents c2) (curr c3) then 1 else 0)))"
    using n2 c3(7) by (simp add: counts_def add_ac)
  then have "nr_running ?c5 = of_nat (length (inorder t') + card L + (if onq (ents ?c5) (curr ?c5) then 1 else 0))"
    using cn by (simp add: on4 k4)
  moreover have "curr ?c5 \<notin> addrs t' \<union> L" "curr ?c5 \<noteq> NULL \<longrightarrow> curr ?c5 \<in> dom (ents ?c5)"
    using n2 c3(3,5) NULL_not_queued [OF c2(2)] by (simp_all add: counts_def k4 split: if_splits)
  moreover have "\<forall>x \<in> addrs t' \<union> L. onq (ents ?c5) x" "L \<inter> addrs t' = {}" "finite L"
    using n2 c3(3) ad(3) by (auto simp: counts_def on4)
  ultimately have "counts L ?c5 t'" by (simp add: counts_def)
  then have i5: "cfs_inv L ?c5 t'" using c4(2) by (simp add: cfs_inv_split)
  obtain c6 where c6: "update_min_vruntime ?c5 = Some c6" "floor_moved ?c5 c6"
    using update_min_vruntime_ok [OF i5] by blast
  have "dequeue_entity now c a = Some c6"
    using c1(1) c2(1) c3(1) c4(1) c6(1) by (simp add: dequeue_entity_def)
  moreover have "cfs_inv L c6 t'" by (rule floor_moved_inv [OF i5 c6(2)])
  moreover have "charged ?c5 c6" by (rule charged_floor [OF c6(2)])
  ultimately show ?thesis using c3(3,5) k4 on4 [of a] k2 by (auto simp: charged_def)
qed

section \<open>Picking\<close>

lemma entity_eligible_ok: "cfs_inv L c t \<Longrightarrow> a \<in> dom (ents c) \<Longrightarrow> \<exists>b. entity_eligible c a = Some b"
  using vruntime_eligible_ok [of L c t] by (auto simp: entity_eligible_def)

lemma eevdf_search_ok:
  assumes inv: "cfs_inv L c t0"
  shows "represents (timeline c) (plug fs t) \<Longrightarrow> addrs t \<subseteq> dom (ents c)
    \<Longrightarrow> \<exists>x. eevdf_search c (ptr t) = Some x \<and> (x = NULL \<or> x \<in> addrs t)"
proof (induction t arbitrary: fs)
  case Leaf
  then show ?case by (simp add: eevdf_search.simps)
next
  case (Node l a k r)
  let ?s = "timeline c"
  note cell = represents_cell [OF Node.prems(1)]
  have nn: "a \<noteq> NULL" by (rule cell_NULL [OF cell])
  have ll: "ld rb_left a ?s = Some (ptr l)" "ld rb_right a ?s = Some (ptr r)"
    using ld_cell [OF cell] by simp_all
  obtain el where el: "entity_eligible c a = Some el"
    using entity_eligible_ok [OF inv, of a] Node.prems(2) by auto
  have IHl: "\<exists>x. eevdf_search c (ptr l) = Some x \<and> (x = NULL \<or> x \<in> addrs l)"
    using Node.IH(1) [of "InL a k r # fs"] Node.prems by auto
  have IHr: "\<exists>x. eevdf_search c (ptr r) = Some x \<and> (x = NULL \<or> x \<in> addrs r)"
    using Node.IH(2) [of "InR l a k # fs"] Node.prems by auto
  have "\<exists>lel. (if ptr l = NULL then Some False
      else do { lse \<leftarrow> ents c (ptr l); vruntime_eligible c (se_min_vruntime lse) }) = Some lel"
  proof (cases "l = Leaf")
    case False
    then have "ptr l \<in> dom (ents c)" using ptr_in_addrs [of l] Node.prems(2) by auto
    then show ?thesis using vruntime_eligible_ok [OF inv] by auto
  qed auto
  then obtain lel where lel: "(if ptr l = NULL then Some False
      else do { lse \<leftarrow> ents c (ptr l); vruntime_eligible c (se_min_vruntime lse) }) = Some lel" by blast
  have "eevdf_search c a = (if lel then eevdf_search c (ptr l) else if el then Some a else eevdf_search c (ptr r))"
    using nn ll el lel by (subst eevdf_search.simps) simp
  then show ?case using IHl IHr by auto
qed

lemma pick_first_ok:
  assumes "cfs_inv L c t"
  shows "pick_first_entity c = hd_or_NULL (inorder t)"
    "pick_first_entity c = NULL \<or> pick_first_entity c \<in> addrs t"
  using assms by (cases "inorder t"; auto simp: cfs_inv_def tree_ok_def cached_ok_def pick_first_entity_def
      rb_first_cached_def hd_or_NULL_def addrs_def)+

text \<open>The entity picked is the runnable current one or one of the tree.\<close>

lemma pick_eevdf_ok:
  assumes inv: "cfs_inv L c t"
  shows "\<exists>x. pick_eevdf c = Some x \<and> (x = NULL \<or> x \<in> addrs t \<or> x = curr c \<and> onq (ents c) x)"
proof -
  let ?first = "pick_first_entity c"
  have sub: "addrs t \<subseteq> dom (ents c)" and T: "represents (timeline c) (plug [] t)"
    using inv by (simp_all add: cfs_inv_def tree_ok_def cached_ok_def)
  have pf: "?first = NULL \<or> ?first \<in> addrs t" by (rule pick_first_ok(2) [OF inv])
  obtain cu where cu: "live_curr c = Some cu" "cu \<noteq> None \<longleftrightarrow> onq (ents c) (curr c)"
    using live_curr_ok [OF inv] by blast
  have cd: "curr c \<in> dom (ents c)" if "cu \<noteq> None" using that cu(2) by (auto simp: onq_def split: option.splits)
  obtain cel where cel: "(if cu = None then Some False else entity_eligible c (curr c)) = Some cel"
      "cel \<longrightarrow> cu \<noteq> None" using entity_eligible_ok [OF inv cd] by (cases "cu = None") auto
  define cur where "cur = (if cel then curr c else NULL)"
  have "?first \<in> dom (ents c)" if "?first \<noteq> NULL" using that pf sub by blast
  then obtain fel where fel: "(if ?first = NULL then Some False else entity_eligible c ?first) = Some fel"
    using entity_eligible_ok [OF inv, of ?first] by (cases "?first = NULL") auto
  have rt: "rb_root (timeline c) = ptr t" using T by (simp add: represents_def)
  obtain best where best: "(if fel then Some ?first else eevdf_search c (rb_root (timeline c))) = Some best"
      "best = NULL \<or> best \<in> addrs t"
    using eevdf_search_ok [OF inv T sub] pf unfolding rt by (cases fel) auto
  have cur: "cur = NULL \<or> cur = curr c \<and> onq (ents c) cur" using cel(2) cu(2) by (auto simp: cur_def)
  have "cur = NULL \<or> cur \<in> dom (ents c)" using cur cd cu(2) by auto
  then have "\<exists>better. (if best = NULL then Some True else if cur = NULL then Some False
      else do { cse \<leftarrow> ents c cur; bse \<leftarrow> ents c best;
        Some (vtime_before (deadline cse) (deadline bse)) }) = Some better"
    using best(2) sub by (cases "best = NULL"; cases "cur = NULL") auto
  then obtain better where better: "(if best = NULL then Some True else if cur = NULL then Some False
      else do { cse \<leftarrow> ents c cur; bse \<leftarrow> ents c best;
        Some (vtime_before (deadline cse) (deadline bse)) }) = Some better" by blast
  let ?b = "if better then cur else best"
  have "pick_eevdf c = Some (if nr_running c = 1 then if cu \<noteq> None then curr c else ?first
      else if ?b = NULL then ?first else ?b)"
    unfolding pick_eevdf_def Let_def cu(1)
    using cel(1) fel best(1) better unfolding cur_def by (simp cong: if_cong)
  then show ?thesis using pf best(2) cur cu(2) by auto
qed

section \<open>Switching the current entity\<close>

text \<open>A runnable current entity that loses the processor is neither current nor in the tree
  until \<open>fair_requeue_preempted\<close> puts it back.\<close>

definition preempted :: "cfs_rq \<Rightarrow> addr set" where
  "preempted c = {a. a = curr c \<and> onq (ents c) a}"

lemma preempted_card:
  "finite (preempted c)" "card (preempted c) = (if onq (ents c) (curr c) then 1 else 0)"
proof -
  have "preempted c = (if onq (ents c) (curr c) then {curr c} else {})" by (auto simp: preempted_def)
  then show "finite (preempted c)" "card (preempted c) = (if onq (ents c) (curr c) then 1 else 0)"
    by simp_all
qed

lemma counts_preempt:
  assumes "counts L c t"
  shows "card (L \<union> preempted c) = card L + (if onq (ents c) (curr c) then 1 else 0)"
    "finite (L \<union> preempted c)" "(L \<union> preempted c) \<inter> addrs t = {}" "\<forall>a \<in> addrs t \<union> (L \<union> preempted c). onq (ents c) a"
proof -
  have L: "finite L" "L \<inter> addrs t = {}" "curr c \<notin> addrs t" "curr c \<notin> L" "\<forall>a \<in> addrs t \<union> L. onq (ents c) a"
    using assms by (simp_all add: counts_def)
  then have "L \<inter> preempted c = {}" by (auto simp: preempted_def)
  then show "card (L \<union> preempted c) = card L + (if onq (ents c) (curr c) then 1 else 0)"
    using L(1) by (simp add: card_Un_disjoint preempted_card)
  show "finite (L \<union> preempted c)" "(L \<union> preempted c) \<inter> addrs t = {}"
      "\<forall>a \<in> addrs t \<union> (L \<union> preempted c). onq (ents c) a"
    using L by (auto simp: preempted_card preempted_def)
qed

lemma no_current_ok:
  assumes inv: "cfs_inv L c t"
  shows "cfs_inv (L \<union> preempted c) (c\<lparr>curr := NULL\<rparr>) t"
proof -
  have n: "counts L c t" and q: "queue_ok c t" using inv by (simp_all add: cfs_inv_split)
  have "NULL \<notin> L \<union> preempted c" using NULL_not_queued [OF inv] onq_NULL [OF inv] by (auto simp: preempted_def)
  then have "counts (L \<union> preempted c) (c\<lparr>curr := NULL\<rparr>) t"
    using n counts_preempt [OF n] NULL_not_queued [OF inv] onq_NULL [OF inv] by (simp add: counts_def)
  with q show ?thesis by (simp add: cfs_inv_split)
qed

lemma set_next_entity_ok:
  assumes inv: "cfs_inv L c t" and a: "a \<in> addrs t"
  shows "\<exists>c' t'. set_next_entity c a = Some c' \<and> cfs_inv (L \<union> preempted c) c' t' \<and> curr c' = a
    \<and> addrs t' = addrs t - {a} \<and> dom (ents c') = dom (ents c) \<and> onq (ents c') a"
proof -
  have n: "counts L c t" and q: "queue_ok c t" using inv by (simp_all add: cfs_inv_split)
  have ac: "a \<noteq> curr c" "onq (ents c) a" "a \<notin> L" using n a by (auto simp: counts_def)
  obtain se where se: "ents c a = Some se" "on_rq se" using ac(2) by (auto simp: onq_def split: option.splits)
  obtain c1 t' where c1: "dequeue_entity_tree c a = Some c1" "queue_ok c1 t'" "same_own (ents c) (ents c1)"
      "addrs t' = addrs t - {a}" "length (inorder t) = Suc (length (inorder t'))" "nr_running c1 = nr_running c"
    using dequeue_tree_queue [OF q a] by blast
  have "a \<in> dom (ents c1)" using same_own_dom [OF c1(3)] se(1) by auto
  then obtain s1 where s1: "ents c1 a = Some s1" by blast
  let ?f = "\<lambda>se. se\<lparr>prev_sum_exec_runtime := sum_exec_runtime se\<rparr>"
  define c2 where "c2 = set_ents ((ents c1)(a \<mapsto> ?f s1)) c1"
  have c2: "se_upd a ?f c1 = Some c2" "queue_ok c2 t'"
    using queue_ok_upd [OF c1(2) s1, of ?f] by (simp_all add: c2_def)
  have on2: "onq (ents c2) x = onq (ents c) x" for x
    using same_own_reads(3) [OF c1(3), of x] s1 by (auto simp: c2_def onq_def)
  have d2: "dom (ents c2) = dom (ents c)" "nr_running c2 = nr_running c"
    using same_own_dom [OF c1(3)] s1 c1(6) by (auto simp: c2_def)
  have "a \<notin> L \<union> preempted c" using ac by (simp add: preempted_def)
  moreover have "nr_running c = of_nat (length (inorder t') + card (L \<union> preempted c) + 1)"
    using n c1(5) unfolding counts_preempt [OF n] by (simp add: counts_def add_ac)
  ultimately have "counts (L \<union> preempted c) (c2\<lparr>curr := a\<rparr>) t'"
    using counts_preempt(2-) [OF n] c1(4) ac(2) d2 se(1) by (auto simp: counts_def on2)
  then have "cfs_inv (L \<union> preempted c) (c2\<lparr>curr := a\<rparr>) t'" using c2(2) by (simp add: cfs_inv_split)
  moreover have "set_next_entity c a = Some (c2\<lparr>curr := a\<rparr>)"
    using se ac(1) c1(1) c2(1) by (simp add: set_next_entity_def)
  ultimately show ?thesis using ac(2) c1(4) d2(1) on2 by auto
qed

lemma put_prev_entity_ok:
  assumes inv: "cfs_inv L c t" and a: "a \<in> L \<or> a = curr c \<and> a \<noteq> NULL"
  shows "\<exists>c' t'. put_prev_entity now c a = Some c' \<and> cfs_inv (L - {a}) c' t'
    \<and> curr c' = (if a = curr c then NULL else curr c) \<and> dom (ents c') = dom (ents c)
    \<and> addrs t' = (if onq (ents c) a then insert a (addrs t) else addrs t)"
proof -
  have nt: "a \<notin> addrs t" using inv a by (auto simp: cfs_inv_def)
  obtain c1 where c1: "update_curr now c = Some c1" "cfs_inv L c1 t" "charged c c1"
    using update_curr_ok [OF inv] by blast
  have n: "counts L c1 t" and q: "queue_ok c1 t" using c1(2) by (simp_all add: cfs_inv_split)
  have k1: "curr c1 = curr c" "dom (ents c1) = dom (ents c)" "\<And>x. onq (ents c1) x = onq (ents c) x"
    using c1(3) by (simp_all add: charged_def)
  have nn: "NULL \<notin> addrs t \<union> L" "\<not> onq (ents c1) NULL"
    using NULL_not_queued [OF c1(2)] onq_NULL [OF c1(2)] by simp_all
  have "a \<in> dom (ents c1)" using n a k1(1) by (auto simp: counts_def onq_def split: option.splits)
  then obtain se where se: "ents c1 a = Some se" by blast
  show ?thesis
  proof (cases "on_rq se")
    case False
    then have nq: "\<not> onq (ents c1) a" using se by simp
    with n have "a \<notin> L" by (auto simp: counts_def)
    then have ac: "a = curr c" "\<not> onq (ents c1) a" using a nq by simp_all
    then have "counts (L - {a}) (c1\<lparr>curr := NULL\<rparr>) t"
      using n nn k1(1) by (auto simp: counts_def)
    then show ?thesis using False se c1(1) ac k1 q by (auto simp: put_prev_entity_def cfs_inv_split)
  next
    case True
    obtain q' t' where c2: "enqueue_entity_tree c1 a = Some ((avg_vruntime_add c1 se)\<lparr>tasks_timeline := q'\<rparr>)"
        "queue_ok ((avg_vruntime_add c1 se)\<lparr>tasks_timeline := q'\<rparr>) t'"
        "same_own (ents c1) (aug_data (rb_tree q'))" "addrs t' = insert a (addrs t)"
        "length (inorder t') = Suc (length (inorder t))"
      using enqueue_tree_queue [OF q se nt] by blast
    define c2 where "c2 = (avg_vruntime_add c1 se)\<lparr>tasks_timeline := q'\<rparr>"
    let ?c3 = "if curr c2 = a then c2\<lparr>curr := NULL\<rparr> else c2"
    have k2: "curr c2 = curr c1" "nr_running c2 = nr_running c1" "dom (ents c2) = dom (ents c1)"
      using same_own_dom [OF c2(3)] by (simp_all add: c2_def avg_vruntime_add_def)
    have on2: "onq (ents c2) x = onq (ents c1) x" for x
      using same_own_reads(3) [OF c2(3)] by (simp add: c2_def)
    have "counts (L - {a}) ?c3 t'"
    proof (cases "a = curr c1")
      case ac: True
      then have "L - {a} = L" "a \<noteq> NULL" using n nn True se by (auto simp: counts_def)
      then show ?thesis using n nn ac c2(4,5) True se k2 by (auto simp: counts_def on2)
    next
      case False
      then have aL: "a \<in> L" using a k1(1) by simp
      moreover have "finite L" using n by (simp add: counts_def)
      ultimately have "card L = Suc (card (L - {a}))" by (rule card.remove [rotated])
      then have "nr_running c2 = of_nat (length (inorder t') + card (L - {a})
          + (if onq (ents c2) (curr c2) then 1 else 0))"
        using n c2(5) k2 by (simp only: counts_def on2 add_Suc add_Suc_right)
      moreover have "\<forall>x \<in> addrs t' \<union> (L - {a}). onq (ents c2) x"
        using n c2(4) True se by (auto simp: counts_def on2)
      moreover have "(L - {a}) \<inter> addrs t' = {}" "curr c2 \<notin> addrs t' \<union> (L - {a})"
        using n c2(4) False k2 by (auto simp: counts_def)
      ultimately show ?thesis using n False k2 by (simp add: counts_def)
    qed
    then have "cfs_inv (L - {a}) ?c3 t'" using c2(2) by (simp add: cfs_inv_split c2_def)
    moreover have "put_prev_entity now c a = Some ?c3"
      using c1(1) se True c2(1) by (simp add: put_prev_entity_def c2_def)
    moreover have "onq (ents c) a" using k1(3) [of a] se True by simp
    ultimately show ?thesis using k1 k2 c2(4) by auto
  qed
qed

end
