(* ===== verification/Fair_Correct.thy ===== *)
theory Fair_Correct
  imports Fair_Hooks
begin

text \<open>
  The fair class as a whole: the states that the hooks can reach from an initialised run
  queue, under the calling conventions of \<open>sched.c\<close>, and what holds in all of them.
\<close>

section \<open>The hooks on a run queue\<close>

definition fair_ok :: "addr set \<Rightarrow> rq \<Rightarrow> bool" where
  "fair_ok L r \<longleftrightarrow> (\<exists>t. cfs_inv L (cfs r) t)"

text \<open>An entity that is neither current nor waiting: a thread that a wake-up, a fork or a
  steal may enqueue.\<close>

definition idle_entity :: "rq \<Rightarrow> addr \<Rightarrow> bool" where
  "idle_entity r a \<longleftrightarrow> a \<in> dom (ents (cfs r)) \<and> \<not> onq (ents (cfs r)) a \<and> a \<noteq> curr (cfs r)"

lemma fair_ok_fields [simp]:
  "fair_ok L (r\<lparr>clock := x\<rparr>) = fair_ok L r" "fair_ok L (r\<lparr>clock_task := x\<rparr>) = fair_ok L r"
  by (simp_all add: fair_ok_def)

lemma rq_clock_update_ok [simp]: "fair_ok L (rq_clock_update now r) = fair_ok L r"
  by (simp add: rq_clock_update_def)

lemma fair_enqueue_ok:
  "fair_ok L r \<Longrightarrow> idle_entity r a \<Longrightarrow> \<exists>r'. fair_enqueue r a = Some r' \<and> fair_ok L r'"
  using enqueue_entity_ok [of L "cfs r" _ a "clock_task r"]
  by (fastforce simp: fair_ok_def idle_entity_def fair_enqueue_def)

lemma fair_accept_stolen_ok:
  "fair_ok L r \<Longrightarrow> idle_entity r a \<Longrightarrow> \<exists>r'. fair_accept_stolen r a = Some r' \<and> fair_ok L r'"
  using enqueue_entity_ok [of L "cfs r" _ a "clock_task r"]
  by (fastforce simp: fair_ok_def idle_entity_def fair_accept_stolen_def)

lemma fair_block_current_ok:
  assumes "fair_ok L r" and "onq (ents (cfs r)) (curr (cfs r))"
  shows "\<exists>r'. fair_block_current r (curr (cfs r)) = Some r' \<and> fair_ok L r'"
proof -
  from assms(1) obtain t where "cfs_inv L (cfs r) t" by (auto simp: fair_ok_def)
  from dequeue_entity_ok [OF this, of "curr (cfs r)" "clock_task r"] assms(2) show ?thesis
    by (auto simp: fair_ok_def fair_block_current_def)
qed

lemma fair_steal_ok:
  assumes "fair_ok L r"
  shows "\<exists>a r'. fair_steal now r = Some (a, r') \<and> fair_ok L r'"
proof -
  from assms obtain t where inv: "cfs_inv L (cfs r) t" by (auto simp: fair_ok_def)
  let ?a = "pick_first_entity (cfs r)"
  show ?thesis
  proof (cases "?a = NULL")
    case True
    then show ?thesis using assms by (simp add: fair_steal_def)
  next
    case False
    then have "?a \<in> addrs t" using pick_first_ok [OF inv] by simp
    with False dequeue_entity_ok [OF inv, of ?a now] show ?thesis
      by (auto simp: fair_steal_def fair_ok_def rq_clock_update_def)
  qed
qed

lemma fair_requeue_preempted_ok:
  assumes "fair_ok L r" and "a \<in> L \<or> a = curr (cfs r) \<and> a \<noteq> NULL"
  shows "\<exists>r'. fair_requeue_preempted r a = Some r' \<and> fair_ok (L - {a}) r'"
proof -
  from assms(1) obtain t where "cfs_inv L (cfs r) t" by (auto simp: fair_ok_def)
  from put_prev_entity_ok [OF this assms(2), of "clock_task r"] show ?thesis
    by (auto simp: fair_ok_def fair_requeue_preempted_def)
qed

text \<open>After a pick the old current entity, if it is still runnable and was not picked again,
  is preempted.\<close>

definition preempted_by :: "rq \<Rightarrow> rq \<Rightarrow> addr set" where
  "preempted_by r r' = {a. a = curr (cfs r) \<and> onq (ents (cfs r)) a \<and> a \<noteq> curr (cfs r')}"

lemma fair_pick_ok:
  assumes "fair_ok L r"
  shows "\<exists>a r'. fair_pick r = Some (a, r') \<and> fair_ok (L \<union> preempted_by r r') r'"
proof -
  from assms obtain t where inv: "cfs_inv L (cfs r) t" by (auto simp: fair_ok_def)
  obtain c where c: "update_curr (clock_task r) (cfs r) = Some c" "cfs_inv L c t" "charged (cfs r) c"
    using update_curr_ok [OF inv] by blast
  have same: "curr c = curr (cfs r)" "\<And>x. onq (ents c) x = onq (ents (cfs r)) x"
    using c(3) by (simp_all add: charged_def)
  have pr: "preempted_by r r' = (if curr (cfs r') = curr c then {} else preempted c)" for r'
    using same by (auto simp: preempted_by_def preempted_def)
  obtain x where x: "pick_eevdf c = Some x" "x = NULL \<or> x \<in> addrs t \<or> x = curr c \<and> onq (ents c) x"
    using pick_eevdf_ok [OF c(2)] by blast
  have "curr c \<notin> addrs t" using c(2) by (simp add: cfs_inv_def)
  then consider "nr_running c = 0" | "nr_running c \<noteq> 0" "x = NULL"
    | "nr_running c \<noteq> 0" "x \<noteq> NULL" "x = curr c" "onq (ents c) x"
    | "nr_running c \<noteq> 0" "x \<noteq> NULL" "x \<noteq> curr c" "x \<in> addrs t" using x(2) by blast
  then show ?thesis
  proof cases
    case 1
    have "cfs_inv (L \<union> preempted_by r (r\<lparr>cfs := c\<lparr>curr := NULL\<rparr>\<rparr>)) (c\<lparr>curr := NULL\<rparr>) t"
    proof (cases "curr c = NULL")
      case True
      then have "preempted c = {}" using onq_NULL [OF c(2)] by (auto simp: preempted_def)
      with True show ?thesis using no_current_ok [OF c(2)] by (simp add: pr)
    next
      case False
      then show ?thesis using no_current_ok [OF c(2)] by (simp add: pr)
    qed
    with 1 c(1) show ?thesis by (auto simp: fair_pick_def fair_ok_def)
  next
    case 2
    then show ?thesis using c x(1) by (auto simp: fair_pick_def fair_ok_def pr)
  next
    case 3
    then obtain se where se: "ents c x = Some se" by (auto simp: onq_def split: option.splits)
    obtain c' where c': "se_upd x (\<lambda>x. x\<lparr>exec_start := clock_task r\<rparr>) c = Some c'" "cfs_inv L c' t" "curr c' = curr c"
      using se_upd_ok [OF c(2) se, of "\<lambda>x. x\<lparr>exec_start := clock_task r\<rparr>"] by simp
    have "fair_pick r = Some (x, r\<lparr>cfs := c'\<rparr>)" using 3 c(1) x(1) c'(1) by (simp add: fair_pick_def)
    moreover have "fair_ok (L \<union> preempted_by r (r\<lparr>cfs := c'\<rparr>)) (r\<lparr>cfs := c'\<rparr>)"
      using c'(2,3) by (auto simp: fair_ok_def pr)
    ultimately show ?thesis by blast
  next
    case 4
    obtain c1 t' where c1: "set_next_entity c x = Some c1" "cfs_inv (L \<union> preempted c) c1 t'" "curr c1 = x"
        "onq (ents c1) x" using set_next_entity_ok [OF c(2) 4(4)] by blast
    then obtain se where se: "ents c1 x = Some se" by (auto simp: onq_def split: option.splits)
    obtain c' where c': "se_upd x (\<lambda>x. x\<lparr>exec_start := clock_task r\<rparr>) c1 = Some c'"
        "cfs_inv (L \<union> preempted c) c' t'" "curr c' = x"
      using se_upd_ok [OF c1(2) se, of "\<lambda>x. x\<lparr>exec_start := clock_task r\<rparr>"] c1(3) by simp
    have "fair_pick r = Some (x, r\<lparr>cfs := c'\<rparr>)" using 4 c(1) x(1) c1(1) c'(1) by (simp add: fair_pick_def)
    moreover have "fair_ok (L \<union> preempted_by r (r\<lparr>cfs := c'\<rparr>)) (r\<lparr>cfs := c'\<rparr>)"
      using c'(2,3) 4(3) by (auto simp: fair_ok_def pr)
    ultimately show ?thesis by blast
  qed
qed

lemma fair_entity_tick_ok:
  assumes "fair_ok L r"
  shows "\<exists>b r'. fair_entity_tick r = Some (b, r') \<and> fair_ok L r'"
proof -
  from assms obtain t where inv: "cfs_inv L (cfs r) t" by (auto simp: fair_ok_def)
  obtain c where c: "update_curr (clock_task r) (cfs r) = Some c" "cfs_inv L c t"
    using update_curr_ok [OF inv] by blast
  obtain x where x: "pick_eevdf c = Some x" "x = NULL \<or> x \<in> addrs t \<or> x = curr c \<and> onq (ents c) x"
    using pick_eevdf_ok [OF c(2)] by blast
  have "x \<in> dom (ents c)" if "x \<noteq> NULL" "x \<noteq> curr c"
    using that x(2) c(2) by (auto simp: cfs_inv_def tree_ok_def)
  then have "case fair_entity_tick r of Some (b, r') \<Rightarrow> r' = r\<lparr>cfs := c\<rparr> | None \<Rightarrow> False"
    using cfs_inv_curr [OF c(2)] c(1) x(1) by (auto simp: fair_entity_tick_def Let_def)
  with c(2) show ?thesis by (auto simp: fair_ok_def split: option.splits)
qed

lemma fair_reweight_current_ok:
  assumes "fair_ok L r"
  shows "\<exists>r'. fair_reweight_current r n p s = Some r' \<and> fair_ok L r'"
proof (cases "curr (cfs r) = NULL")
  case True
  then show ?thesis using assms by (simp add: fair_reweight_current_def)
next
  case False
  from assms obtain t where inv: "cfs_inv L (cfs r) t" by (auto simp: fair_ok_def)
  obtain c where c: "update_curr (clock_task r) (cfs r) = Some c" "cfs_inv L c t" "curr c = curr (cfs r)"
    using update_curr_ok [OF inv, of "clock_task r"] unfolding charged_def by blast
  obtain se where se: "ents c (curr c) = Some se" using cfs_inv_curr [OF c(2)] c(3) False by auto
  define f where "f = (\<lambda>se :: sched_entity.
             let se = se\<lparr>nice := n, policy := p\<rparr>;
                 se = (if s \<noteq> -1 then se\<lparr>slice := s\<rparr> else se);
                 se = set_load_weight se n
             in se\<lparr>deadline := vruntime se + calc_delta_fair (slice_of se) se\<rparr>)"
  have on: "on_rq (f se) = on_rq se" by (simp add: f_def Let_def)
  obtain c1 where c1: "se_upd (curr c) f c = Some c1" "cfs_inv L c1 t"
    using charge_curr [OF c(2) se, of f] on by blast
  have "fair_reweight_current r n p s = Some (r\<lparr>cfs := c1\<rparr>)"
    using False c(1,3) c1(1) by (simp add: fair_reweight_current_def f_def Let_def)
  then show ?thesis using c1(2) by (auto simp: fair_ok_def)
qed

lemma fair_yield_current_ok:
  assumes "fair_ok L r"
  shows "\<exists>r'. fair_yield_current r = Some r' \<and> fair_ok L r'"
proof (cases "curr (cfs r) = NULL")
  case True
  then show ?thesis using assms by (simp add: fair_yield_current_def)
next
  case False
  from assms obtain t where inv: "cfs_inv L (cfs r) t" by (auto simp: fair_ok_def)
  obtain c where c: "update_curr (clock_task r) (cfs r) = Some c" "cfs_inv L c t" "curr c = curr (cfs r)"
    using update_curr_ok [OF inv, of "clock_task r"] unfolding charged_def by blast
  obtain se where se: "ents c (curr c) = Some se" using cfs_inv_curr [OF c(2)] c(3) False by auto
  let ?f = "\<lambda>se. let vslice = calc_delta_fair (slice_of se) se; se = se\<lparr>vruntime := vruntime se + vslice\<rparr>
      in se\<lparr>deadline := vruntime se + vslice\<rparr>"
  obtain c1 where c1: "se_upd (curr c) ?f c = Some c1" "cfs_inv L c1 t"
    using charge_curr [OF c(2) se, of ?f] by (auto simp: Let_def)
  obtain c2 where c2: "update_min_vruntime c1 = Some c2" "floor_moved c1 c2"
    using update_min_vruntime_ok [OF c1(2)] by blast
  have "fair_yield_current r = Some (r\<lparr>cfs := c2\<rparr>)"
    using False c(1,3) c1(1) c2(1) by (simp add: fair_yield_current_def Let_def)
  then show ?thesis using floor_moved_inv [OF c1(2) c2(2)] by (auto simp: fair_ok_def)
qed

section \<open>Reachable run queues\<close>

text \<open>A run queue is initialised while none of its entities is enqueued; the memory of the
  entities and of their nodes is allocated.\<close>

definition entities_ready :: "cfs_rq \<Rightarrow> bool" where
  "entities_ready c \<longleftrightarrow> (\<forall>a \<in> dom (ents c). a \<noteq> NULL \<and> aligned a \<and> a \<in> dom (nodes (timeline c))
     \<and> \<not> onq (ents c) a)"

lemma cfs_rq_init_ok:
  assumes "entities_ready c"
  shows "cfs_inv {} (cfs_rq_init c) Leaf"
proof -
  have "\<not> onq (ents c) NULL" using assms by (auto simp: entities_ready_def onq_def split: option.splits)
  then show ?thesis using assms
    by (simp add: entities_ready_def cfs_inv_def cfs_rq_init_def tree_ok_def cached_ok_def represents_def
        hd_or_NULL_def rb_ok_def)
qed

text \<open>The calls \<open>sched.c\<close> makes: the set holds the preempted entities that
  \<open>post_switch\<close> has not yet put back.\<close>

inductive fair_reach :: "addr set \<Rightarrow> rq \<Rightarrow> bool" where
  Init: "entities_ready (cfs r) \<Longrightarrow> fair_reach {} (r\<lparr>cfs := cfs_rq_init (cfs r)\<rparr>)"
| Clock: "fair_reach L r \<Longrightarrow> fair_reach L (rq_clock_update now r)"
| Enqueue: "fair_reach L r \<Longrightarrow> idle_entity r a \<Longrightarrow> fair_enqueue r a = Some r' \<Longrightarrow> fair_reach L r'"
| Accept: "fair_reach L r \<Longrightarrow> idle_entity r a \<Longrightarrow> fair_accept_stolen r a = Some r' \<Longrightarrow> fair_reach L r'"
| Pick: "fair_reach L r \<Longrightarrow> fair_pick r = Some (a, r') \<Longrightarrow> fair_reach (L \<union> preempted_by r r') r'"
| Block: "fair_reach L r \<Longrightarrow> onq (ents (cfs r)) (curr (cfs r)) \<Longrightarrow>
    fair_block_current r (curr (cfs r)) = Some r' \<Longrightarrow> fair_reach L r'"
| Requeue: "fair_reach L r \<Longrightarrow> a \<in> L \<or> a = curr (cfs r) \<and> a \<noteq> NULL \<Longrightarrow>
    fair_requeue_preempted r a = Some r' \<Longrightarrow> fair_reach (L - {a}) r'"
| Steal: "fair_reach L r \<Longrightarrow> fair_steal now r = Some (a, r') \<Longrightarrow> fair_reach L r'"
| Tick: "fair_reach L r \<Longrightarrow> sched_tick now r = Some (b, r') \<Longrightarrow> fair_reach L r'"
| Reweight: "fair_reach L r \<Longrightarrow> fair_reweight_current r n p s = Some r' \<Longrightarrow> fair_reach L r'"
| Yield: "fair_reach L r \<Longrightarrow> fair_yield_current r = Some r' \<Longrightarrow> fair_reach L r'"

lemma sched_tick_ok: "fair_ok L r \<Longrightarrow> \<exists>b r'. sched_tick now r = Some (b, r') \<and> fair_ok L r'"
  using fair_entity_tick_ok [of L "rq_clock_update now r"] by (simp add: sched_tick_def)

lemma fair_reach_ok: "fair_reach L r \<Longrightarrow> fair_ok L r"
proof (induction rule: fair_reach.induct)
  case (Init r)
  then show ?case using cfs_rq_init_ok by (auto simp: fair_ok_def)
next
  case (Clock L r now)
  then show ?case by simp
next
  case (Enqueue L r a r')
  then show ?case using fair_enqueue_ok [of L r a] by simp
next
  case (Accept L r a r')
  then show ?case using fair_accept_stolen_ok [of L r a] by simp
next
  case (Pick L r a r')
  then show ?case using fair_pick_ok [of L r] by simp
next
  case (Block L r r')
  then show ?case using fair_block_current_ok [of L r] by simp
next
  case (Requeue L r a r')
  then show ?case using fair_requeue_preempted_ok [of L r a] by simp
next
  case (Steal L r now a r')
  then show ?case using fair_steal_ok [of L r now] by simp
next
  case (Tick L r now b r')
  then show ?case using sched_tick_ok [of L r now] by simp
next
  case (Reweight L r n p s r')
  then show ?case using fair_reweight_current_ok [of L r n p s] by simp
next
  case (Yield L r r')
  then show ?case using fair_yield_current_ok [of L r] by simp
qed

end
