(* ===== verification/Fair_Pick.thy ===== *)
theory Fair_Pick
  imports Fair_Correct
begin

text \<open>
  What the pick computes. Virtual times are read relative to the floor, as signed numbers,
  and the load is bounded so that the products fit 64 bits; then the sums are the true
  sums, eligibility is a comparison with the weighted mean, and \<open>pick_eevdf\<close> returns the
  eligible entity with the earliest deadline.
\<close>

section \<open>The sums as integers\<close>

definition key :: "cfs_rq \<Rightarrow> addr \<Rightarrow> int" where
  "key c a = sint (vr (ents c) a - min_vruntime c)"

definition members :: "cfs_rq \<Rightarrow> rbt \<Rightarrow> addr list" where
  "members c t = inorder t @ (if onq (ents c) (curr c) then [curr c] else [])"

definition total_weight :: "cfs_rq \<Rightarrow> rbt \<Rightarrow> int" where
  "total_weight c t = (\<Sum>a\<leftarrow>members c t. uint (wt (ents c) a))"

definition weighted_sum :: "cfs_rq \<Rightarrow> rbt \<Rightarrow> int" where
  "weighted_sum c t = (\<Sum>a\<leftarrow>members c t. key c a * uint (wt (ents c) a))"

text \<open>The spread of the virtual times times the load fits a signed 64-bit number.\<close>

definition fits :: "int \<Rightarrow> cfs_rq \<Rightarrow> rbt \<Rightarrow> bool" where
  "fits K c t \<longleftrightarrow> 0 \<le> K \<and> K < 2 ^ 62 \<and> (\<forall>a \<in> set (members c t). \<bar>key c a\<bar> \<le> K \<and> 0 < uint (wt (ents c) a))
     \<and> total_weight c t < 2 ^ 63 \<and> K * total_weight c t < 2 ^ 63 - total_weight c t"

lemma sum_list_bound:
  assumes "\<forall>a \<in> set xs. \<bar>f a\<bar> \<le> K \<and> 0 \<le> (g a :: int)"
  shows "\<bar>\<Sum>a\<leftarrow>xs. f a * g a\<bar> \<le> K * (\<Sum>a\<leftarrow>xs. g a)"
  using assms
proof (induction xs)
  case (Cons a xs)
  have "\<bar>f a * g a\<bar> \<le> K * g a" using Cons.prems by (simp add: abs_mult mult_right_mono)
  moreover have "\<bar>\<Sum>a\<leftarrow>xs. f a * g a\<bar> \<le> K * (\<Sum>a\<leftarrow>xs. g a)" using Cons by simp
  ultimately show ?case by (simp add: algebra_simps)
qed simp

lemma total_weight_nonneg: "0 \<le> total_weight c t"
  by (auto simp: total_weight_def intro!: sum_list_nonneg)

lemma weighted_sum_bound: "fits K c t \<Longrightarrow> \<bar>weighted_sum c t\<bar> \<le> K * total_weight c t"
  unfolding weighted_sum_def total_weight_def fits_def by (rule sum_list_bound) (simp add: less_imp_le)

lemma fits_range:
  assumes "fits K c t" and "\<bar>x\<bar> \<le> K * total_weight c t"
  shows "- (2 ^ 63) \<le> x" "x < 2 ^ 63" "- (2 ^ 63) \<le> x - (total_weight c t - 1)"
  using assms total_weight_nonneg [of c t] unfolding fits_def abs_le_iff by linarith+

lemma wsum_int: "wsum e m xs = word_of_int (\<Sum>a\<leftarrow>xs. sint (vr e a - m) * uint (wt e a))"
  by (induction xs) simp_all

lemma lsum_int: "lsum e xs = word_of_int (\<Sum>a\<leftarrow>xs. uint (wt e a))"
  by (induction xs) simp_all

lemma sums_with_curr_int:
  assumes inv: "cfs_inv L c t" and fits: "fits K c t"
  shows "\<exists>avg ld. sums_with_curr c = Some (avg, ld) \<and> sint avg = weighted_sum c t \<and> sint ld = total_weight c t"
proof -
  let ?n = "\<Sum>a\<leftarrow>members c t. sint (vr (ents c) a - min_vruntime c) * uint (wt (ents c) a)"
  have sums: "avg_vruntime c = wsum (ents c) (min_vruntime c) (inorder t)" "avg_load c = lsum (ents c) (inorder t)"
    using inv by (simp_all add: cfs_inv_def)
  have "sums_with_curr c = Some (wsum (ents c) (min_vruntime c) (members c t), lsum (ents c) (members c t))"
    using sums cfs_inv_curr [OF inv] onq_NULL [OF inv]
    by (cases "curr c = NULL") (auto simp: sums_with_curr_def members_def entity_key_def)
  moreover have "sint (wsum (ents c) (min_vruntime c) (members c t)) = weighted_sum c t"
    unfolding wsum_int weighted_sum_def key_def [symmetric]
    using fits_range [OF fits weighted_sum_bound [OF fits]]
    by (intro sint_of_int_range) (simp_all add: weighted_sum_def)
  moreover have "sint (lsum (ents c) (members c t)) = total_weight c t"
    unfolding lsum_int total_weight_def [symmetric]
    using fits total_weight_nonneg [of c t] by (intro sint_of_int_range) (simp_all add: fits_def)
  ultimately show ?thesis by blast
qed

lemma vruntime_eligible_int:
  assumes inv: "cfs_inv L c t" and fits: "fits K c t" and v: "\<bar>sint (v - min_vruntime c)\<bar> \<le> K"
  shows "vruntime_eligible c v = Some (sint (v - min_vruntime c) * total_weight c t \<le> weighted_sum c t)"
proof -
  obtain avg ld where s: "sums_with_curr c = Some (avg, ld)" "sint avg = weighted_sum c t"
      "sint ld = total_weight c t" using sums_with_curr_int [OF inv fits] by blast
  let ?k = "sint (v - min_vruntime c)"
  have "\<bar>?k * total_weight c t\<bar> \<le> K * total_weight c t"
    using v total_weight_nonneg [of c t] by (simp add: abs_mult mult_right_mono)
  note r = fits_range [OF fits this]
  have "(v - min_vruntime c) * ld = word_of_int (?k * total_weight c t)"
    by (simp add: s(3) [symmetric])
  then have "sint ((v - min_vruntime c) * ld) = ?k * total_weight c t"
    using sint_of_int_range [OF r(1,2)] by (simp only:)
  then show ?thesis using s(1,2) by (simp add: vruntime_eligible_def word_sle_eq)
qed

section \<open>The mean\<close>

text \<open>Truncating division, after the adjustment for negative sums, is the floor.\<close>

lemma sdiv_floor:
  assumes "0 < (d :: int)"
  shows "(if n < 0 then n - (d - 1) else n) sdiv d = n div d"
proof (cases "n < 0")
  case True
  have "(n - (d - 1)) sdiv d = - ((d - 1 - n) div d)"
    using True assms by (simp add: signed_divide_int_def sgn_if)
  also have "d - 1 - n = (d - 1 - n mod d) + (- (n div d)) * d"
    by (simp add: minus_div_mult_eq_mod [symmetric])
  also have "((d - 1 - n mod d) + (- (n div d)) * d) div d = - (n div d) + (d - 1 - n mod d) div d"
    using assms by (intro div_mult_self1) simp
  also have "(d - 1 - n mod d) div d = 0" using pos_mod_bound [OF assms, of n] pos_mod_sign [OF assms, of n] assms
    by (intro div_pos_pos_trivial) linarith+
  finally show ?thesis using True by simp
next
  case False
  then show ?thesis using assms by (simp add: signed_divide_int_def sgn_if)
qed

lemma le_div_int: "0 < (d :: int) \<Longrightarrow> k \<le> n div d \<longleftrightarrow> k * d \<le> n"
proof
  assume d: "0 < d" and "k \<le> n div d"
  then have "k * d \<le> (n div d) * d" by (simp add: mult_right_mono)
  also have "\<dots> \<le> n" using d pos_mod_sign [OF d, of n] by (simp add: minus_mod_eq_div_mult [symmetric])
  finally show "k * d \<le> n" .
next
  assume d: "0 < d" and "k * d \<le> n"
  then have "k * d div d \<le> n div d" by (intro zdiv_mono1)
  with d show "k \<le> n div d" by simp
qed

lemma total_weight_pos:
  assumes "fits K c t" and "members c t \<noteq> []"
  shows "0 < total_weight c t"
proof -
  from assms(2) obtain a xs where m: "members c t = a # xs" by (cases "members c t") auto
  then have "0 < uint (wt (ents c) a)" using assms(1) by (simp add: fits_def)
  moreover have "0 \<le> (\<Sum>a\<leftarrow>xs. uint (wt (ents c) a))" by (auto intro!: sum_list_nonneg)
  ultimately show ?thesis by (simp add: total_weight_def m)
qed

text \<open>The virtual time of the queue is the floor of the weighted mean.\<close>

definition mean_key :: "cfs_rq \<Rightarrow> rbt \<Rightarrow> int" where
  "mean_key c t = weighted_sum c t div total_weight c t"

lemma avg_vruntime_V_int:
  assumes inv: "cfs_inv L c t" and fits: "fits K c t" and ne: "members c t \<noteq> []"
  shows "avg_vruntime_V c = Some (min_vruntime c + word_of_int (mean_key c t))"
proof -
  obtain avg ld where s: "sums_with_curr c = Some (avg, ld)" "sint avg = weighted_sum c t"
      "sint ld = total_weight c t" using sums_with_curr_int [OF inv fits] by blast
  note r = fits_range [OF fits weighted_sum_bound [OF fits]]
  have W: "0 < total_weight c t" by (rule total_weight_pos [OF fits ne])
  have avg: "avg - (ld - 1) = word_of_int (sint avg - (sint ld - 1))" by simp
  have "sint (avg - (ld - 1)) = weighted_sum c t - (total_weight c t - 1)" if "weighted_sum c t < 0"
  proof -
    have "weighted_sum c t - (total_weight c t - 1) < 2 ^ 63" using that W by simp
    with avg show ?thesis using sint_of_int_range [OF r(3)] by (simp only: s(2,3))
  qed
  then have "sint (if avg <s 0 then avg - (ld - 1) else avg)
      = (if weighted_sum c t < 0 then weighted_sum c t - (total_weight c t - 1) else weighted_sum c t)"
    using s(2) by (simp add: word_sless_alt)
  then show ?thesis using s W sdiv_floor [OF W, of "weighted_sum c t"]
    by (simp add: avg_vruntime_V_def Let_def word_sle_eq mean_key_def)
qed

lemma eligible_mean:
  assumes inv: "cfs_inv L c t" and fits: "fits K c t" and a: "a \<in> set (members c t)"
  shows "entity_eligible c a = Some (key c a \<le> mean_key c t)"
proof -
  have "members c t \<noteq> []" using a by auto
  then have W: "0 < total_weight c t" by (rule total_weight_pos [OF fits])
  have k: "\<bar>sint (vr (ents c) a - min_vruntime c)\<bar> \<le> K" using fits a by (simp add: fits_def key_def)
  have "onq (ents c) a" using a inv by (auto simp: members_def cfs_inv_def addrs_def split: if_splits)
  then obtain se where se: "ents c a = Some se" by (auto simp: onq_def split: option.splits)
  have "key c a * total_weight c t \<le> weighted_sum c t \<longleftrightarrow> key c a \<le> mean_key c t"
    using W by (simp add: mean_key_def le_div_int)
  then show ?thesis using vruntime_eligible_int [OF inv fits k] se
    by (simp add: entity_eligible_def key_def)
qed

text \<open>Not every entity is ahead of the mean.\<close>

lemma some_eligible:
  assumes fits: "fits K c t" and ne: "members c t \<noteq> []"
  shows "\<exists>a \<in> set (members c t). key c a \<le> mean_key c t"
proof (rule ccontr)
  assume "\<not> ?thesis"
  then have late: "\<forall>a \<in> set (members c t). mean_key c t + 1 \<le> key c a" by auto
  have W: "0 < total_weight c t" by (rule total_weight_pos [OF fits ne])
  have "(mean_key c t + 1) * (\<Sum>a\<leftarrow>xs. uint (wt (ents c) a)) \<le> (\<Sum>a\<leftarrow>xs. key c a * uint (wt (ents c) a))"
    if "set xs \<subseteq> set (members c t)" for xs using that
  proof (induction xs)
    case (Cons a xs)
    have "(mean_key c t + 1) * uint (wt (ents c) a) \<le> key c a * uint (wt (ents c) a)"
      using late Cons.prems by (intro mult_right_mono) auto
    with Cons show ?case by (simp add: algebra_simps)
  qed simp
  from this [of "members c t"] have "(mean_key c t + 1) * total_weight c t \<le> weighted_sum c t"
    by (simp add: total_weight_def weighted_sum_def)
  then have "mean_key c t + 1 \<le> mean_key c t" using W unfolding mean_key_def
    by (simp only: le_div_int)
  then show False by simp
qed

section \<open>The search\<close>

definition base :: "cfs_rq \<Rightarrow> u64" where
  "base c = min_vruntime c - 2 ^ 62"

lemma vkey_base:
  assumes "\<bar>sint (v - min_vruntime c)\<bar> \<le> K" and "K < 2 ^ 62"
  shows "int (vkey (base c) v) = sint (v - min_vruntime c) + 2 ^ 62"
proof -
  have "v - base c = word_of_int (sint (v - min_vruntime c) + 2 ^ 62)"
    by (simp add: base_def)
  moreover have "uint (word_of_int i :: u64) = i" if "0 \<le> i" "i < 2 ^ 63" for i
    using that by (simp add: uint_word_of_int take_bit_int_eq_self)
  moreover have "0 \<le> sint (v - min_vruntime c) + 2 ^ 62" "sint (v - min_vruntime c) + 2 ^ 62 < 2 ^ 63"
    using assms unfolding abs_le_iff by simp_all
  ultimately have "uint (v - base c) = sint (v - min_vruntime c) + 2 ^ 62" by metis
  then show ?thesis by (simp add: vkey_def)
qed

lemma kmin_le_member: "a \<in> addrs t \<Longrightarrow> kmin b e t \<le> vrk b e a"
  by (induction t) auto

lemma kmin_attained: "t \<noteq> Leaf \<Longrightarrow> agg b e t \<Longrightarrow> \<exists>a \<in> addrs t. kmin b e t = vrk b e a"
proof (induction t)
  case (Node l x k r)
  have "vrk b e x < 2 ^ 63" using Node.prems(2) by (auto simp: agg1_def vrk_def)
  then have "l = Leaf \<Longrightarrow> min (vrk b e x) (kmin b e l) = vrk b e x"
      "r = Leaf \<Longrightarrow> min (vrk b e x) (kmin b e r) = vrk b e x" by auto
  with Node show ?case
    by (cases "l = Leaf"; cases "r = Leaf") (auto simp: min_def)
qed simp

text \<open>The aggregate of a subtree is the virtual run time of its least member.\<close>

lemma subtree_min:
  assumes fits: "fits K c t0" and sub: "addrs t \<subseteq> set (members c t0)" and agg: "agg (base c) (ents c) t"
    and ne: "t \<noteq> Leaf"
  shows "\<exists>se a. ents c (ptr t) = Some se \<and> a \<in> addrs t \<and> se_min_vruntime se = vr (ents c) a
    \<and> (\<forall>x \<in> addrs t. key c a \<le> key c x)"
proof -
  let ?b = "base c" and ?e = "ents c"
  obtain se where se: "?e (ptr t) = Some se" "vkey ?b (se_min_vruntime se) = kmin ?b ?e t" "kmin ?b ?e t < 2 ^ 63"
    using agg_ptr [OF agg ne] by blast
  obtain a where a: "a \<in> addrs t" "kmin ?b ?e t = vrk ?b ?e a" using kmin_attained [OF ne agg] by blast
  have vk: "vrk ?b ?e x = vkey ?b (vr ?e x)" if "vrk ?b ?e x < 2 ^ 63" for x
    using that by (auto simp: vrk_def vr_def split: option.splits)
  have ik: "int (vkey ?b (vr ?e x)) = key c x + 2 ^ 62" if "x \<in> addrs t" for x
    using vkey_base [of "vr ?e x" c K] fits sub that by (auto simp: fits_def key_def)
  have "key c a \<le> key c x" if x: "x \<in> addrs t" for x
  proof (cases "?e x")
    case None
    then have "wt ?e x = 0" by (simp add: wt_def)
    moreover have "0 < uint (wt ?e x)" using fits sub x by (auto simp: fits_def)
    ultimately show ?thesis by simp
  next
    case (Some xe)
    have "vkey ?b (vr ?e a) \<le> vkey ?b (vr ?e x)"
      using kmin_le_member [OF x, of ?b ?e] a(2) se(3) vk [of a] Some by (simp add: vrk_def vr_def)
    then show ?thesis using ik [OF a(1)] ik [OF x] by simp
  qed
  moreover have "se_min_vruntime se = vr ?e a" using se(2,3) a(2) vk [of a] by (simp add: vkey_inj)
  ultimately show ?thesis using se(1) a(1) by blast
qed

lemma eevdf_search_first:
  assumes inv: "cfs_inv L c t0" and fits: "fits K c t0"
  shows "represents (timeline c) (plug fs t) \<Longrightarrow> addrs t \<subseteq> set (members c t0) \<Longrightarrow> agg (base c) (ents c) t
    \<Longrightarrow> eevdf_search c (ptr t) = Some (hd_or_NULL (filter (\<lambda>a. key c a \<le> mean_key c t0) (inorder t)))"
proof (induction t arbitrary: fs)
  case Leaf
  then show ?case by (simp add: eevdf_search.simps hd_or_NULL_def)
next
  case (Node l a k r)
  let ?el = "\<lambda>a. key c a \<le> mean_key c t0"
  note cell = represents_cell [OF Node.prems(1)]
  have nn: "a \<noteq> NULL" by (rule cell_NULL [OF cell])
  have ll: "ld rb_left a (timeline c) = Some (ptr l)" "ld rb_right a (timeline c) = Some (ptr r)"
    using ld_cell [OF cell] by simp_all
  have IHl: "eevdf_search c (ptr l) = Some (hd_or_NULL (filter ?el (inorder l)))"
    using Node.IH(1) [of "InL a k r # fs"] Node.prems by simp
  have IHr: "eevdf_search c (ptr r) = Some (hd_or_NULL (filter ?el (inorder r)))"
    using Node.IH(2) [of "InR l a k # fs"] Node.prems by simp
  have el: "entity_eligible c a = Some (?el a)"
    using eligible_mean [OF inv fits, of a] Node.prems(2) by simp
  have lel: "(if ptr l = NULL then Some False
      else do { lse \<leftarrow> ents c (ptr l); vruntime_eligible c (se_min_vruntime lse) })
      = Some (filter ?el (inorder l) \<noteq> [])"
  proof (cases "l = Leaf")
    case False
    have "0 < uint (wt (ents c) (ptr l))" using ptr_in_addrs [OF False] Node.prems(2) fits by (auto simp: fits_def)
    then have nl: "ptr l \<noteq> NULL" using cfs_inv_NULL [OF inv] by (auto simp: wt_def)
    obtain se m where m: "ents c (ptr l) = Some se" "m \<in> addrs l" "se_min_vruntime se = vr (ents c) m"
        "\<forall>x \<in> addrs l. key c m \<le> key c x"
      using subtree_min [OF fits, of l] Node.prems(2,3) False by auto
    have "m \<in> set (members c t0)" using m(2) Node.prems(2) by auto
    then have "vruntime_eligible c (vr (ents c) m) = Some (?el m)"
      using eligible_mean [OF inv fits, of m] by (auto simp: entity_eligible_def vr_def split: option.splits)
    moreover have "?el m \<longleftrightarrow> filter ?el (inorder l) \<noteq> []"
      using m(2,4) by (force simp: filter_empty_conv addrs_def)
    ultimately show ?thesis using nl m(1,3) by simp
  qed simp
  have "eevdf_search c a = (if filter ?el (inorder l) \<noteq> [] then eevdf_search c (ptr l)
      else if ?el a then Some a else eevdf_search c (ptr r))"
    using nn ll el lel by (subst eevdf_search.simps) simp
  then show ?case using IHl IHr by (cases "filter ?el (inorder l)") (simp_all add: hd_or_NULL_def)
qed

section \<open>The pick\<close>

definition dl :: "cfs_rq \<Rightarrow> addr \<Rightarrow> u64" where
  "dl c a = (case ents c a of None \<Rightarrow> 0 | Some se \<Rightarrow> deadline se)"

lemma members_onq: "cfs_inv L c t \<Longrightarrow> a \<in> set (members c t) \<Longrightarrow> onq (ents c) a"
  by (auto simp: members_def cfs_inv_def addrs_def split: if_splits)

lemma members_nonnull: "cfs_inv L c t \<Longrightarrow> a \<in> set (members c t) \<Longrightarrow> a \<noteq> NULL"
  using members_onq [of L c t a] onq_NULL [of L c t] by auto

lemma members_dom: "cfs_inv L c t \<Longrightarrow> a \<in> set (members c t) \<Longrightarrow> \<exists>se. ents c a = Some se \<and> dl c a = deadline se"
  using members_onq [of L c t a] by (auto simp: onq_def dl_def split: option.splits)

text \<open>The best entity of the tree is the first eligible one in deadline order.\<close>

lemma best_of_tree:
  assumes inv: "cfs_inv L c t" and fits: "fits K c t" and agg: "agg (base c) (ents c) t"
  shows "\<exists>fel. (if pick_first_entity c = NULL then Some False else entity_eligible c (pick_first_entity c)) = Some fel
    \<and> (if fel then Some (pick_first_entity c) else eevdf_search c (rb_root (timeline c)))
      = Some (hd_or_NULL (filter (\<lambda>a. key c a \<le> mean_key c t) (inorder t)))"
proof -
  have sub: "addrs t \<subseteq> set (members c t)" by (auto simp: members_def addrs_def)
  have T: "represents (timeline c) (plug [] t)" using inv by (simp add: cfs_inv_def tree_ok_def cached_ok_def)
  then have "rb_root (timeline c) = ptr t" by (simp add: represents_def)
  then have search: "eevdf_search c (rb_root (timeline c))
      = Some (hd_or_NULL (filter (\<lambda>a. key c a \<le> mean_key c t) (inorder t)))"
    using eevdf_search_first [OF inv fits T sub agg] by simp
  show ?thesis
  proof (cases "inorder t")
    case Nil
    then show ?thesis using search pick_first_ok(1) [OF inv]
      by (intro exI [of _ False]) (simp add: hd_or_NULL_def)
  next
    case (Cons a xs)
    then have m: "a \<in> set (members c t)" and f: "pick_first_entity c = a"
      using pick_first_ok(1) [OF inv] by (simp_all add: members_def hd_or_NULL_def)
    show ?thesis using search Cons f members_nonnull [OF inv m] eligible_mean [OF inv fits m]
      by (intro exI [of _ "key c a \<le> mean_key c t"]) (simp add: hd_or_NULL_def)
  qed
qed

text \<open>A single runnable entity is picked without a comparison.\<close>

lemma pick_single:
  assumes inv: "cfs_inv L c t" and ne: "members c t \<noteq> []" and small: "length (members c t) + card L < 2 ^ 32"
    and one: "nr_running c = 1"
  shows "\<exists>x. members c t = [x] \<and> pick_eevdf c = Some x"
proof -
  have "nr_running c = of_nat (length (members c t) + card L)"
    using inv by (simp add: cfs_inv_def members_def)
  then have "unat (nr_running c) = length (members c t) + card L"
    using small by (simp only: unat_of_nat take_bit_nat_eq_self len_num1 len_bit0) simp
  then have l: "length (members c t) = 1" using one ne by (cases "members c t") auto
  obtain cu where cu: "live_curr c = Some cu" "cu \<noteq> None \<longleftrightarrow> onq (ents c) (curr c)"
    using live_curr_ok [OF inv] by blast
  show ?thesis
  proof (cases "onq (ents c) (curr c)")
    case True
    then have "inorder t = []" using l by (simp add: members_def)
    with True show ?thesis using cu one by (simp add: members_def pick_eevdf_def)
  next
    case False
    then obtain x where "inorder t = [x]" using l by (auto simp: members_def length_Suc_conv)
    with False show ?thesis using cu one pick_first_ok(1) [OF inv]
      by (simp add: members_def pick_eevdf_def hd_or_NULL_def)
  qed
qed

lemma filter_hd: "filter P xs = a # ys \<Longrightarrow> a \<in> set xs \<and> P a"
  by (auto simp: filter_eq_Cons_iff)

text \<open>The better of the eligible current entity \<open>cur\<close> and the best of the tree, by deadline.\<close>

definition earlier_of :: "cfs_rq \<Rightarrow> addr \<Rightarrow> addr \<Rightarrow> addr" where
  "earlier_of c cur best =
     (if best = NULL \<or> cur \<noteq> NULL \<and> vtime_before (dl c cur) (dl c best) then cur else best)"

lemma pick_several:
  assumes inv: "cfs_inv L c t" and fits: "fits K c t" and ne: "members c t \<noteq> []"
    and agg: "agg (base c) (ents c) t" and several: "nr_running c \<noteq> 1"
  defines "el \<equiv> \<lambda>a. key c a \<le> mean_key c t"
  defines "cur \<equiv> if onq (ents c) (curr c) \<and> el (curr c) then curr c else NULL"
  defines "best \<equiv> hd_or_NULL (filter el (inorder t))"
  shows "pick_eevdf c = Some (earlier_of c cur best)"
proof -
  obtain cu where cu: "live_curr c = Some cu" "cu \<noteq> None \<longleftrightarrow> onq (ents c) (curr c)"
    using live_curr_ok [OF inv] by blast
  have mem: "onq (ents c) (curr c) \<Longrightarrow> curr c \<in> set (members c t)" by (simp add: members_def)
  obtain fel where fel: "(if pick_first_entity c = NULL then Some False else entity_eligible c (pick_first_entity c)) = Some fel"
      "(if fel then Some (pick_first_entity c) else eevdf_search c (rb_root (timeline c))) = Some best"
    using best_of_tree [OF inv fits agg] unfolding best_def el_def by blast
  have cel: "(if cu = None then Some False else entity_eligible c (curr c))
      = Some (onq (ents c) (curr c) \<and> el (curr c))"
    using cu(2) mem eligible_mean [OF inv fits] by (auto simp: el_def)
  have bm: "best = NULL \<or> best \<in> set (members c t) \<and> el best"
  proof (cases "filter el (inorder t)")
    case (Cons a xs)
    with filter_hd [OF Cons] show ?thesis by (simp add: best_def hd_or_NULL_def members_def)
  qed (simp add: best_def hd_or_NULL_def)
  have cm: "cur = NULL \<or> cur \<in> set (members c t)" using mem by (simp add: cur_def)
  have better: "(if best = NULL then Some True else if cur = NULL then Some False
      else do { cse \<leftarrow> ents c cur; bse \<leftarrow> ents c best;
        Some (vtime_before (deadline cse) (deadline bse)) })
      = Some (best = NULL \<or> cur \<noteq> NULL \<and> vtime_before (dl c cur) (dl c best))"
    using bm cm members_dom [OF inv, of best] members_dom [OF inv, of cur] by auto
  have "\<exists>a \<in> set (members c t). el a" using some_eligible [OF fits ne] by (simp add: el_def)
  then have "cur \<noteq> NULL \<or> best \<noteq> NULL"
  proof -
    assume "\<exists>a \<in> set (members c t). el a"
    then obtain a where a: "a \<in> set (members c t)" "el a" by blast
    show ?thesis
    proof (cases "a \<in> set (inorder t)")
      case True
      then have "filter el (inorder t) \<noteq> []" using a by (auto simp: filter_empty_conv)
      then obtain x xs where "filter el (inorder t) = x # xs" by (cases "filter el (inorder t)") auto
      then show ?thesis using members_nonnull [OF inv, of x] filter_hd [of el "inorder t" x xs] by (simp add: best_def hd_or_NULL_def members_def)
    next
      case False
      then show ?thesis using a members_nonnull [OF inv a(1)] by (auto simp: members_def cur_def split: if_splits)
    qed
  qed
  then have nn: "earlier_of c cur best \<noteq> NULL" by (auto simp: earlier_of_def)
  have "pick_eevdf c = Some (if earlier_of c cur best = NULL then pick_first_entity c else earlier_of c cur best)"
    unfolding pick_eevdf_def Let_def cu(1)
    using cel fel better several unfolding cur_def [symmetric]
    by (simp add: earlier_of_def cur_def cong: if_cong)
  with nn show ?thesis by simp
qed

lemma earliest_of_sorted:
  assumes "sorted_wrt (\<lambda>x y. f x \<le> (f y :: nat)) xs" and "filter P xs = a # ys" and "y \<in> set xs" and "P y"
  shows "f a \<le> f y"
proof -
  have "sorted_wrt (\<lambda>x y. f x \<le> f y) (a # ys)" using sorted_wrt_filter [OF assms(1), of P] assms(2) by simp
  moreover have "y \<in> set (a # ys)" unfolding assms(2) [symmetric] using assms(3,4) by simp
  ultimately show ?thesis by auto
qed

section \<open>A sample run queue\<close>

text \<open>Six entities of weight 1024, named by addresses in deadline order. 16 is furthest behind,
  48 is second; the others are ahead of the mean.\<close>

definition sample_se :: "u64 \<Rightarrow> u64 \<Rightarrow> u64 \<Rightarrow> sched_entity" where
  "sample_se v d m = \<lparr>load = \<lparr>weight = 1024, inv_weight = 4194304\<rparr>, vruntime = v, vlag = 0, slice = 0, deadline = d,
    se_min_vruntime = m, on_rq = True, policy = 0, nice = 0, exec_start = 0, sum_exec_runtime = 0, prev_sum_exec_runtime = 0\<rparr>"

definition sample_nodes :: rb_heap where
 "sample_nodes = [8 \<mapsto> \<lparr>rb_parent_color = 17, rb_right = 0, rb_left = 0\<rparr>,
   16 \<mapsto> \<lparr>rb_parent_color = 40, rb_right = 32, rb_left = 8\<rparr>,
   24 \<mapsto> \<lparr>rb_parent_color = 32, rb_right = 0, rb_left = 0\<rparr>,
   32 \<mapsto> \<lparr>rb_parent_color = 17, rb_right = 0, rb_left = 24\<rparr>,
   40 \<mapsto> \<lparr>rb_parent_color = 1, rb_right = 48, rb_left = 16\<rparr>,
   48 \<mapsto> \<lparr>rb_parent_color = 41, rb_right = 0, rb_left = 0\<rparr>]"

definition sample_ents :: ents where
 "sample_ents = [8 \<mapsto> sample_se 100 1 100, 16 \<mapsto> sample_se 0 2 0, 24 \<mapsto> sample_se 100 3 100, 32 \<mapsto> sample_se 100 4 100, 40 \<mapsto> sample_se 100 5 0, 48 \<mapsto> sample_se 10 6 10]"

definition sample_cfs :: cfs_rq where
 "sample_cfs = \<lparr>tasks_timeline = \<lparr>rb_tree = \<lparr>nodes = sample_nodes, rb_root = 40, aug_data = sample_ents\<rparr>, rb_leftmost = 8\<rparr>,
   nr_running = 6, min_vruntime = 0, avg_vruntime = 419840, avg_load = 6144, curr = 0, fifo_seq = 0\<rparr>"

definition sample_rq :: rq where "sample_rq = \<lparr>cfs = sample_cfs, clock = 0, clock_task = 0\<rparr>"
definition sample_tree :: rbt where
  "sample_tree = Node (Node (Node Leaf 8 Black Leaf) 16 Red (Node (Node Leaf 24 Red Leaf) 32 Black Leaf)) 40 Black
     (Node Leaf 48 Black Leaf)"

lemma sample_inv: "cfs_inv {} sample_cfs sample_tree"
  unfolding cfs_inv_def
proof (intro conjI)
  show "tree_ok (tasks_timeline sample_cfs) sample_tree"
    by (simp add: sample_cfs_def sample_tree_def tree_ok_def cached_ok_def represents_def cell_def aligned_def
      rb_parent_def rb_is_black_def rb_color_def rb_ok_def sample_nodes_def sample_ents_def hd_or_NULL_def)
qed (simp_all add: sample_cfs_def sample_tree_def sample_nodes_def sample_ents_def sample_se_def aligned_def
  onq_def wsum_def lsum_def vr_def wt_def)

lemma sample_members [simp]: "members sample_cfs sample_tree = [8, 16, 24, 32, 40, 48]"
  by (simp add: members_def sample_cfs_def sample_tree_def sample_ents_def onq_def)

lemma sample_fits: "fits 100 sample_cfs sample_tree"
  by (simp add: fits_def total_weight_def key_def) (simp add: sample_cfs_def sample_ents_def sample_se_def vr_def wt_def)

lemma sample_agg: "agg (base sample_cfs) (ents sample_cfs) sample_tree"
  by (simp add: sample_cfs_def sample_ents_def sample_se_def sample_tree_def agg1_def vrk_def vkey_def base_def)

lemma sample_deadlines:
  "\<forall>a \<in> set (members sample_cfs sample_tree). vkey 0 (dl sample_cfs a) < 2 ^ 63"
  "sorted_wrt (\<lambda>x y. vkey 0 (dl sample_cfs x) \<le> vkey 0 (dl sample_cfs y)) (inorder sample_tree)"
  by (simp_all add: sample_tree_def dl_def sample_cfs_def sample_ents_def sample_se_def vkey_def)

lemma sample_pick: "pick_eevdf sample_cfs = Some 16"
  by code_simp

lemma sample_48: "key sample_cfs 48 \<le> mean_key sample_cfs sample_tree"
  by (simp add: mean_key_def weighted_sum_def total_weight_def key_def)
    (simp add: sample_cfs_def sample_ents_def sample_se_def vr_def wt_def)

section \<open>The pick is the EEVDF choice\<close>

lemma earlier_of_earliest:
  assumes cur: "cur \<noteq> NULL \<Longrightarrow> cur \<in> M \<and> el cur"
    and best: "best \<noteq> NULL \<Longrightarrow> best \<in> T \<and> el best \<and> (\<forall>y \<in> T. el y \<longrightarrow> vkey b (dl c best) \<le> vkey b (dl c y))"
    and nobest: "best = NULL \<Longrightarrow> \<forall>y \<in> T. \<not> el y"
    and other: "\<And>y. el y \<Longrightarrow> y \<in> M \<Longrightarrow> y \<in> T \<or> y = cur \<and> cur \<noteq> NULL"
    and some: "\<exists>a \<in> M. el a" and sub: "T \<subseteq> M" and win: "\<forall>a \<in> M. vkey b (dl c a) < 2 ^ 63"
  shows "\<exists>x \<in> M. x = earlier_of c cur best \<and> el x \<and> (\<forall>y \<in> M. el y \<longrightarrow> vkey b (dl c x) \<le> vkey b (dl c y))"
proof -
  let ?d = "\<lambda>a. vkey b (dl c a)"
  have vb: "vtime_before (dl c cur) (dl c best) \<longleftrightarrow> ?d cur < ?d best" if "cur \<noteq> NULL" "best \<noteq> NULL"
    using vtime_before_vkey [of b "dl c cur" "dl c best"] win cur best that sub by auto
  consider "best = NULL" "cur \<noteq> NULL" | "best \<noteq> NULL" "cur = NULL" | "best \<noteq> NULL" "cur \<noteq> NULL"
    using some other nobest by blast
  then show ?thesis
  proof cases
    case 1
    then show ?thesis using cur nobest other by (intro bexI [of _ cur]) (auto simp: earlier_of_def)
  next
    case 2
    then show ?thesis using best other sub by (intro bexI [of _ best]) (auto simp: earlier_of_def)
  next
    case 3
    have min: "min (?d cur) (?d best) \<le> ?d y" if "y \<in> M" "el y" for y
      using other [OF that(2,1)] best 3 that(2) by fastforce
    show ?thesis
    proof (cases "?d cur < ?d best")
      case True
      then show ?thesis using vb 3 cur min by (intro bexI [of _ cur]) (auto simp: earlier_of_def)
    next
      case False
      then show ?thesis using vb 3 best min sub by (intro bexI [of _ best]) (auto simp: earlier_of_def)
    qed
  qed
qed

text \<open>C2: the pick of the scheduler is the EEVDF choice. If the products of virtual times and
  load fit 64 bits, the entities' deadlines lie in one half of the time circle, the tree is in
  deadline order and its aggregates are exact, then \<open>pick_eevdf\<close> returns a runnable entity
  that is eligible, that is, not ahead of the weighted mean, and whose deadline is the earliest
  among the eligible entities of the tree and the current one.\<close>

theorem pick_earliest_eligible:
  assumes inv: "cfs_inv L c t" and fits: "fits K c t" and ne: "members c t \<noteq> []"
    and small: "length (members c t) + card L < 2 ^ 32" and agg: "agg (base c) (ents c) t"
    and win: "\<forall>a \<in> set (members c t). vkey b (dl c a) < 2 ^ 63"
    and sorted: "sorted_wrt (\<lambda>x y. vkey b (dl c x) \<le> vkey b (dl c y)) (inorder t)"
  shows "\<exists>x \<in> set (members c t). pick_eevdf c = Some x \<and> key c x \<le> mean_key c t
    \<and> (\<forall>y \<in> set (members c t). key c y \<le> mean_key c t \<longrightarrow> vkey b (dl c x) \<le> vkey b (dl c y))"
proof (cases "nr_running c = 1")
  case True
  then obtain x where "members c t = [x]" "pick_eevdf c = Some x"
    using pick_single [OF inv ne small] by blast
  then show ?thesis using some_eligible [OF fits ne] by simp
next
  case False
  let ?el = "\<lambda>a. key c a \<le> mean_key c t" and ?d = "\<lambda>a. vkey b (dl c a)"
  define cur where "cur = (if onq (ents c) (curr c) \<and> ?el (curr c) then curr c else NULL)"
  define best where "best = hd_or_NULL (filter ?el (inorder t))"
  have p: "pick_eevdf c = Some (earlier_of c cur best)"
    using pick_several [OF inv fits ne agg False] by (simp add: cur_def best_def)
  have onn: "onq (ents c) (curr c) \<Longrightarrow> curr c \<noteq> NULL" using onq_NULL [OF inv] by auto
  have cur: "cur \<noteq> NULL \<Longrightarrow> cur \<in> set (members c t) \<and> ?el cur" by (auto simp: cur_def members_def)
  have best: "best \<noteq> NULL \<Longrightarrow> best \<in> set (inorder t) \<and> ?el best
      \<and> (\<forall>y \<in> set (inorder t). ?el y \<longrightarrow> ?d best \<le> ?d y)"
    using filter_hd [of ?el "inorder t"] earliest_of_sorted [OF sorted, of ?el]
    by (cases "filter ?el (inorder t)") (auto simp: best_def hd_or_NULL_def)
  have nobest: "best = NULL \<Longrightarrow> \<forall>y \<in> set (inorder t). \<not> ?el y"
  proof -
    assume "best = NULL"
    then have "filter ?el (inorder t) = []"
      using filter_hd [of ?el "inorder t"] members_nonnull [OF inv]
      by (cases "filter ?el (inorder t)") (auto simp: best_def hd_or_NULL_def members_def)
    then show ?thesis by (simp add: filter_empty_conv)
  qed
  have other: "?el y \<Longrightarrow> y \<in> set (members c t) \<Longrightarrow> y \<in> set (inorder t) \<or> y = cur \<and> cur \<noteq> NULL" for y
    using onn by (auto simp: members_def cur_def split: if_splits)
  have some: "\<exists>a \<in> set (members c t). ?el a" by (rule some_eligible [OF fits ne])
  have "\<exists>x \<in> set (members c t). x = earlier_of c cur best \<and> ?el x \<and> (\<forall>y \<in> set (members c t). ?el y \<longrightarrow> ?d x \<le> ?d y)"
    by (rule earlier_of_earliest [of cur "set (members c t)" ?el best "set (inorder t)" b c])
      (use cur best nobest other some win in \<open>auto simp: members_def\<close>)
  then show ?thesis using p by blast
qed

theorem pick_earliest_eligible_witness:
  "key sample_cfs 16 \<le> mean_key sample_cfs sample_tree \<and> key sample_cfs 48 \<le> mean_key sample_cfs sample_tree
    \<and> vkey 0 (dl sample_cfs 16) \<le> vkey 0 (dl sample_cfs 48)"
proof -
  have "members sample_cfs sample_tree \<noteq> []" "length (members sample_cfs sample_tree) + card ({} :: addr set) < 2 ^ 32"
    by simp_all
  from pick_earliest_eligible [OF sample_inv sample_fits this sample_agg sample_deadlines] sample_48
  show ?thesis by (simp only: sample_pick option.inject sample_members) auto
qed

text \<open>The aggregates are not always exact. When \<open>__rb_erase\<close> moves the successor of the erased
  node up, it first gives it the aggregate of the erased node and then propagates from the
  successor's old parent; \<open>mv_propagate\<close> stops at the first node whose aggregate is right,
  which may be below the moved node. On the run queue above, which satisfies the invariant, 16 is
  picked and blocks. The node 24 that takes its place keeps the virtual run time of 16 as its
  aggregate, the search descends into its subtree in vain, and the next pick is 8, which is not
  eligible, although 48 is.\<close>

lemma stale_aggregate_pick:
  "(do { (a, r) \<leftarrow> fair_pick sample_rq;
         r \<leftarrow> fair_block_current r a;
         (b, r') \<leftarrow> fair_pick r;
         x \<leftarrow> entity_eligible (cfs r) b;
         y \<leftarrow> entity_eligible (cfs r) 48;
         Some (a, b, x, y) }) = Some (16, 8, False, True)"
  by code_simp

end
