(* ===== verification/Fair_Main.thy ===== *)
theory Fair_Main
  imports Fair_Pick
begin

text \<open>
  The properties of the fair class: the invariant of every reachable run queue, that every
  hook returns, that a runnable entity is always picked, that insertion keeps the order and the
  aggregates, and the accuracy of the weight arithmetic.
\<close>

section \<open>A pick when something is runnable\<close>

lemma lone_curr_eligible:
  assumes inv: "cfs_inv L c t" and t: "inorder t = []" and on: "onq (ents c) (curr c)"
  shows "entity_eligible c (curr c) = Some True"
proof -
  obtain se where se: "ents c (curr c) = Some se" "on_rq se" using on by (auto simp: onq_def split: option.splits)
  have "curr c \<noteq> NULL" using on onq_NULL [OF inv] by auto
  moreover have "avg_vruntime c = 0" "avg_load c = 0" using inv t by (simp_all add: cfs_inv_def)
  ultimately show ?thesis using se
    by (simp add: entity_eligible_def vruntime_eligible_def sums_with_curr_def entity_key_def)
qed

lemma pick_eevdf_some:
  assumes inv: "cfs_inv L c t" and ne: "members c t \<noteq> []" and small: "length (members c t) + card L < 2 ^ 32"
  shows "\<exists>x \<in> set (members c t). pick_eevdf c = Some x"
proof (cases "nr_running c = 1")
  case True
  then show ?thesis using pick_single [OF inv ne small] by auto
next
  case False
  obtain x where x: "pick_eevdf c = Some x" "x = NULL \<or> x \<in> addrs t \<or> x = curr c \<and> onq (ents c) x"
    using pick_eevdf_ok [OF inv] by blast
  have "x \<noteq> NULL"
  proof (cases "inorder t")
    case (Cons a xs)
    then have "pick_first_entity c = a" "a \<noteq> NULL"
      using pick_first_ok(1) [OF inv] members_nonnull [OF inv, of a] by (simp_all add: hd_or_NULL_def members_def)
    then show ?thesis using x(1) False by (auto simp: pick_eevdf_def Let_def bind_eq_Some_conv split: if_splits)
  next
    case Nil
    then have on: "onq (ents c) (curr c)" using ne by (simp add: members_def split: if_splits)
    then have "curr c \<noteq> NULL" using onq_NULL [OF inv] by auto
    moreover obtain se where "live_curr c = Some (Some se)" using live_curr_ok [OF inv] on by force
    moreover have "pick_first_entity c = NULL" using pick_first_ok(1) [OF inv] Nil by (simp add: hd_or_NULL_def)
    moreover have "rb_root (timeline c) = NULL"
    proof -
      have "represents (timeline c) t" using inv by (simp add: cfs_inv_def tree_ok_def cached_ok_def)
      then show ?thesis using Nil by (cases t) (simp_all add: represents_def)
    qed
    ultimately show ?thesis using x(1) False lone_curr_eligible [OF inv Nil on]
      by (simp add: pick_eevdf_def eevdf_search.simps)
  qed
  then show ?thesis using x by (auto simp: members_def addrs_def)
qed

lemma members_charged:
  assumes "charged c c'"
  shows "members c' t = members c t"
  using assms by (simp add: charged_def members_def)

text \<open>C23: the scheduler is work conserving. Whenever a reachable run queue holds a runnable
  entity, in its tree or as the current one, \<open>fair_pick\<close> returns one of them.\<close>

theorem fair_pick_work_conserving:
  assumes "cfs_inv L (cfs r) t" and "members (cfs r) t \<noteq> []" and "length (members (cfs r) t) + card L < 2 ^ 32"
  shows "\<exists>a r'. fair_pick r = Some (a, r') \<and> a \<in> set (members (cfs r) t) \<and> a \<noteq> NULL"
proof -
  obtain c where c: "update_curr (clock_task r) (cfs r) = Some c" "cfs_inv L c t" "charged (cfs r) c"
    using update_curr_ok [OF assms(1)] by blast
  have m: "members c t = members (cfs r) t" by (rule members_charged [OF c(3)])
  then obtain x where x: "x \<in> set (members c t)" "pick_eevdf c = Some x"
    using pick_eevdf_some [OF c(2)] assms(2,3) by auto
  have "nr_running c = of_nat (length (members c t) + card L)"
    using c(2) by (simp add: cfs_inv_def members_def)
  then have "unat (nr_running c) = length (members c t) + card L"
    using assms(3) m by (simp only: unat_of_nat take_bit_nat_eq_self len_num1 len_bit0) simp
  then have "nr_running c \<noteq> 0" using assms(2) m by auto
  moreover have xn: "x \<noteq> NULL" by (rule members_nonnull [OF c(2) x(1)])
  ultimately have "\<exists>r'. fair_pick r = Some (x, r') \<or> fair_pick r = None"
    using c(1) x(2) by (auto simp: fair_pick_def bind_eq_Some_conv)
  moreover have "fair_pick r \<noteq> None" using fair_pick_ok [of L r] assms(1) by (auto simp: fair_ok_def)
  ultimately show ?thesis using x(1) xn m by auto
qed

theorem fair_pick_work_conserving_witness:
  "\<exists>a r'. fair_pick sample_rq = Some (a, r') \<and> a \<in> {8, 16, 24, 32, 40, 48} \<and> a \<noteq> NULL"
  using fair_pick_work_conserving [of "{}" sample_rq sample_tree] sample_inv
  by (simp add: sample_rq_def)

section \<open>Every reachable run queue\<close>

text \<open>C1: in every run queue that the hooks can reach, the tree is a red-black tree whose cached
  first node is right, the two running sums are the sums over the entities in the tree, and
  \<open>nr_running\<close> counts exactly the entities in the tree, the runnable current one and the
  preempted ones not yet put back.\<close>

theorem fair_invariant:
  assumes "fair_reach L r"
  shows "\<exists>t. cfs_inv L (cfs r) t"
  using fair_reach_ok [OF assms] by (simp add: fair_ok_def)

definition boot_rq :: rq where
  "boot_rq = sample_rq\<lparr>cfs := set_ents [8 \<mapsto> (sample_se 0 0 0)\<lparr>on_rq := False\<rparr>,
     16 \<mapsto> (sample_se 0 0 0)\<lparr>on_rq := False\<rparr>] (cfs sample_rq)\<rparr>"

lemma boot_ready: "entities_ready (cfs boot_rq)"
  by (simp add: entities_ready_def boot_rq_def sample_rq_def sample_cfs_def sample_nodes_def aligned_def onq_def
      sample_se_def)

definition booted :: rq where
  "booted = boot_rq\<lparr>cfs := cfs_rq_init (cfs boot_rq)\<rparr>"

lemma boot_enqueued: "\<exists>r'. fair_enqueue booted 8 = Some r' \<and> fair_reach {} r'"
proof -
  have reach: "fair_reach {} booted" unfolding booted_def by (rule fair_reach.Init [OF boot_ready])
  have idle: "idle_entity booted 8"
    by (simp add: idle_entity_def booted_def boot_rq_def cfs_rq_init_def onq_def sample_se_def)
  obtain r' where "fair_enqueue booted 8 = Some r'" using fair_enqueue_ok [OF fair_reach_ok [OF reach] idle] by blast
  then show ?thesis using fair_reach.Enqueue [OF reach idle] by blast
qed

theorem fair_invariant_witness:
  "\<exists>r' t. fair_enqueue booted 8 = Some r' \<and> cfs_inv {} (cfs r') t"
proof -
  obtain r' where r': "fair_enqueue booted 8 = Some r'" "fair_reach {} r'" using boot_enqueued by blast
  obtain t where "cfs_inv {} (cfs r') t" using fair_invariant [OF r'(2)] by (rule exE)
  with r'(1) show ?thesis by (intro exI conjI)
qed

text \<open>C22: no hook of the fair class ever follows a bad pointer or loops: in every reachable run
  queue, each call that respects the calling convention returns.\<close>

theorem fair_hooks_return:
  assumes "fair_reach L r"
  shows "(\<forall>a. idle_entity r a \<longrightarrow> (\<exists>r'. fair_enqueue r a = Some r') \<and> (\<exists>r'. fair_accept_stolen r a = Some r'))
    \<and> (\<exists>a r'. fair_pick r = Some (a, r'))
    \<and> (onq (ents (cfs r)) (curr (cfs r)) \<longrightarrow> (\<exists>r'. fair_block_current r (curr (cfs r)) = Some r'))
    \<and> (\<forall>a. a \<in> L \<or> a = curr (cfs r) \<and> a \<noteq> NULL \<longrightarrow> (\<exists>r'. fair_requeue_preempted r a = Some r'))
    \<and> (\<exists>a r'. fair_steal now r = Some (a, r')) \<and> (\<exists>b r'. sched_tick now r = Some (b, r'))
    \<and> (\<exists>r'. fair_reweight_current r n p s = Some r') \<and> (\<exists>r'. fair_yield_current r = Some r')"
proof -
  note ok = fair_reach_ok [OF assms]
  show ?thesis
  proof (intro conjI allI impI)
    show "\<exists>r'. fair_enqueue r a = Some r'" if "idle_entity r a" for a
      using fair_enqueue_ok [OF ok that] by blast
    show "\<exists>r'. fair_accept_stolen r a = Some r'" if "idle_entity r a" for a
      using fair_accept_stolen_ok [OF ok that] by blast
    show "\<exists>a r'. fair_pick r = Some (a, r')" using fair_pick_ok [OF ok] by blast
    show "\<exists>r'. fair_block_current r (curr (cfs r)) = Some r'" if "onq (ents (cfs r)) (curr (cfs r))"
      using fair_block_current_ok [OF ok that] by blast
    show "\<exists>r'. fair_requeue_preempted r a = Some r'" if "a \<in> L \<or> a = curr (cfs r) \<and> a \<noteq> NULL" for a
      using fair_requeue_preempted_ok [OF ok that] by blast
    show "\<exists>a r'. fair_steal now r = Some (a, r')" using fair_steal_ok [OF ok] by blast
    show "\<exists>b r'. sched_tick now r = Some (b, r')" using sched_tick_ok [OF ok] by blast
    show "\<exists>r'. fair_reweight_current r n p s = Some r'" using fair_reweight_current_ok [OF ok] by blast
    show "\<exists>r'. fair_yield_current r = Some r'" using fair_yield_current_ok [OF ok] by blast
  qed
qed

theorem fair_hooks_return_witness:
  "\<exists>r a r'. fair_enqueue booted 8 = Some r \<and> fair_pick r = Some (a, r')"
proof -
  obtain r where "fair_enqueue booted 8 = Some r" "fair_reach {} r"
    using boot_enqueued by blast
  moreover from fair_hooks_return [OF this(2)] obtain a r' where "fair_pick r = Some (a, r')" by blast
  ultimately show ?thesis by blast
qed

section \<open>Order and aggregates under insertion\<close>

lemma same_own_dl: "same_own (ents c) (ents c') \<Longrightarrow> dl c' a = dl c a"
proof -
  assume so: "same_own (ents c) (ents c')"
  consider "ents c a = None" "ents c' a = None"
    | se m where "ents c a = Some se" "ents c' a = Some (se\<lparr>se_min_vruntime := m\<rparr>)"
    using same_own_eq [OF so] same_own_dom [OF so] by (metis domIff option.exhaust)
  then show ?thesis by cases (simp_all add: dl_def)
qed

text \<open>\<open>__enqueue_entity\<close> keeps the tree sorted by deadline and the subtree minima exact, as
  long as the deadlines lie in one half of the time circle and the virtual run times within
  half a circle above the base; the entity is added and nothing else.\<close>

theorem enqueue_keeps_order:
  assumes inv: "cfs_inv L c t" and a: "ents c a = Some se" "a \<notin> addrs t"
    and win: "\<forall>x \<in> insert a (addrs t). vkey b (dl c x) < 2 ^ 63" "vkey (base c) (vruntime se) < 2 ^ 63"
    and sorted: "sorted_wrt (\<lambda>x y. vkey b (dl c x) \<le> vkey b (dl c y)) (inorder t)"
    and agg: "agg (base c) (ents c) t"
  shows "\<exists>c' t'. enqueue_entity_tree c a = Some c' \<and> tree_ok (tasks_timeline c') t' \<and> addrs t' = insert a (addrs t)
    \<and> sorted_wrt (\<lambda>x y. vkey b (dl c' x) \<le> vkey b (dl c' y)) (inorder t') \<and> agg (base c') (ents c') t'"
proof -
  let ?d = "\<lambda>x. vkey b (dl c x)" and ?lt = "later (ents c) se"
  have q: "queue_ok c t" using inv by (simp add: cfs_inv_split)
  obtain q' t' where q': "enqueue_entity_tree c a = Some ((avg_vruntime_add c se)\<lparr>tasks_timeline := q'\<rparr>)"
      "inserted (tasks_timeline c) t a se q' t'" "addrs t' = insert a (addrs t)"
    using enqueue_tree_queue [OF q a] by blast
  define c' where "c' = (avg_vruntime_add c se)\<lparr>tasks_timeline := q'\<rparr>"
  have so: "same_own (ents c) (ents c')" and t': "tree_ok (tasks_timeline c') t'"
    using q'(2) by (simp_all add: inserted_def c'_def)
  have lt: "?lt x \<longleftrightarrow> ?d a < ?d x" if x: "x \<in> addrs t" for x
  proof -
    obtain xe where xe: "ents c x = Some xe" using q x by (auto simp: queue_ok_def tree_ok_def)
    have "?lt x \<longleftrightarrow> vtime_before (dl c a) (dl c x)" using a xe by (simp add: later_def deadline_less_def dl_def)
    then show ?thesis using vtime_before_vkey [of b] win(1) x by simp
  qed
  have "splits ?lt (inorder t)" unfolding splits_def
    by (rule sorted_wrt_mono_rel [OF _ sorted]) (use lt in \<open>auto simp: addrs_def\<close>)
  then obtain gs where gs: "t = plug gs Leaf" "inorder t' = before gs @ a # after gs" "slot_in_order ?lt gs"
    using q'(2) by (auto simp: inserted_def)
  have io: "inorder t = before gs @ after gs" by (simp add: gs(1) inorder_plug)
  have "\<forall>x \<in> set (before gs). ?d x \<le> ?d a" "\<forall>x \<in> set (after gs). ?d a \<le> ?d x"
    using gs(3) lt io by (fastforce simp: slot_in_order_def addrs_def)+
  then have "sorted_wrt (\<lambda>x y. ?d x \<le> ?d y) (inorder t')"
    using sorted io gs(2) by (auto simp: sorted_wrt_append)
  moreover have "agg (base c') (ents c') t'"
    using q'(2) agg win(2) by (simp add: inserted_def c'_def base_def avg_vruntime_add_def)
  ultimately show ?thesis using q'(1,3) t' same_own_dl [OF so] by (auto simp: c'_def [symmetric])
qed

definition newcomer_cfs :: cfs_rq where
  "newcomer_cfs = set_ents ((ents sample_cfs)(56 \<mapsto> sample_se 7 3 0))
     (sample_cfs\<lparr>tasks_timeline := (tasks_timeline sample_cfs)\<lparr>rb_tree := (timeline sample_cfs)\<lparr>nodes :=
        (nodes (timeline sample_cfs))(56 \<mapsto> \<lparr>rb_parent_color = 0, rb_right = 0, rb_left = 0\<rparr>)\<rparr>\<rparr>\<rparr>)"

lemma newcomer_reads:
  "ents newcomer_cfs = (ents sample_cfs)(56 \<mapsto> sample_se 7 3 0)" "min_vruntime newcomer_cfs = 0"
  "base newcomer_cfs = base sample_cfs"
  by (simp_all add: newcomer_cfs_def base_def sample_cfs_def)

lemma newcomer_tree: "inorder sample_tree = [8, 16, 24, 32, 40, 48]" "addrs sample_tree = {8, 16, 24, 32, 40, 48}"
  by (auto simp: sample_tree_def)

lemma newcomer_inv: "cfs_inv {} newcomer_cfs sample_tree"
  unfolding cfs_inv_def
proof (intro conjI)
  show "tree_ok (tasks_timeline newcomer_cfs) sample_tree"
    by (simp add: newcomer_cfs_def set_ents_def sample_cfs_def sample_tree_def tree_ok_def cached_ok_def
      represents_def cell_def aligned_def rb_parent_def rb_is_black_def rb_color_def rb_ok_def sample_nodes_def
      sample_ents_def hd_or_NULL_def)
qed (simp_all add: newcomer_cfs_def newcomer_tree sample_cfs_def sample_nodes_def sample_ents_def sample_se_def
  aligned_def onq_def wsum_def lsum_def vr_def wt_def)

lemma newcomer_agg: "agg (base newcomer_cfs) (ents newcomer_cfs) sample_tree"
  unfolding newcomer_reads using sample_agg agg_upd [of 56 sample_tree] by (simp add: newcomer_tree)

theorem enqueue_keeps_order_witness:
  "\<exists>c' t'. enqueue_entity_tree newcomer_cfs 56 = Some c' \<and> tree_ok (tasks_timeline c') t'
    \<and> addrs t' = {56, 8, 16, 24, 32, 40, 48}
    \<and> sorted_wrt (\<lambda>x y. vkey 0 (dl c' x) \<le> vkey 0 (dl c' y)) (inorder t') \<and> agg (base c') (ents c') t'"
  using enqueue_keeps_order [OF newcomer_inv _ _ _ _ _ newcomer_agg, of 56 "sample_se 7 3 0" 0]
  by (simp add: newcomer_tree newcomer_reads dl_def sample_cfs_def sample_ents_def sample_se_def vkey_def base_def)

section \<open>Weights and lags\<close>

lemma prio_tables:
  "i < 40 \<Longrightarrow> \<bar>uint (sched_prio_to_weight ! i) * uint (sched_prio_to_wmult ! i) - 2 ^ 32\<bar> \<le> 40
    \<and> 0 < uint (sched_prio_to_weight ! i)"
proof -
  have "\<forall>i \<in> set [0..<40]. \<bar>uint (sched_prio_to_weight ! i) * uint (sched_prio_to_wmult ! i) - 2 ^ 32\<bar> \<le> 40
    \<and> 0 < uint (sched_prio_to_weight ! i)" by code_simp
  then show "i < 40 \<Longrightarrow> \<bar>uint (sched_prio_to_weight ! i) * uint (sched_prio_to_wmult ! i) - 2 ^ 32\<bar> \<le> 40
    \<and> 0 < uint (sched_prio_to_weight ! i)" by simp
qed

lemma set_load_weight_pair:
  fixes se n
  defines "lw \<equiv> load (set_load_weight se n)"
  shows "\<bar>uint (weight lw) * uint (inv_weight lw) - 2 ^ 32\<bar> \<le> 40 \<and> 0 < uint (weight lw)"
proof (cases "policy se = SCHED_IDLE")
  case True
  then show ?thesis by (simp add: lw_def set_load_weight_def)
next
  case False
  have "nice_to_index n < 40" by (auto simp: nice_to_index_def)
  with False show ?thesis using prio_tables [of "nice_to_index n"] by (simp add: lw_def set_load_weight_def)
qed

lemma calc_delta_value:
  assumes d: "uint d < 2 ^ 48" and w: "weight (load se) \<noteq> NICE_0_WEIGHT"
  shows "uint (calc_delta_fair d se) = uint d * 1024 * uint (inv_weight (load se)) div 2 ^ 32"
proof -
  let ?m = "inv_weight (load se)" and ?p = "uint d * 1024 * uint (inv_weight (load se))"
  have m: "uint ?m < 2 ^ 32" using uint_bounded [of ?m] by simp
  have p: "0 \<le> ?p" "?p < 2 ^ 90"
    using d m mult_strict_mono [of "uint d * 1024" "2 ^ 58" "uint ?m" "2 ^ 32"] by simp_all
  have "(ucast d :: 128 word) * 1024 * ucast ?m = word_of_int ?p" by (simp add: unsigned_ucast_eq)
  moreover have "uint (word_of_int ?p :: 128 word) = ?p"
    using p unfolding uint_word_of_int by (intro mod_pos_pos_trivial) simp_all
  ultimately have "uint ((ucast d :: 128 word) * 1024 * ucast ?m) = ?p" by (simp only:)
  then have q: "uint (drop_bit 32 ((ucast d :: 128 word) * 1024 * ucast ?m)) = ?p div 2 ^ 32"
    unfolding drop_bit_eq_div uint_div by simp
  have "?p div 2 ^ 32 < 2 ^ 58" "0 \<le> ?p div 2 ^ 32"
    using p by (simp_all add: pos_imp_zdiv_nonneg_iff)
  then show ?thesis using q w
    by (simp add: calc_delta_fair_def Let_def unsigned_ucast_eq take_bit_int_eq_self)
qed

lemma fixed_point_error:
  fixes A :: int
  assumes "A * 2 ^ 32 - 1024 * d * 2 ^ 32 = E - R" and "\<bar>E\<bar> \<le> 1024 * d * 40" and "0 \<le> R" and "R \<le> w * 2 ^ 32"
    and "0 \<le> d"
  shows "\<bar>A - 1024 * d\<bar> \<le> w + d div 100000"
proof -
  define D where "D = d div 100000"
  have D: "d < 100000 * D + 100000" "0 \<le> D" using assms(5) by (simp_all add: D_def pos_imp_zdiv_nonneg_iff)
  have "A - 1024 * d \<le> w + D" "1024 * d - A \<le> w + D"
    using assms D by (simp_all add: abs_le_iff)
  then show ?thesis unfolding D_def by (simp add: abs_le_iff)
qed

text \<open>C26: the virtual time charged for \<open>d\<close> nanoseconds of execution is \<open>d\<close> scaled by the ratio
  of the nice-0 weight 1024 to the weight of the entity, for every nice value and policy: the
  fixed-point arithmetic is off by less than one unit plus ten parts in a million, for times
  up to three days.\<close>

theorem calc_delta_fair_accurate:
  fixes se n
  defines "s \<equiv> set_load_weight se n"
  assumes "uint d < 2 ^ 48"
  shows "\<bar>uint (calc_delta_fair d s) * uint (weight (load s)) - 1024 * uint d\<bar>
    \<le> uint (weight (load s)) + uint d div 100000"
proof (cases "weight (load s) = NICE_0_WEIGHT")
  case True
  moreover have "0 \<le> uint d div 100000" by (simp add: pos_imp_zdiv_nonneg_iff)
  ultimately show ?thesis by (simp add: calc_delta_fair_def)
next
  case False
  let ?w = "uint (weight (load s))" and ?m = "uint (inv_weight (load s))" and ?q = "uint (calc_delta_fair d s)"
  have q: "?q = uint d * 1024 * ?m div 2 ^ 32" by (rule calc_delta_value [OF assms(2) False])
  have e: "\<bar>?w * ?m - 2 ^ 32\<bar> \<le> 40" "0 < ?w" using set_load_weight_pair [of se n] by (simp_all add: s_def)
  define r where "r = uint d * 1024 * ?m mod 2 ^ 32"
  have r: "0 \<le> r" "r < 2 ^ 32" by (simp_all add: r_def)
  have "uint d * 1024 * ?m = ?q * 2 ^ 32 + r" unfolding q r_def by (rule div_mult_mod_eq [symmetric])
  then have "?w * (?q * 2 ^ 32 + r) = 1024 * uint d * (?w * ?m)" by (simp add: mult_ac)
  then have "?q * ?w * 2 ^ 32 - 1024 * uint d * 2 ^ 32 = 1024 * uint d * (?w * ?m - 2 ^ 32) - ?w * r"
    by (simp add: algebra_simps)
  moreover have "\<bar>1024 * uint d * (?w * ?m - 2 ^ 32)\<bar> \<le> 1024 * uint d * 40"
    unfolding abs_mult using e(1) by (intro mult_mono) simp_all
  moreover have "0 \<le> ?w * r" "?w * r \<le> ?w * 2 ^ 32" using r e(2) by simp_all
  ultimately show ?thesis by (rule fixed_point_error) simp
qed

theorem calc_delta_fair_accurate_witness:
  "\<bar>uint (calc_delta_fair 1000000 (set_load_weight (sample_se 0 0 0) 5)) * 335 - 1024 * 1000000\<bar> \<le> 345"
  using calc_delta_fair_accurate [of 1000000 "sample_se 0 0 0" 5]
  by (simp add: set_load_weight_def sample_se_def nice_to_index_def sched_prio_to_weight_def)

text \<open>The lag that \<open>update_entity_lag\<close> stores is the distance of the entity from the mean,
  cut to the bound of two slices or ten milliseconds of the entity's virtual time.\<close>

theorem update_entity_lag_bounded:
  assumes "cfs_inv L c t" and "ents c a = Some se" and "0 \<le>s lag_limit se"
  shows "\<exists>c' se' V. update_entity_lag c a = Some c' \<and> ents c' a = Some se' \<and> avg_vruntime_V c = Some V
    \<and> \<bar>sint (vlag se')\<bar> \<le> sint (lag_limit se)
    \<and> (\<bar>sint (V - vruntime se)\<bar> \<le> sint (lag_limit se) \<longrightarrow> vlag se' = V - vruntime se)"
proof -
  obtain V where V: "avg_vruntime_V c = Some V" using avg_vruntime_V_ok [OF assms(1)] by blast
  let ?l = "clamp_lag se (V - vruntime se)" and ?m = "lag_limit se"
  have m: "0 \<le> sint ?m" using assms(3) by (simp add: word_sle_eq)
  have neg: "sint (- ?m) = - sint ?m"
    using m sint_of_int_range [of "- sint ?m"] sint_lt [of ?m] by (simp add: wi_hom_neg)
  have "\<bar>sint ?l\<bar> \<le> sint ?m" "\<bar>sint (V - vruntime se)\<bar> \<le> sint ?m \<longrightarrow> ?l = V - vruntime se"
    using m neg by (auto simp: clamp_lag_def Let_def word_sless_alt)
  then show ?thesis using V assms(2) by (simp add: update_entity_lag_def se_upd_def)
qed

theorem update_entity_lag_bounded_witness:
  "\<exists>c' se' V. update_entity_lag sample_cfs 16 = Some c' \<and> ents c' 16 = Some se' \<and> avg_vruntime_V sample_cfs = Some V
    \<and> \<bar>sint (vlag se')\<bar> \<le> 10000000"
proof -
  have l: "ents sample_cfs 16 = Some (sample_se 0 2 0)" "lag_limit (sample_se 0 2 0) = 10000000"
    by (simp_all add: sample_cfs_def sample_ents_def lag_limit_def calc_delta_fair_def slice_of_def sample_se_def)
  moreover have "0 \<le>s (10000000 :: u64)" by (simp add: word_sle_eq)
  ultimately show ?thesis using update_entity_lag_bounded [OF sample_inv l(1)] by auto
qed

end
