(* ===== verification/Pmm.thy ===== *)
theory Pmm
  imports Prelude
begin

text \<open>
  The physical frame allocator, \<open>src/kernel/mm/pmm.c\<close>: a buddy allocator whose free lists are
  doubly linked through the free blocks themselves.

  Physical memory is a function from byte addresses to the 8-byte cell stored there; the
  allocator and the page tables work in the same memory, so that an overlap would be seen.
  Physical addresses and frame numbers stay below \<open>2 ^ 32\<close> and are \<open>nat\<close>; a pointer in memory
  is a 64-bit word. Reference counts are 16-bit words. The lock makes an operation atomic.
\<close>

section \<open>State\<close>

abbreviation (input) PMM_FRAME_SIZE :: nat where "PMM_FRAME_SIZE \<equiv> 4096"
abbreviation (input) PMM_MAX_ORDER :: nat where "PMM_MAX_ORDER \<equiv> 14"
abbreviation (input) PMM_MAX_FRAMES :: nat where "PMM_MAX_FRAMES \<equiv> 1048576"
abbreviation (input) ORDER_NONE :: nat where "ORDER_NONE \<equiv> 255"

record kmem =
  pmem :: "nat \<Rightarrow> u64"
  free_lists :: "nat \<Rightarrow> nat"
  frame_order :: "nat \<Rightarrow> nat"
  frame_refcount :: "nat \<Rightarrow> u16"
  total_free_frames :: u64
  total_usable_frames :: u64
  frame_limit :: nat

definition frame_to_phys :: "nat \<Rightarrow> nat" where
  "frame_to_phys frame = frame * PMM_FRAME_SIZE"

definition phys_to_frame :: "nat \<Rightarrow> nat" where
  "phys_to_frame phys = phys div PMM_FRAME_SIZE"

text \<open>The links of a free block: \<open>next\<close> at offset 0 and \<open>prev\<close> at offset 8.\<close>

definition blk_next :: "kmem \<Rightarrow> nat \<Rightarrow> nat" where
  "blk_next s b = unat (pmem s b)"

definition blk_prev :: "kmem \<Rightarrow> nat \<Rightarrow> nat" where
  "blk_prev s b = unat (pmem s (b + 8))"

definition set_next :: "nat \<Rightarrow> nat \<Rightarrow> kmem \<Rightarrow> kmem" where
  "set_next b p s = s\<lparr>pmem := (pmem s)(b := of_nat p)\<rparr>"

definition set_prev :: "nat \<Rightarrow> nat \<Rightarrow> kmem \<Rightarrow> kmem" where
  "set_prev b p s = s\<lparr>pmem := (pmem s)(b + 8 := of_nat p)\<rparr>"

definition set_head :: "nat \<Rightarrow> nat \<Rightarrow> kmem \<Rightarrow> kmem" where
  "set_head k p s = s\<lparr>free_lists := (free_lists s)(k := p)\<rparr>"

definition set_order :: "nat \<Rightarrow> nat \<Rightarrow> kmem \<Rightarrow> kmem" where
  "set_order f k s = s\<lparr>frame_order := (frame_order s)(f := k)\<rparr>"

section \<open>The free lists\<close>

definition list_push :: "nat \<Rightarrow> nat \<Rightarrow> kmem \<Rightarrow> kmem" where
  "list_push order block s =
     (let s = set_prev block 0 s;
          s = set_next block (free_lists s order) s;
          s = (if free_lists s order \<noteq> 0 then set_prev (free_lists s order) block s else s);
          s = set_head order block s
      in set_order (phys_to_frame block) order s)"

definition list_remove :: "nat \<Rightarrow> nat \<Rightarrow> kmem \<Rightarrow> kmem" where
  "list_remove order block s =
     (let s = (if blk_prev s block \<noteq> 0 then set_next (blk_prev s block) (blk_next s block) s
               else set_head order (blk_next s block) s);
          s = (if blk_next s block \<noteq> 0 then set_prev (blk_next s block) (blk_prev s block) s else s)
      in set_order (phys_to_frame block) ORDER_NONE s)"

section \<open>Allocation\<close>

function find_order :: "(nat \<Rightarrow> nat) \<Rightarrow> nat \<Rightarrow> nat" where
  "find_order heads found =
     (if found \<le> PMM_MAX_ORDER \<and> heads found = 0 then find_order heads (Suc found) else found)"
  by pat_completeness auto

termination find_order
  by (relation "measure (\<lambda>(heads, found). 15 - found)") auto

fun split_block :: "nat \<Rightarrow> nat \<Rightarrow> nat \<Rightarrow> kmem \<Rightarrow> kmem" where
  "split_block order phys 0 s = s"
| "split_block order phys (Suc k) s =
     (if order < Suc k
      then split_block order phys k (list_push k (phys + PMM_FRAME_SIZE * 2 ^ k) s)
      else s)"

definition set_refcount :: "u16 \<Rightarrow> nat \<Rightarrow> kmem \<Rightarrow> kmem" where
  "set_refcount n f s = s\<lparr>frame_refcount := (frame_refcount s)(f := n)\<rparr>"

definition pmm_alloc :: "nat \<Rightarrow> kmem \<Rightarrow> nat \<times> kmem" where
  "pmm_alloc order s =
     (if PMM_MAX_ORDER < order then (0, s)
      else let found = find_order (free_lists s) order in
        if PMM_MAX_ORDER < found then (0, s)
        else let phys = free_lists s found;
                 s = list_remove found phys s;
                 s = split_block order phys found s;
                 s = fold (\<lambda>i. set_refcount 1 (phys_to_frame phys + i)) [0..<2 ^ order] s
             in (phys, s\<lparr>total_free_frames := total_free_frames s - 2 ^ order\<rparr>))"

section \<open>Freeing\<close>

text \<open>Merging upward with free buddies.\<close>

function merge_up :: "nat \<Rightarrow> nat \<Rightarrow> kmem \<Rightarrow> nat \<times> nat \<times> kmem" where
  "merge_up frame order s =
     (if order < PMM_MAX_ORDER
      then let buddy = frame XOR 2 ^ order in
        if PMM_MAX_FRAMES \<le> buddy \<or> frame_order s buddy \<noteq> order then (frame, order, s)
        else merge_up (if frame < buddy then frame else buddy) (Suc order)
               (list_remove order (frame_to_phys buddy) s)
      else (frame, order, s))"
  by pat_completeness auto

termination merge_up
  by (relation "measure (\<lambda>(frame, order, s). PMM_MAX_ORDER - order)") auto

definition pmm_free :: "nat \<Rightarrow> nat \<Rightarrow> kmem \<Rightarrow> kmem" where
  "pmm_free phys_addr order s =
     (let frame = phys_to_frame phys_addr in
      if phys_addr mod PMM_FRAME_SIZE \<noteq> 0 \<or> PMM_MAX_FRAMES \<le> frame \<or> PMM_MAX_FRAMES - frame < 2 ^ order
      then s
      else let s = fold (\<lambda>i s. set_refcount (frame_refcount s (frame + i) - 1) (frame + i) s) [0..<2 ^ order] s
        in if \<exists>i \<in> {..<2 ^ order}. frame_refcount s (frame + i) \<noteq> 0 then s
           else let s = s\<lparr>total_free_frames := total_free_frames s + 2 ^ order\<rparr>;
                    (frame, order, s) = merge_up frame order s
                in list_push order (frame_to_phys frame) s)"

definition pmm_frame_share :: "nat \<Rightarrow> kmem \<Rightarrow> kmem" where
  "pmm_frame_share phys s =
     set_refcount (frame_refcount s (phys_to_frame phys) + 1) (phys_to_frame phys) s"

definition pmm_frame_refcount :: "nat \<Rightarrow> kmem \<Rightarrow> u16" where
  "pmm_frame_refcount phys s = frame_refcount s (phys_to_frame phys)"

definition pmm_free_frame_count :: "kmem \<Rightarrow> u64" where
  "pmm_free_frame_count s = total_free_frames s"

section \<open>Boot\<close>

definition add_frame :: "nat \<Rightarrow> kmem \<Rightarrow> kmem" where
  "add_frame phys s =
     (let s = pmm_free phys 0 s
      in s\<lparr>total_usable_frames := total_usable_frames s + 1,
           frame_limit := max (frame_limit s) (phys_to_frame phys + 1)\<rparr>)"

text \<open>The loop of \<open>add_region\<close> over the frames of the rounded region. Its sums do not wrap around,
  because it ends at \<open>PMM_MAX_FRAMES\<close>; the sums before it can and are taken modulo \<open>2 ^ 64\<close>.\<close>

function add_frames :: "nat \<Rightarrow> nat \<Rightarrow> kmem \<Rightarrow> kmem" where
  "add_frames phys stop s =
     (if phys + PMM_FRAME_SIZE \<le> stop \<and> phys_to_frame phys < PMM_MAX_FRAMES
      then add_frames (phys + PMM_FRAME_SIZE) stop (add_frame phys s)
      else s)"
  by pat_completeness auto

termination add_frames
  by (relation "measure (\<lambda>(phys, stop, s). stop - phys)") auto

definition add_region :: "nat \<Rightarrow> nat \<Rightarrow> kmem \<Rightarrow> kmem" where
  "add_region start stop s =
     add_frames ((start + PMM_FRAME_SIZE - 1) mod 2 ^ 64 div PMM_FRAME_SIZE * PMM_FRAME_SIZE)
       (stop div PMM_FRAME_SIZE * PMM_FRAME_SIZE) s"

text \<open>\<open>pmm_init\<close>: the memory map is the list of its entries \<open>(base, length, type)\<close>, as the
  loop over the Multiboot tags finds them; \<open>ks\<close> and \<open>ke\<close> are the bounds of the kernel image.\<close>

abbreviation (input) MULTIBOOT_MEMORY_AVAILABLE :: nat where "MULTIBOOT_MEMORY_AVAILABLE \<equiv> 1"

definition add_entry :: "nat \<Rightarrow> nat \<Rightarrow> nat \<times> nat \<times> nat \<Rightarrow> kmem \<Rightarrow> kmem" where
  "add_entry ks ke ent s =
     (case ent of (base, len, kind) \<Rightarrow>
        if kind \<noteq> MULTIBOOT_MEMORY_AVAILABLE then s
        else let start = max base 0x100000; region_end = (base + len) mod 2 ^ 64
             in if start < ke \<and> ks < region_end
                then let s = (if start < ks then add_region start ks s else s)
                     in if ke < region_end then add_region ke region_end s else s
                else add_region start region_end s)"

definition pmm_reset :: "kmem \<Rightarrow> kmem" where
  "pmm_reset s = s\<lparr>free_lists := (\<lambda>_. 0), frame_order := (\<lambda>_. ORDER_NONE), frame_refcount := (\<lambda>_. 1),
     total_free_frames := 0\<rparr>"

definition pmm_init :: "nat \<Rightarrow> nat \<Rightarrow> (nat \<times> nat \<times> nat) list \<Rightarrow> kmem \<Rightarrow> kmem" where
  "pmm_init ks ke mmap s = fold (add_entry ks ke) mmap (pmm_reset s)"

end
