(* ===== verification/Pmm_Lists.thy ===== *)
theory Pmm_Lists
  imports Pmm
begin

text \<open>
  The doubly linked free lists of the frame allocator: what \<open>list_push\<close> and \<open>list_remove\<close> do
  to them, and which cells of physical memory they write.
\<close>

declare find_order.simps [simp del] merge_up.simps [simp del] add_frames.simps [simp del]

section \<open>List segments\<close>

abbreviation addr_of :: "nat \<Rightarrow> nat" where
  "addr_of f \<equiv> f * 4096"

lemma addr_of_cell_ne: "addr_of f \<noteq> addr_of g + 8"
proof
  assume "addr_of f = addr_of g + 8"
  then have "addr_of f mod 4096 = (addr_of g + 8) mod 4096" by (rule arg_cong)
  then show False by simp
qed

lemma addr_of_cells [simp]:
  "addr_of f \<noteq> addr_of g + 8" "addr_of f + 8 \<noteq> addr_of g" "addr_of f = addr_of g \<longleftrightarrow> f = g"
  "addr_of f + 8 = addr_of g + 8 \<longleftrightarrow> f = g"
  using addr_of_cell_ne [of f g] addr_of_cell_ne [of g f] by simp_all

definition head_addr :: "nat list \<Rightarrow> nat \<Rightarrow> nat" where
  "head_addr xs n = (case xs of [] \<Rightarrow> n | f # _ \<Rightarrow> addr_of f)"

definition last_addr :: "nat list \<Rightarrow> nat \<Rightarrow> nat" where
  "last_addr xs p = (if xs = [] then p else addr_of (last xs))"

lemma end_addr_simps [simp]:
  "head_addr [] n = n" "head_addr (f # xs) n = addr_of f" "last_addr [] p = p"
  "last_addr (f # xs) p = last_addr xs (addr_of f)"
  by (simp_all add: head_addr_def last_addr_def)

fun dls :: "(nat \<Rightarrow> u64) \<Rightarrow> nat \<Rightarrow> nat list \<Rightarrow> nat \<Rightarrow> bool" where
  "dls m p [] n \<longleftrightarrow> True"
| "dls m p (f # xs) n \<longleftrightarrow> m (addr_of f) = of_nat (head_addr xs n) \<and> m (addr_of f + 8) = of_nat p
     \<and> dls m (addr_of f) xs n"

lemma head_addr_append [simp]: "head_addr (xs @ ys) n = head_addr xs (head_addr ys n)"
  by (cases xs) simp_all

lemma dls_append [simp]: "dls m p (xs @ ys) n \<longleftrightarrow> dls m p xs (head_addr ys n) \<and> dls m (last_addr xs p) ys n"
  by (induction xs arbitrary: p) auto

lemma dls_cong:
  "(\<And>f. f \<in> set xs \<Longrightarrow> m' (addr_of f) = m (addr_of f) \<and> m' (addr_of f + 8) = m (addr_of f + 8)) \<Longrightarrow>
     dls m' p xs n = dls m p xs n"
  by (induction xs arbitrary: p) auto

lemma dls_set_next:
  "dls m p xs n \<Longrightarrow> xs \<noteq> [] \<Longrightarrow> distinct xs \<Longrightarrow> dls (m(addr_of (last xs) := of_nat n')) p xs n'"
proof (induction xs arbitrary: p)
  case (Cons f xs)
  show ?case
  proof (cases xs)
    case Nil
    with Cons.prems show ?thesis by simp
  next
    case (Cons g ys)
    then have "f \<noteq> last xs" using Cons.prems(3) by auto
    then show ?thesis using Cons.prems Cons.IH [of "addr_of f"] Cons by auto
  qed
qed simp

lemma dls_set_prev:
  assumes "dls m p (f # xs) n" and "f \<notin> set xs"
  shows "dls (m(addr_of f + 8 := of_nat p')) p' (f # xs) n"
proof -
  have "dls (m(addr_of f + 8 := of_nat p')) (addr_of f) xs n = dls m (addr_of f) xs n"
    by (rule dls_cong) (use assms(2) in auto)
  with assms show ?thesis by simp
qed

text \<open>Unlinking one element.\<close>

definition relink :: "(nat \<Rightarrow> u64) \<Rightarrow> nat \<Rightarrow> nat \<Rightarrow> (nat \<Rightarrow> u64)" where
  "relink m p n = (let m = (if p \<noteq> 0 then m(p := of_nat n) else m)
     in if n \<noteq> 0 then m(n + 8 := of_nat p) else m)"

lemma dls_relink:
  assumes d: "dls m 0 (xs @ f # ys) 0" and dist: "distinct (xs @ f # ys)" and nz: "0 \<notin> set (xs @ ys)"
  shows "dls (relink m (last_addr xs 0) (head_addr ys 0)) 0 (xs @ ys) 0"
proof -
  let ?p = "last_addr xs 0" and ?n = "head_addr ys 0"
  define m1 where "m1 = (if ?p \<noteq> 0 then m(?p := of_nat ?n) else m)"
  define m2 where "m2 = (if ?n \<noteq> 0 then m1(?n + 8 := of_nat ?p) else m1)"
  have xs1: "dls m1 0 xs ?n"
  proof (cases "xs = []")
    case False
    then have "last xs \<in> set (xs @ ys)" by simp
    then have "last xs \<noteq> 0" using nz by metis
    then have "?p = addr_of (last xs)" "?p \<noteq> 0" using False by (simp_all add: last_addr_def)
    with dls_set_next [of m 0 xs "addr_of f" ?n] False d dist show ?thesis by (simp add: m1_def)
  qed simp
  have ys1: "dls m1 (addr_of f) ys 0"
  proof -
    have "set xs \<inter> set ys = {}" using dist by simp
    then have "xs \<noteq> [] \<Longrightarrow> last xs \<notin> set ys" using last_in_set [of xs] by blast
    then have "dls m1 (addr_of f) ys 0 = dls m (addr_of f) ys 0"
      by (intro dls_cong) (auto simp: m1_def last_addr_def)
    with d show ?thesis by simp
  qed
  have "dls m2 0 xs ?n"
  proof -
    have "dls m2 0 xs ?n = dls m1 0 xs ?n"
      by (rule dls_cong) (use dist in \<open>cases ys; auto simp: m2_def\<close>)
    with xs1 show ?thesis by simp
  qed
  moreover have "dls m2 ?p ys 0"
  proof (cases ys)
    case (Cons g zs)
    then have "dls m2 ?p (g # zs) 0"
      using dls_set_prev [of m1 "addr_of f" g zs 0 ?p] ys1 dist nz by (simp add: m2_def)
    with Cons show ?thesis by simp
  qed simp
  moreover have "relink m ?p ?n = m2" by (simp only: relink_def Let_def m1_def m2_def)
  ultimately show ?thesis by simp
qed

section \<open>All free lists\<close>

definition lists_ok :: "kmem \<Rightarrow> (nat \<Rightarrow> nat list) \<Rightarrow> bool" where
  "lists_ok s ls \<longleftrightarrow> (\<forall>k \<le> PMM_MAX_ORDER. free_lists s k = head_addr (ls k) 0 \<and> dls (pmem s) 0 (ls k) 0
     \<and> distinct (ls k) \<and> set (ls k) = {f. frame_order s f = k}
     \<and> (\<forall>f \<in> set (ls k). 0 < f \<and> f < PMM_MAX_FRAMES))"

lemma lists_okD:
  assumes "lists_ok s ls" and "k \<le> PMM_MAX_ORDER"
  shows "free_lists s k = head_addr (ls k) 0" "dls (pmem s) 0 (ls k) 0" "distinct (ls k)"
    "set (ls k) = {f. frame_order s f = k}" "\<forall>f \<in> set (ls k). 0 < f \<and> f < PMM_MAX_FRAMES"
  using assms by (simp_all add: lists_ok_def)

text \<open>The cells that hold the links of the blocks at the frames \<open>F\<close>.\<close>

definition link_cells :: "nat set \<Rightarrow> nat set" where
  "link_cells F = {addr_of f |f. f \<in> F} \<union> {addr_of f + 8 |f. f \<in> F}"

definition same_mem :: "nat set \<Rightarrow> kmem \<Rightarrow> kmem \<Rightarrow> bool" where
  "same_mem F s s' \<longleftrightarrow> (\<forall>x. x \<notin> link_cells F \<longrightarrow> pmem s' x = pmem s x)
     \<and> frame_refcount s' = frame_refcount s \<and> total_free_frames s' = total_free_frames s
     \<and> total_usable_frames s' = total_usable_frames s \<and> frame_limit s' = frame_limit s"

lemma same_mem_refl [simp]: "same_mem F s s"
  by (simp add: same_mem_def)

lemma link_cells_mono: "F \<subseteq> G \<Longrightarrow> link_cells F \<subseteq> link_cells G"
  by (auto simp: link_cells_def)

lemma same_mem_trans: "same_mem F s s' \<Longrightarrow> same_mem F s' s'' \<Longrightarrow> same_mem F s s''"
  by (simp add: same_mem_def)

lemma same_mem_mono: "same_mem F s s' \<Longrightarrow> F \<subseteq> G \<Longrightarrow> same_mem G s s'"
  using link_cells_mono [of F G] by (auto simp: same_mem_def)

definition heads :: "kmem \<Rightarrow> nat set" where
  "heads s = {f. frame_order s f \<le> PMM_MAX_ORDER}"

lemma pointer_roundtrip:
  "f < PMM_MAX_FRAMES \<Longrightarrow> unat (of_nat (addr_of f) :: u64) = addr_of f"
  unfolding unat_of_nat by (intro mod_less) simp

lemma lists_ok_other:
  assumes "lists_ok s ls" and "k \<le> PMM_MAX_ORDER"
    and "\<And>j f. j \<noteq> k \<Longrightarrow> j \<le> PMM_MAX_ORDER \<Longrightarrow> f \<in> set (ls j) \<Longrightarrow>
      pmem s' (addr_of f) = pmem s (addr_of f) \<and> pmem s' (addr_of f + 8) = pmem s (addr_of f + 8)"
    and "\<And>j. j \<noteq> k \<Longrightarrow> free_lists s' j = free_lists s j"
    and "\<And>j f. j \<noteq> k \<Longrightarrow> j \<le> PMM_MAX_ORDER \<Longrightarrow> frame_order s' f = j \<longleftrightarrow> frame_order s f = j"
    and "free_lists s' k = head_addr xs 0" "dls (pmem s') 0 xs 0" "distinct xs" "set xs = {f. frame_order s' f = k}"
    and "\<forall>f \<in> set xs. 0 < f \<and> f < PMM_MAX_FRAMES"
  shows "lists_ok s' (ls(k := xs))"
  unfolding lists_ok_def
proof (intro allI impI)
  fix j assume j: "j \<le> PMM_MAX_ORDER"
  show "free_lists s' j = head_addr ((ls(k := xs)) j) 0 \<and> dls (pmem s') 0 ((ls(k := xs)) j) 0
     \<and> distinct ((ls(k := xs)) j) \<and> set ((ls(k := xs)) j) = {f. frame_order s' f = j}
     \<and> (\<forall>f \<in> set ((ls(k := xs)) j). 0 < f \<and> f < PMM_MAX_FRAMES)"
  proof (cases "j = k")
    case True
    then show ?thesis using assms(6-10) by simp
  next
    case False
    then have "dls (pmem s') 0 (ls j) 0 = dls (pmem s) 0 (ls j) 0"
      using assms(3) [OF False j] by (intro dls_cong) simp
    then show ?thesis using False j assms(1,4,5) by (simp add: lists_ok_def)
  qed
qed

lemma list_remove_eq:
  assumes ok: "lists_ok s ls" and k: "k \<le> PMM_MAX_ORDER" and ls: "ls k = xs @ f # ys"
  defines "p \<equiv> last_addr xs 0" and "n \<equiv> head_addr ys 0"
  shows "list_remove k (addr_of f) s = s\<lparr>pmem := relink (pmem s) p n,
      free_lists := (if p = 0 then (free_lists s)(k := n) else free_lists s),
      frame_order := (frame_order s)(f := ORDER_NONE)\<rparr>"
proof -
  note d = lists_okD(2,3,5) [OF ok k, unfolded ls]
  have lx: "xs \<noteq> [] \<Longrightarrow> last xs \<in> set xs" by simp
  have "blk_prev s (addr_of f) = p" "blk_next s (addr_of f) = n"
    using d lx pointer_roundtrip by (cases ys; auto simp: blk_prev_def blk_next_def p_def n_def last_addr_def)+
  moreover have "addr_of f \<noteq> p" "addr_of f + 8 \<noteq> p"
    using d lx unfolding p_def last_addr_def by (auto; presburger)+
  ultimately show ?thesis
    by (simp add: list_remove_def Let_def set_next_def set_prev_def set_head_def set_order_def relink_def
        blk_prev_def blk_next_def phys_to_frame_def)
qed

lemma relink_cells:
  assumes "x \<notin> link_cells F" and "p \<noteq> 0 \<Longrightarrow> \<exists>f \<in> F. p = addr_of f" and "n \<noteq> 0 \<Longrightarrow> \<exists>f \<in> F. n = addr_of f"
  shows "relink m p n x = m x"
  using assms by (auto simp: relink_def link_cells_def Let_def)

lemma list_remove_ok:
  assumes ok: "lists_ok s ls" and f: "frame_order s f = k" "k \<le> PMM_MAX_ORDER"
  shows "\<exists>ls'. lists_ok (list_remove k (addr_of f) s) ls'"
    "frame_order (list_remove k (addr_of f) s) = (frame_order s)(f := ORDER_NONE)"
    "same_mem (heads s - {f}) s (list_remove k (addr_of f) s)"
proof -
  have "f \<in> set (ls k)" using ok f by (auto simp: lists_ok_def)
  then obtain xs ys where ls: "ls k = xs @ f # ys" by (meson split_list)
  let ?p = "last_addr xs 0" and ?n = "head_addr ys 0"
  note eq = list_remove_eq [OF ok f(2) ls]
  note d = lists_okD(2,3,4,5,1) [OF ok f(2), unfolded ls]
  have p: "?p \<noteq> 0 \<Longrightarrow> \<exists>g \<in> set (xs @ ys). ?p = addr_of g" "?n \<noteq> 0 \<Longrightarrow> \<exists>g \<in> set (xs @ ys). ?n = addr_of g"
    by (cases "xs = []"; auto simp: last_addr_def) (cases ys; auto)
  have p0: "?p = 0 \<longleftrightarrow> xs = []" using d(4) by (cases "xs = []") (auto simp: last_addr_def)
  show "frame_order (list_remove k (addr_of f) s) = (frame_order s)(f := ORDER_NONE)" by (simp add: eq)
  have hs: "set (xs @ ys) \<subseteq> heads s - {f}" using d(2,3) f(2) by (auto simp: heads_def)
  show "same_mem (heads s - {f}) s (list_remove k (addr_of f) s)"
  proof -
    have "relink (pmem s) ?p ?n x = pmem s x" if "x \<notin> link_cells (heads s - {f})" for x
      by (rule relink_cells [OF that]) (use p hs in blast)+
    then show ?thesis by (simp add: same_mem_def eq)
  qed
  let ?s = "list_remove k (addr_of f) s"
  have "lists_ok ?s (ls(k := xs @ ys))"
  proof (rule lists_ok_other [OF ok f(2)])
    show "dls (pmem ?s) 0 (xs @ ys) 0" using dls_relink [OF d(1,2)] d(4) by (auto simp: eq)
    show "free_lists ?s k = head_addr (xs @ ys) 0" using d(5) p0 by (cases xs) (auto simp: eq)
    show "set (xs @ ys) = {g. frame_order ?s g = k}" using d(2,3) f(2) by (auto simp: eq split: if_splits)
    show "frame_order ?s g = j \<longleftrightarrow> frame_order s g = j" if "j \<noteq> k" "j \<le> PMM_MAX_ORDER" for j g
      using that f by (auto simp: eq)
    show "pmem ?s (addr_of g) = pmem s (addr_of g) \<and> pmem ?s (addr_of g + 8) = pmem s (addr_of g + 8)"
      if "j \<noteq> k" "j \<le> PMM_MAX_ORDER" "g \<in> set (ls j)" for j g
    proof -
      have "g \<notin> set (xs @ ys)" using that d(3) ok by (auto simp: lists_ok_def)
      then have "addr_of g \<notin> link_cells (set (xs @ ys))" "addr_of g + 8 \<notin> link_cells (set (xs @ ys))"
        by (auto simp: link_cells_def)
      with p show ?thesis by (simp add: eq relink_cells)
    qed
  qed (use d(2,4) in \<open>auto simp: eq\<close>)
  then show "\<exists>ls'. lists_ok ?s ls'" by blast
qed

lemma list_push_ok:
  assumes ok: "lists_ok s ls" and f: "frame_order s f = ORDER_NONE" "0 < f" "f < PMM_MAX_FRAMES"
    and k: "k \<le> PMM_MAX_ORDER"
  shows "\<exists>ls'. lists_ok (list_push k (addr_of f) s) ls'"
    "frame_order (list_push k (addr_of f) s) = (frame_order s)(f := k)"
    "same_mem (insert f (heads s)) s (list_push k (addr_of f) s)"
proof -
  let ?h = "free_lists s k" and ?s = "list_push k (addr_of f) s"
  note d = lists_okD(2,3,4,5,1) [OF ok k]
  have fn: "f \<notin> set (ls j)" if "j \<le> PMM_MAX_ORDER" for j using ok f(1) that by (auto simp: lists_ok_def)
  define m where "m = (pmem s)(addr_of f + 8 := 0, addr_of f := of_nat ?h)"
  have eq: "?s = s\<lparr>pmem := (if ?h \<noteq> 0 then m(?h + 8 := of_nat (addr_of f)) else m),
      free_lists := (free_lists s)(k := addr_of f), frame_order := (frame_order s)(f := k)\<rparr>"
    by (simp add: list_push_def Let_def set_next_def set_prev_def set_head_def set_order_def m_def phys_to_frame_def)
  show "frame_order ?s = (frame_order s)(f := k)" by (simp add: eq)
  have h: "?h \<noteq> 0 \<Longrightarrow> \<exists>g \<in> set (ls k). ?h = addr_of g" using d(5) by (cases "ls k") auto
  have hs: "set (ls k) \<subseteq> heads s" using d(3) k by (auto simp: heads_def)
  have cells: "pmem ?s x = pmem s x" if "x \<notin> link_cells (insert f (set (ls k)))" for x
    using that h by (auto simp: eq m_def link_cells_def)
  have "link_cells (insert f (set (ls k))) \<subseteq> link_cells (insert f (heads s))"
    using hs by (intro link_cells_mono) blast
  then have "\<forall>x. x \<notin> link_cells (insert f (heads s)) \<longrightarrow> pmem ?s x = pmem s x" using cells by blast
  then show "same_mem (insert f (heads s)) s ?s" unfolding same_mem_def by (simp add: eq)
  have "lists_ok ?s (ls(k := f # ls k))"
  proof (rule lists_ok_other [OF ok k])
    have "dls m 0 (ls k) 0 = dls (pmem s) 0 (ls k) 0"
      by (rule dls_cong) (use fn [OF k] in \<open>auto simp: m_def\<close>)
    then have dm: "dls m 0 (ls k) 0" using d(1) by simp
    show "dls (pmem ?s) 0 (f # ls k) 0"
    proof (cases "ls k")
      case Nil
      then show ?thesis using d(5) by (simp add: eq m_def)
    next
      case (Cons g ys)
      then have "dls (m(addr_of g + 8 := of_nat (addr_of f))) (addr_of f) (g # ys) 0"
        using dls_set_prev [of m 0 g ys 0 "addr_of f"] dm d(2) by simp
      moreover have "g \<noteq> f" "0 < g" using Cons fn [OF k] d(4) by auto
      ultimately show ?thesis using Cons d(5) by (simp add: eq m_def)
    qed
    show "set (f # ls k) = {g. frame_order ?s g = k}" using d(3) by (auto simp: eq)
    show "frame_order ?s g = j \<longleftrightarrow> frame_order s g = j" if "j \<noteq> k" "j \<le> PMM_MAX_ORDER" for j g
      using that f by (auto simp: eq)
    show "pmem ?s (addr_of g) = pmem s (addr_of g) \<and> pmem ?s (addr_of g + 8) = pmem s (addr_of g + 8)"
      if "j \<noteq> k" "j \<le> PMM_MAX_ORDER" "g \<in> set (ls j)" for j g
    proof -
      have "g \<notin> insert f (set (ls k))" using that d(3) ok fn [of j] by (auto simp: lists_ok_def)
      then have "addr_of g \<notin> link_cells (insert f (set (ls k)))" "addr_of g + 8 \<notin> link_cells (insert f (set (ls k)))"
        by (auto simp: link_cells_def)
      with cells show ?thesis by blast
    qed
  qed (use d(2,4) fn [OF k] f in \<open>auto simp: eq\<close>)
  then show "\<exists>ls'. lists_ok ?s ls'" by blast
qed

end
