(* ===== verification/Pmm_Inv.thy ===== *)
theory Pmm_Inv
  imports Pmm_Lists
begin

text \<open>
  The invariant of the frame allocator: the free lists hold disjoint, aligned, fully coalesced
  blocks, free frames have no references, and the count of free frames is right. Allocation
  and freeing keep it and change the set of free frames by exactly the block in question.
\<close>

section \<open>Buddies\<close>

lemma buddy_eq:
  assumes "2 ^ k dvd (f :: nat)"
  shows "f XOR 2 ^ k = (if 2 ^ Suc k dvd f then f + 2 ^ k else f - 2 ^ k)"
proof -
  from assms obtain q where q: "f = 2 ^ k * q" by (elim dvdE)
  have "q XOR 1 = (if even q then q + 1 else q - 1)" by (simp add: xor_one_eq xor_Suc_0_eq)
  moreover have "f XOR 2 ^ k = push_bit k (q XOR 1)"
    by (simp only: push_bit_xor) (simp add: q push_bit_eq_mult mult.commute)
  moreover have "2 ^ Suc k dvd f \<longleftrightarrow> even q" by (simp add: q)
  ultimately show ?thesis by (auto simp: push_bit_eq_mult q algebra_simps)
qed

lemma buddy_pair:
  assumes "2 ^ k dvd (f :: nat)" and "b = f XOR 2 ^ k"
  shows "2 ^ Suc k dvd min f b" "{f..<f + 2 ^ k} \<union> {b..<b + 2 ^ k} = {min f b..<min f b + 2 ^ Suc k}"
    "{f..<f + 2 ^ k} \<inter> {b..<b + 2 ^ k} = {}" "2 ^ k dvd b" "b XOR 2 ^ k = f"
proof -
  have b: "b = (if 2 ^ Suc k dvd f then f + 2 ^ k else f - 2 ^ k)" using buddy_eq [OF assms(1)] assms(2) by simp
  have d: "b = f + 2 ^ k \<and> 2 ^ Suc k dvd f \<or> f = b + 2 ^ k \<and> 2 ^ Suc k dvd b"
  proof (cases "2 ^ Suc k dvd f")
    case False
    from assms(1) obtain q where q: "f = 2 ^ k * q" by (elim dvdE)
    with False have "odd q" by auto
    then obtain r where "q = 2 * r + 1" by (elim oddE)
    then show ?thesis using q b False by (auto simp: algebra_simps)
  qed (use b in simp)
  then show "2 ^ Suc k dvd min f b" "{f..<f + 2 ^ k} \<union> {b..<b + 2 ^ k} = {min f b..<min f b + 2 ^ Suc k}"
    "{f..<f + 2 ^ k} \<inter> {b..<b + 2 ^ k} = {}" by auto
  show "b XOR 2 ^ k = f" by (simp add: assms(2) ac_simps)
  have "2 ^ k dvd min f b" using \<open>2 ^ Suc k dvd min f b\<close> by (meson dvd_trans le_imp_power_dvd le_SucI order_refl)
  then show "2 ^ k dvd b" using b assms(1) by (auto simp: dvd_diff_nat)
qed

section \<open>Blocks\<close>

definition range_of :: "kmem \<Rightarrow> nat \<Rightarrow> nat set" where
  "range_of s f = {f..<f + 2 ^ frame_order s f}"

definition free_frames :: "kmem \<Rightarrow> nat set" where
  "free_frames s = (\<Union>f \<in> heads s. range_of s f)"

definition fits_block :: "nat \<Rightarrow> nat \<Rightarrow> bool" where
  "fits_block f k \<longleftrightarrow> 0 < f \<and> k \<le> PMM_MAX_ORDER \<and> 2 ^ k dvd f \<and> f + 2 ^ k \<le> PMM_MAX_FRAMES"

definition blocks_ok :: "kmem \<Rightarrow> bool" where
  "blocks_ok s \<longleftrightarrow> (\<forall>f. f \<notin> heads s \<longrightarrow> frame_order s f = ORDER_NONE)
     \<and> (\<forall>f \<in> heads s. fits_block f (frame_order s f))
     \<and> (\<forall>f \<in> heads s. \<forall>g \<in> heads s. f \<noteq> g \<longrightarrow> range_of s f \<inter> range_of s g = {})"

text \<open>No two free blocks are buddies of each other: everything is coalesced.\<close>

definition coalesced :: "kmem \<Rightarrow> bool" where
  "coalesced s \<longleftrightarrow> (\<forall>f \<in> heads s. frame_order s f < PMM_MAX_ORDER \<longrightarrow>
     frame_order s (f XOR 2 ^ frame_order s f) \<noteq> frame_order s f)"

definition buddy_inv :: "kmem \<Rightarrow> bool" where
  "buddy_inv s \<longleftrightarrow> (\<exists>ls. lists_ok s ls) \<and> blocks_ok s \<and> coalesced s"

lemma heads_upd: "frame_order s' = (frame_order s)(f := k) \<Longrightarrow>
    heads s' = (if k \<le> PMM_MAX_ORDER then insert f (heads s) else heads s - {f})"
  by (auto simp: heads_def)

lemma range_nonempty: "f \<in> range_of s f"
  by (simp add: range_of_def)

lemma heads_free: "f \<in> heads s \<Longrightarrow> range_of s f \<subseteq> free_frames s"
  by (auto simp: free_frames_def)

lemma blocks_remove:
  assumes ok: "blocks_ok s" and f: "f \<in> heads s" and s': "frame_order s' = (frame_order s)(f := ORDER_NONE)"
  shows "blocks_ok s'" "free_frames s' = free_frames s - range_of s f" "heads s' = heads s - {f}"
proof -
  show h: "heads s' = heads s - {f}" using heads_upd [OF s'] by simp
  have r: "range_of s' g = range_of s g" if "g \<noteq> f" for g using that s' by (simp add: range_of_def)
  have ord: "frame_order s' g = (if g = f then ORDER_NONE else frame_order s g)" for g using s' by simp
  show "blocks_ok s'" using ok unfolding blocks_ok_def h by (auto simp: r ord)
  have "range_of s g \<inter> range_of s f = {}" if "g \<in> heads s - {f}" for g using ok f that by (auto simp: blocks_ok_def)
  then show "free_frames s' = free_frames s - range_of s f"
    unfolding free_frames_def h using r by fastforce
qed

lemma blocks_add:
  assumes ok: "blocks_ok s" and fk: "fits_block f k" and disj: "{f..<f + 2 ^ k} \<inter> free_frames s = {}"
    and s': "frame_order s' = (frame_order s)(f := k)"
  shows "blocks_ok s'" "free_frames s' = free_frames s \<union> {f..<f + 2 ^ k}" "heads s' = insert f (heads s)"
    "f \<notin> heads s"
proof -
  have k: "k \<le> PMM_MAX_ORDER" using fk by (simp add: fits_block_def)
  have "f \<in> {f..<f + 2 ^ k}" by simp
  then show nf: "f \<notin> heads s" using disj heads_free [of f s] range_nonempty [of f s] by blast
  show h: "heads s' = insert f (heads s)" using heads_upd [OF s'] k by simp
  have ord: "frame_order s' g = (if g = f then k else frame_order s g)" for g using s' by simp
  have r: "range_of s' g = (if g = f then {f..<f + 2 ^ k} else range_of s g)" for g by (simp add: range_of_def ord)
  have "range_of s g \<inter> {f..<f + 2 ^ k} = {}" if "g \<in> heads s" for g using disj heads_free [OF that] by blast
  then show "blocks_ok s'" using ok fk nf unfolding blocks_ok_def h by (auto simp: r ord)
  have "(\<Union>g \<in> heads s. range_of s' g) = (\<Union>g \<in> heads s. range_of s g)" using nf by (intro SUP_cong) (auto simp: r)
  then show "free_frames s' = free_frames s \<union> {f..<f + 2 ^ k}" unfolding free_frames_def h by (auto simp: r)
qed

lemma coalesced_remove:
  assumes "coalesced s" and "blocks_ok s" and "frame_order s' = (frame_order s)(f := ORDER_NONE)"
  shows "coalesced s'"
  using assms heads_upd [OF assms(3)] by (auto simp: coalesced_def heads_def)

lemma coalesced_add:
  assumes co: "coalesced s" and ok: "blocks_ok s" and fk: "fits_block f k" and nf: "f \<notin> heads s"
    and buddy: "k < PMM_MAX_ORDER \<Longrightarrow> frame_order s (f XOR 2 ^ k) \<noteq> k"
    and s': "frame_order s' = (frame_order s)(f := k)"
  shows "coalesced s'"
  unfolding coalesced_def
proof (intro ballI impI)
  fix g assume g: "g \<in> heads s'" "frame_order s' g < PMM_MAX_ORDER"
  have k: "k \<le> PMM_MAX_ORDER" and d: "2 ^ k dvd f" using fk by (simp_all add: fits_block_def)
  have h: "heads s' = insert f (heads s)" using heads_upd [OF s'] k by simp
  show "frame_order s' (g XOR 2 ^ frame_order s' g) \<noteq> frame_order s' g"
  proof (cases "g = f")
    case True
    have "f XOR 2 ^ k \<noteq> f" using buddy_pair(3) [OF d refl] by auto
    then show ?thesis using True s' buddy g(2) by simp
  next
    case False
    then have gh: "g \<in> heads s" and go: "frame_order s' g = frame_order s g" using g(1) h s' by auto
    have dg: "2 ^ frame_order s g dvd g" using ok gh by (auto simp: blocks_ok_def fits_block_def)
    show ?thesis
    proof (cases "g XOR 2 ^ frame_order s g = f")
      case True
      have "g = f XOR 2 ^ frame_order s g" using buddy_pair(5) [OF dg refl] True by simp
      then show ?thesis using True go s' buddy g(2) by auto
    next
      case False
      then show ?thesis using co gh go g(2) s' by (simp add: coalesced_def)
    qed
  qed
qed

section \<open>Pushing and removing blocks\<close>

lemma fits_bound:
  assumes "fits_block f k"
  shows "f < PMM_MAX_FRAMES"
proof -
  have "f < f + 2 ^ k" by simp
  also have "\<dots> \<le> PMM_MAX_FRAMES" using assms by (simp add: fits_block_def)
  finally show ?thesis .
qed

lemma block_not_head:
  assumes "{f..<f + 2 ^ k} \<inter> free_frames s = {}"
  shows "f \<notin> heads s"
proof -
  have "f \<in> {f..<f + 2 ^ k}" by simp
  then show ?thesis using assms heads_free [of f s] range_nonempty [of f s] by blast
qed

lemma heads_free_frames: "heads s \<subseteq> free_frames s"
  using heads_free range_nonempty by blast

lemma buddy_remove:
  assumes inv: "buddy_inv s" and f: "frame_order s f = k" "k \<le> PMM_MAX_ORDER"
  defines "s' \<equiv> list_remove k (addr_of f) s"
  shows "buddy_inv s'" "free_frames s' = free_frames s - {f..<f + 2 ^ k}" "same_mem (free_frames s) s s'"
    "frame_order s' = (frame_order s)(f := ORDER_NONE)"
proof -
  obtain ls where ls: "lists_ok s ls" and ok: "blocks_ok s" and co: "coalesced s" using inv by (auto simp: buddy_inv_def)
  note r = list_remove_ok [OF ls f, folded s'_def]
  have fh: "f \<in> heads s" using f by (simp add: heads_def)
  show "frame_order s' = (frame_order s)(f := ORDER_NONE)" by (rule r(2))
  show "buddy_inv s'" using r(1) blocks_remove(1) [OF ok fh r(2)] coalesced_remove [OF co ok r(2)]
    by (simp add: buddy_inv_def)
  show "free_frames s' = free_frames s - {f..<f + 2 ^ k}"
    using blocks_remove(2) [OF ok fh r(2)] f(1) by (simp add: range_of_def)
  show "same_mem (free_frames s) s s'"
    using same_mem_mono [OF r(3)] heads_free_frames [of s] by blast
qed

lemma buddy_push:
  assumes inv: "buddy_inv s" and fk: "fits_block f k" and disj: "{f..<f + 2 ^ k} \<inter> free_frames s = {}"
    and buddy: "k < PMM_MAX_ORDER \<Longrightarrow> frame_order s (f XOR 2 ^ k) \<noteq> k"
  defines "s' \<equiv> list_push k (addr_of f) s"
  shows "buddy_inv s'" "free_frames s' = free_frames s \<union> {f..<f + 2 ^ k}"
    "same_mem (free_frames s \<union> {f..<f + 2 ^ k}) s s'" "frame_order s' = (frame_order s)(f := k)"
proof -
  obtain ls where ls: "lists_ok s ls" and ok: "blocks_ok s" and co: "coalesced s" using inv by (auto simp: buddy_inv_def)
  have nf: "f \<notin> heads s" by (rule block_not_head [OF disj])
  have fn: "frame_order s f = ORDER_NONE" "0 < f" "f < PMM_MAX_FRAMES" "k \<le> PMM_MAX_ORDER"
    using ok nf fk fits_bound [OF fk] by (auto simp: blocks_ok_def fits_block_def)
  note r = list_push_ok [OF ls fn, folded s'_def]
  note b = blocks_add [OF ok fk disj r(2)]
  show "frame_order s' = (frame_order s)(f := k)" by (rule r(2))
  show "buddy_inv s'" using r(1) b(1) coalesced_add [OF co ok fk nf buddy r(2)] by (simp add: buddy_inv_def)
  show "free_frames s' = free_frames s \<union> {f..<f + 2 ^ k}" by (rule b(2))
  show "same_mem (free_frames s \<union> {f..<f + 2 ^ k}) s s'"
    by (rule same_mem_mono [OF r(3)]) (use heads_free_frames [of s] in auto)
qed

lemma fits_half:
  assumes "fits_block f (Suc k)"
  shows "fits_block f k" "fits_block (f + 2 ^ k) k" "(f + 2 ^ k) XOR 2 ^ k = f"
proof -
  have d: "2 ^ Suc k dvd f" using assms by (simp add: fits_block_def)
  then have dk: "2 ^ k dvd f" by (rule power_le_dvd) simp
  then show "fits_block f k" "fits_block (f + 2 ^ k) k" using assms by (auto simp: fits_block_def)
  have "f XOR 2 ^ k = f + 2 ^ k" using buddy_eq [OF dk] d by simp
  then show "(f + 2 ^ k) XOR 2 ^ k = f" using buddy_pair(5) [OF dk refl] by simp
qed

lemma power_split: "order \<le> k \<Longrightarrow> \<exists>d. (2 :: nat) ^ k = 2 ^ order + d"
  by (rule le_Suc_ex) (rule power_increasing, simp_all)

lemma split_block_ok:
  assumes "buddy_inv s" and "fits_block f k" and "{f..<f + 2 ^ k} \<inter> free_frames s = {}" and "order \<le> k"
  shows "buddy_inv (split_block order (addr_of f) k s)
    \<and> free_frames (split_block order (addr_of f) k s) = free_frames s \<union> {f + 2 ^ order..<f + 2 ^ k}
    \<and> same_mem (free_frames s \<union> {f..<f + 2 ^ k}) s (split_block order (addr_of f) k s)"
  using assms
proof (induction k arbitrary: s)
  case 0
  then show ?case by simp
next
  case (Suc k)
  show ?case
  proof (cases "order < Suc k")
    case False
    then have "order = Suc k" using Suc.prems(4) by simp
    then show ?thesis using Suc.prems by simp
  next
    case True
    let ?g = "f + 2 ^ k"
    note h = fits_half [OF Suc.prems(2)]
    have fh: "f \<notin> heads s" by (rule block_not_head [OF Suc.prems(3)])
    have "frame_order s (?g XOR 2 ^ k) \<noteq> k"
      using fh h Suc.prems(1) by (auto simp: buddy_inv_def blocks_ok_def fits_block_def heads_def)
    moreover have "{?g..<?g + 2 ^ k} \<subseteq> {f..<f + 2 ^ Suc k}" by auto
    then have dg: "{?g..<?g + 2 ^ k} \<inter> free_frames s = {}" using Suc.prems(3) by blast
    ultimately have p: "buddy_inv (list_push k (addr_of ?g) s)"
        "free_frames (list_push k (addr_of ?g) s) = free_frames s \<union> {?g..<?g + 2 ^ k}"
        "same_mem (free_frames s \<union> {?g..<?g + 2 ^ k}) s (list_push k (addr_of ?g) s)"
      using buddy_push [OF Suc.prems(1) h(2)] by blast+
    let ?s = "list_push k (addr_of ?g) s"
    have "{f..<f + 2 ^ k} \<subseteq> {f..<f + 2 ^ Suc k}" "{f..<f + 2 ^ k} \<inter> {?g..<?g + 2 ^ k} = {}" by auto
    then have disj: "{f..<f + 2 ^ k} \<inter> free_frames ?s = {}" using Suc.prems(3) unfolding p(2) by blast
    note IH = Suc.IH [OF p(1) h(1) disj] 
    have ord: "order \<le> k" using True by simp
    have eq: "split_block order (addr_of f) (Suc k) s = split_block order (addr_of f) k ?s"
      using True by (simp add: algebra_simps)
    obtain d where d: "(2 :: nat) ^ k = 2 ^ order + d" using power_split [OF ord] by blast
    have u: "{f + 2 ^ order..<f + 2 ^ k} \<union> {?g..<?g + 2 ^ k} = {f + 2 ^ order..<f + 2 ^ Suc k}"
      unfolding power_Suc d by auto
    have m: "same_mem (free_frames s \<union> {f..<f + 2 ^ Suc k}) s ?s" by (rule same_mem_mono [OF p(3)]) auto
    have "same_mem (free_frames s \<union> {f..<f + 2 ^ Suc k}) ?s (split_block order (addr_of f) k ?s)"
      by (rule same_mem_mono [OF IH [OF ord, THEN conjunct2, THEN conjunct2]]) (unfold p(2), auto)
    then show ?thesis using IH [OF ord] p(2) u same_mem_trans [OF m] unfolding eq by (auto simp: Un_assoc Un_commute)
  qed
qed

lemma merge_up_ok:
  assumes "buddy_inv s" and "fits_block f k" and "{f..<f + 2 ^ k} \<inter> free_frames s = {}"
    and "merge_up f k s = (f', k', s')"
  shows "buddy_inv s' \<and> fits_block f' k' \<and> {f'..<f' + 2 ^ k'} \<inter> free_frames s' = {}
    \<and> free_frames s' \<union> {f'..<f' + 2 ^ k'} = free_frames s \<union> {f..<f + 2 ^ k}
    \<and> (k' < PMM_MAX_ORDER \<longrightarrow> frame_order s' (f' XOR 2 ^ k') \<noteq> k') \<and> same_mem (free_frames s) s s'"
  using assms
proof (induction f k s arbitrary: f' k' s' rule: merge_up.induct)
  case (1 f k s)
  let ?b = "f XOR 2 ^ k"
  have fk: "0 < f" "k \<le> PMM_MAX_ORDER" "2 ^ k dvd f" "f + 2 ^ k \<le> PMM_MAX_FRAMES"
    using 1(3) by (simp_all add: fits_block_def)
  note pair = buddy_pair [OF fk(3) refl]
  have ok: "blocks_ok s" using 1(2) by (simp add: buddy_inv_def)
  show ?case
  proof (cases "k < PMM_MAX_ORDER \<and> ?b < PMM_MAX_FRAMES \<and> frame_order s ?b = k")
    case False
    then have eq: "f' = f" "k' = k" "s' = s" using 1(5) by (auto simp: merge_up.simps [of f k s] split: if_splits)
    have "frame_order s ?b = k \<Longrightarrow> k < PMM_MAX_ORDER \<Longrightarrow> ?b < PMM_MAX_FRAMES"
    proof -
      assume "frame_order s ?b = k" "k < PMM_MAX_ORDER"
      then have "?b \<in> heads s" by (simp add: heads_def)
      then have "fits_block ?b (frame_order s ?b)" using ok by (simp add: blocks_ok_def)
      then show ?thesis by (rule fits_bound)
    qed
    then show ?thesis using 1(2-4) False unfolding eq by auto
  next
    case True
    let ?s = "list_remove k (addr_of ?b) s"
    have bh: "frame_order s ?b = k" "k \<le> PMM_MAX_ORDER" using True by simp_all
    note r = buddy_remove [OF 1(2) bh]
    have "?b \<in> heads s" using bh by (simp add: heads_def)
    then have "fits_block ?b (frame_order s ?b)" using ok by (simp add: blocks_ok_def)
    then have fb: "fits_block ?b k" using bh by simp
    have m: "(if f < ?b then f else ?b) = min f ?b" by simp
    have fm: "fits_block (min f ?b) (Suc k)"
      using pair(1) fb fk True pair(2,3) by (auto simp: fits_block_def min_def)
    have br: "{?b..<?b + 2 ^ k} \<subseteq> free_frames s"
      using heads_free [of ?b s] bh by (simp add: heads_def range_of_def)
    have disj: "{min f ?b..<min f ?b + 2 ^ Suc k} \<inter> free_frames ?s = {}"
      unfolding pair(2) [symmetric] r(2) using 1(4) by auto
    have mu: "merge_up (min f ?b) (Suc k) ?s = (f', k', s')"
      using 1(5) True by (simp add: merge_up.simps [of f k s] m frame_to_phys_def Let_def)
    have IH: "buddy_inv s' \<and> fits_block f' k' \<and> {f'..<f' + 2 ^ k'} \<inter> free_frames s' = {}
      \<and> free_frames s' \<union> {f'..<f' + 2 ^ k'} = free_frames ?s \<union> {min f ?b..<min f ?b + 2 ^ Suc k}
      \<and> (k' < PMM_MAX_ORDER \<longrightarrow> frame_order s' (f' XOR 2 ^ k') \<noteq> k') \<and> same_mem (free_frames ?s) ?s s'"
      by (rule 1(1) [of ?b, unfolded m frame_to_phys_def, OF _ refl _ r(1) fm disj mu]) (use True in simp_all)
    moreover have "free_frames ?s \<union> {min f ?b..<min f ?b + 2 ^ Suc k} = free_frames s \<union> {f..<f + 2 ^ k}"
      unfolding pair(2) [symmetric] r(2) using br by auto
    moreover have "same_mem (free_frames s) ?s s'"
      by (rule same_mem_mono) (use IH r(2) in auto)
    ultimately show ?thesis using same_mem_trans [OF r(3)] by auto
  qed
qed

end
