(* ===== verification/Pmm_Correct.thy ===== *)
theory Pmm_Correct
  imports Pmm_Inv Alloc_Spec
begin

text \<open>
  What the frame allocator promises: allocation hands out an aligned block of free frames and
  fails only when there is none; freeing gives back exactly the block; neither touches memory
  outside the free frames and the block; no two holders share a frame.
\<close>

section \<open>Reference counts\<close>

lemma set_refs:
  "fold (\<lambda>i. set_refcount v (f + i)) [0..<n] s
     = s\<lparr>frame_refcount := (\<lambda>g. if f \<le> g \<and> g < f + n then v else frame_refcount s g)\<rparr>"
proof (induction n)
  case 0
  have "(\<lambda>g. if f \<le> g \<and> g < f then v else frame_refcount s g) = frame_refcount s" by (rule ext) auto
  then show ?case by simp
next
  case (Suc n)
  then show ?case by (auto simp: set_refcount_def fun_eq_iff intro!: kmem.fold_congs)
qed

lemma dec_refs:
  "fold (\<lambda>i s. set_refcount (frame_refcount s (f + i) - 1) (f + i) s) [0..<n] s
     = s\<lparr>frame_refcount := (\<lambda>g. if f \<le> g \<and> g < f + n then frame_refcount s g - 1 else frame_refcount s g)\<rparr>"
proof (induction n)
  case 0
  have "(\<lambda>g. if f \<le> g \<and> g < f then frame_refcount s g - 1 else frame_refcount s g) = frame_refcount s"
    by (rule ext) auto
  then show ?case by simp
next
  case (Suc n)
  then show ?case by (auto simp: set_refcount_def fun_eq_iff intro!: kmem.fold_congs)
qed

section \<open>The invariant\<close>

definition pmm_inv :: "kmem \<Rightarrow> bool" where
  "pmm_inv s \<longleftrightarrow> buddy_inv s \<and> (\<forall>g \<in> free_frames s. frame_refcount s g = 0)
     \<and> total_free_frames s = of_nat (card (free_frames s))"

lemma buddy_fields [simp]:
  "lists_ok (s\<lparr>frame_refcount := r\<rparr>) ls = lists_ok s ls" "lists_ok (s\<lparr>total_free_frames := n\<rparr>) ls = lists_ok s ls"
  "heads (s\<lparr>frame_refcount := r\<rparr>) = heads s" "heads (s\<lparr>total_free_frames := n\<rparr>) = heads s"
  "range_of (s\<lparr>frame_refcount := r\<rparr>) = range_of s" "range_of (s\<lparr>total_free_frames := n\<rparr>) = range_of s"
  by (auto simp: lists_ok_def heads_def range_of_def fun_eq_iff)

lemma buddy_fields2 [simp]:
  "free_frames (s\<lparr>frame_refcount := r\<rparr>) = free_frames s" "free_frames (s\<lparr>total_free_frames := n\<rparr>) = free_frames s"
  "buddy_inv (s\<lparr>frame_refcount := r\<rparr>) = buddy_inv s" "buddy_inv (s\<lparr>total_free_frames := n\<rparr>) = buddy_inv s"
  by (simp_all add: free_frames_def buddy_inv_def blocks_ok_def coalesced_def)

lemma free_bound: "buddy_inv s \<Longrightarrow> free_frames s \<subseteq> {0<..<PMM_MAX_FRAMES}"
  by (fastforce simp: buddy_inv_def blocks_ok_def free_frames_def range_of_def fits_block_def)

lemma free_finite: "buddy_inv s \<Longrightarrow> finite (free_frames s)"
  using free_bound finite_subset by blast

lemma find_order_spec:
  "order \<le> find_order h order" "\<forall>k. order \<le> k \<and> k < find_order h order \<longrightarrow> h k = 0 \<and> k \<le> PMM_MAX_ORDER"
  "find_order h order \<le> PMM_MAX_ORDER \<Longrightarrow> h (find_order h order) \<noteq> 0"
proof (induction h order rule: find_order.induct)
  case (1 h order)
  {
    case 1
    then show ?case using "1.IH"(1) by (subst find_order.simps) auto
  next
    case 2
    show ?case
    proof (cases "order \<le> PMM_MAX_ORDER \<and> h order = 0")
      case True
      then have "find_order h order = find_order h (Suc order)" by (subst find_order.simps) simp
      moreover have "\<forall>k. Suc order \<le> k \<and> k < find_order h (Suc order) \<longrightarrow> h k = 0 \<and> k \<le> PMM_MAX_ORDER"
        using "1.IH"(2) True by blast
      ultimately show ?thesis using True by (metis Suc_leI le_neq_implies_less)
    next
      case False
      then have "find_order h order = order" unfolding find_order.simps [of h order] by argo
      then show ?thesis by simp
    qed
  next
    case 3
    then show ?case using "1.IH"(3) by (subst find_order.simps, subst (asm) find_order.simps) (auto split: if_splits)
  }
qed

section \<open>Allocation\<close>

lemma run_is_block:
  assumes "{r..<r + 2 ^ k} \<subseteq> {f..<f + 2 ^ j}" and "j \<le> k"
  shows "f = (r :: nat)" "j = k"
proof -
  have "r < r + 2 ^ k" by simp
  then have fr: "f \<le> r" "r + 2 ^ k \<le> f + 2 ^ j"
    using atLeastLessThan_subset_iff [OF assms(1)] by simp_all
  then have "(2 :: nat) ^ k \<le> 2 ^ j" by linarith
  then have "k \<le> j" by simp
  then show "j = k" using assms(2) by simp
  then show "f = r" using fr by simp
qed

text \<open>A free run of aligned frames lies inside one free block.\<close>

lemma coalesced_run:
  assumes ok: "blocks_ok s" and co: "coalesced s"
  shows "2 ^ k dvd r \<Longrightarrow> k \<le> PMM_MAX_ORDER \<Longrightarrow> {r..<r + 2 ^ k} \<subseteq> free_frames s \<Longrightarrow>
    \<exists>f \<in> heads s. {r..<r + 2 ^ k} \<subseteq> range_of s f"
proof (induction k arbitrary: r)
  case 0
  then show ?case by (auto simp: free_frames_def)
next
  case (Suc k)
  have d: "2 ^ k dvd r" using Suc.prems(1) by (rule power_le_dvd) simp
  have wide: "{r..<r + 2 ^ Suc k} \<subseteq> range_of s f"
    if f: "f \<in> heads s" "x \<in> range_of s f" "x \<in> {r..<r + 2 ^ Suc k}" "k < frame_order s f" for f x
  proof -
    let ?j = "frame_order s f"
    have "2 ^ ?j dvd f" using ok f(1) by (simp add: blocks_ok_def fits_block_def)
    moreover have "2 ^ Suc k dvd (2 :: nat) ^ ?j" using f(4) by (intro le_imp_power_dvd) simp
    ultimately have "2 ^ Suc k dvd f" "2 ^ Suc k dvd f + 2 ^ ?j" by (metis dvd_trans, metis dvd_add dvd_trans)
    then obtain a b c where abc: "f = 2 ^ Suc k * a" "f + 2 ^ ?j = 2 ^ Suc k * b" "r = 2 ^ Suc k * c"
      using Suc.prems(1) by (metis dvdE)
    have x: "f \<le> x" "x < f + 2 ^ ?j" "r \<le> x" "x < r + 2 ^ Suc k" using f(2,3) by (auto simp: range_of_def)
    have "2 ^ Suc k * a < 2 ^ Suc k * (c + 1)" using x(1,4) unfolding abc(1,3) by simp
    moreover have "2 ^ Suc k * c < 2 ^ Suc k * b" using x(2,3) unfolding abc(2,3) by linarith
    ultimately have "2 ^ Suc k * a < 2 ^ Suc k * (c + 1)" "2 ^ Suc k * c < 2 ^ Suc k * b" .
    then have "a \<le> c" "c + 1 \<le> b" unfolding mult_less_cancel1 by simp_all
    then have "2 ^ Suc k * a \<le> 2 ^ Suc k * c" "2 ^ Suc k * (c + 1) \<le> 2 ^ Suc k * b" by (blast intro: mult_le_mono2)+
    then show ?thesis using abc by (auto simp: range_of_def)
  qed
  have sub: "{r..<r + 2 ^ k} \<subseteq> {r..<r + 2 ^ Suc k}" "{r + 2 ^ k..<r + 2 ^ k + 2 ^ k} \<subseteq> {r..<r + 2 ^ Suc k}" by auto
  obtain f where f: "f \<in> heads s" "{r..<r + 2 ^ k} \<subseteq> range_of s f"
    using Suc.IH [OF d] Suc.prems(2,3) sub by (meson Suc_leD subset_trans)
  obtain g where g: "g \<in> heads s" "{r + 2 ^ k..<r + 2 ^ k + 2 ^ k} \<subseteq> range_of s g"
    using Suc.IH [of "r + 2 ^ k"] d Suc.prems(2,3) sub by (meson Suc_leD dvd_add dvd_refl subset_trans)
  have rin: "r \<in> {r..<r + 2 ^ k}" "r + 2 ^ k \<in> {r + 2 ^ k..<r + 2 ^ k + 2 ^ k}" by simp_all
  consider "k < frame_order s f" | "k < frame_order s g" | "frame_order s f \<le> k" "frame_order s g \<le> k" by linarith
  then show ?case
  proof cases
    case 1
    then show ?thesis using wide [OF f(1), of r] f rin sub by blast
  next
    case 2
    then show ?thesis using wide [OF g(1), of "r + 2 ^ k"] g rin sub by blast
  next
    case 3
    have "f = r \<and> frame_order s f = k" "g = r + 2 ^ k \<and> frame_order s g = k"
      using run_is_block [of r k f "frame_order s f"] run_is_block [of "r + 2 ^ k" k g "frame_order s g"] f(2) g(2) 3
      unfolding range_of_def by blast+
    moreover have "r XOR 2 ^ k = r + 2 ^ k" using buddy_eq [OF d] Suc.prems(1) by simp
    ultimately show ?thesis using co f(1) g(1) Suc.prems(2) by (auto simp: coalesced_def)
  qed
qed

text \<open>What a successful allocation of the block at frame \<open>f\<close> does.\<close>

definition allocated :: "nat \<Rightarrow> nat \<Rightarrow> kmem \<Rightarrow> kmem \<Rightarrow> bool" where
  "allocated f order s s' \<longleftrightarrow> fits_block f order \<and> {f..<f + 2 ^ order} \<subseteq> free_frames s
     \<and> free_frames s' = free_frames s - {f..<f + 2 ^ order}
     \<and> (\<forall>g. frame_refcount s' g = (if g \<in> {f..<f + 2 ^ order} then 1 else frame_refcount s g))
     \<and> (\<forall>x. x \<notin> link_cells (free_frames s) \<longrightarrow> pmem s' x = pmem s x)"

lemma pmm_alloc_fails:
  assumes inv: "pmm_inv s" and order: "order \<le> PMM_MAX_ORDER"
    and none: "PMM_MAX_ORDER < find_order (free_lists s) order"
  shows "\<not> (\<exists>r. 2 ^ order dvd r \<and> {r..<r + 2 ^ order} \<subseteq> free_frames s)"
proof
  assume "\<exists>r. 2 ^ order dvd r \<and> {r..<r + 2 ^ order} \<subseteq> free_frames s"
  then obtain r where r: "2 ^ order dvd r" "{r..<r + 2 ^ order} \<subseteq> free_frames s" by blast
  obtain ls where ls: "lists_ok s ls" and ok: "blocks_ok s" and co: "coalesced s"
    using inv by (auto simp: pmm_inv_def buddy_inv_def)
  obtain f where f: "f \<in> heads s" "{r..<r + 2 ^ order} \<subseteq> range_of s f"
    using coalesced_run [OF ok co r(1) order r(2)] by blast
  let ?k = "frame_order s f"
  have k: "?k \<le> PMM_MAX_ORDER" using f(1) by (simp add: heads_def)
  have "order \<le> ?k"
    using run_is_block(2) [of r order f ?k] f(2) by (cases "?k \<le> order") (auto simp: range_of_def)
  then have "free_lists s ?k = 0" using find_order_spec(2) [of order "free_lists s"] none k by auto
  moreover have "f \<in> set (ls ?k)" "\<forall>g \<in> set (ls ?k). 0 < g" using lists_okD(4,5) [OF ls k] by auto
  ultimately show False using lists_okD(1) [OF ls k] by (cases "ls ?k") auto
qed

lemma pmm_alloc_gives:
  assumes inv: "pmm_inv s" and found: "find_order (free_lists s) order \<le> PMM_MAX_ORDER"
    and order: "order \<le> PMM_MAX_ORDER"
  shows "\<exists>f s'. pmm_alloc order s = (addr_of f, s') \<and> pmm_inv s' \<and> allocated f order s s'"
proof -
  let ?k = "find_order (free_lists s) order"
  have bi: "buddy_inv s" and ref0: "\<forall>g \<in> free_frames s. frame_refcount s g = 0"
    and tot: "total_free_frames s = of_nat (card (free_frames s))" using inv by (simp_all add: pmm_inv_def)
  obtain ls where ls: "lists_ok s ls" and ok: "blocks_ok s" using bi by (auto simp: buddy_inv_def)
  have ok_order: "order \<le> ?k" by (rule find_order_spec(1))
  obtain f where f: "free_lists s ?k = addr_of f" "frame_order s f = ?k"
    using find_order_spec(3) [OF found] lists_okD(1,4) [OF ls found] by (cases "ls ?k") auto
  then have fh: "f \<in> heads s" using found by (simp add: heads_def)
  have "fits_block f (frame_order s f)" using ok fh by (simp add: blocks_ok_def)
  then have fb: "fits_block f ?k" using f(2) by simp
  have blk: "{f..<f + 2 ^ ?k} \<subseteq> free_frames s" using heads_free [OF fh] f(2) by (simp add: range_of_def)
  define s1 where "s1 = list_remove ?k (addr_of f) s"
  note r = buddy_remove [OF bi f(2) found, folded s1_def]
  define s2 where "s2 = split_block order (addr_of f) ?k s1"
  have disj: "{f..<f + 2 ^ ?k} \<inter> free_frames s1 = {}" by (auto simp: r(2))
  have sp: "buddy_inv s2" "free_frames s2 = free_frames s1 \<union> {f + 2 ^ order..<f + 2 ^ ?k}"
      "same_mem (free_frames s1 \<union> {f..<f + 2 ^ ?k}) s1 s2"
    using split_block_ok [OF r(1) fb disj ok_order] by (simp_all add: s2_def)
  have u: "free_frames s1 \<union> {f..<f + 2 ^ ?k} = free_frames s" using blk by (auto simp: r(2))
  have m2: "same_mem (free_frames s) s s2" using same_mem_trans [OF r(3)] sp(3) u by simp
  obtain d where d: "(2 :: nat) ^ ?k = 2 ^ order + d" using power_split [OF ok_order] by blast
  have fr: "{f..<f + 2 ^ order} \<subseteq> free_frames s" "free_frames s2 = free_frames s - {f..<f + 2 ^ order}"
    using blk unfolding sp(2) r(2) d by auto
  define s' where "s' = s2\<lparr>frame_refcount := (\<lambda>g. if f \<le> g \<and> g < f + 2 ^ order then 1 else frame_refcount s2 g),
      total_free_frames := total_free_frames s2 - 2 ^ order\<rparr>"
  have eq: "pmm_alloc order s = (addr_of f, s')"
    unfolding s'_def s2_def s1_def using order found
    by (simp add: pmm_alloc_def Let_def f(1) set_refs phys_to_frame_def)
  have rc: "frame_refcount s2 = frame_refcount s" "total_free_frames s2 = total_free_frames s"
    using m2 by (simp_all add: same_mem_def)
  have fit: "fits_block f order" using fb ok_order order power_le_dvd [of 2 ?k f order] d by (auto simp: fits_block_def)
  have "card (free_frames s) = card (free_frames s2) + 2 ^ order"
    using card_Diff_subset [OF _ fr(1)] card_mono [OF free_finite [OF bi] fr(1)] by (simp add: fr(2))
  then have "pmm_inv s'" using sp(1) ref0 tot fr unfolding pmm_inv_def by (auto simp: s'_def rc)
  moreover have "allocated f order s s'"
    using fit fr m2 by (auto simp: allocated_def s'_def rc same_mem_def)
  ultimately show ?thesis using eq by blast
qed

section \<open>Freeing\<close>

definition freed :: "nat \<Rightarrow> nat \<Rightarrow> kmem \<Rightarrow> kmem \<Rightarrow> bool" where
  "freed f order s s' \<longleftrightarrow> free_frames s' = free_frames s \<union> {f..<f + 2 ^ order}
     \<and> (\<forall>g. frame_refcount s' g = (if g \<in> {f..<f + 2 ^ order} then 0 else frame_refcount s g))
     \<and> (\<forall>x. x \<notin> link_cells (free_frames s \<union> {f..<f + 2 ^ order}) \<longrightarrow> pmem s' x = pmem s x)"

text \<open>A block all of whose frames have one reference goes back to the free lists.\<close>

lemma pmm_free_last:
  assumes inv: "pmm_inv s" and fb: "fits_block f order"
    and out: "{f..<f + 2 ^ order} \<inter> free_frames s = {}"
    and one: "\<forall>g \<in> {f..<f + 2 ^ order}. frame_refcount s g = 1"
  shows "pmm_inv (pmm_free (addr_of f) order s) \<and> freed f order s (pmm_free (addr_of f) order s)"
proof -
  let ?B = "{f..<f + 2 ^ order}"
  have bi: "buddy_inv s" and ref0: "\<forall>g \<in> free_frames s. frame_refcount s g = 0"
    and tot: "total_free_frames s = of_nat (card (free_frames s))" using inv by (simp_all add: pmm_inv_def)
  define s1 where "s1 = s\<lparr>frame_refcount := (\<lambda>g. if f \<le> g \<and> g < f + 2 ^ order then frame_refcount s g - 1 else frame_refcount s g),
      total_free_frames := total_free_frames s + 2 ^ order\<rparr>"
  have b1: "buddy_inv s1" "free_frames s1 = free_frames s" "pmem s1 = pmem s" using bi by (simp_all add: s1_def)
  obtain f' k' s2 where mu: "merge_up f order s1 = (f', k', s2)" by (metis prod_cases3)
  have m: "buddy_inv s2" "fits_block f' k'" "{f'..<f' + 2 ^ k'} \<inter> free_frames s2 = {}"
      "free_frames s2 \<union> {f'..<f' + 2 ^ k'} = free_frames s \<union> ?B"
      "k' < PMM_MAX_ORDER \<Longrightarrow> frame_order s2 (f' XOR 2 ^ k') \<noteq> k'" "same_mem (free_frames s) s1 s2"
    using merge_up_ok [OF b1(1) fb _ mu] out b1(2) by auto
  define s' where "s' = list_push k' (addr_of f') s2"
  note p = buddy_push [OF m(1-3) m(5), folded s'_def]
  have fin: "f + 2 ^ order \<le> PMM_MAX_FRAMES" "f < PMM_MAX_FRAMES"
    using fb fits_bound [OF fb] by (simp_all add: fits_block_def)
  have z: "\<not> (\<exists>i \<in> {..<2 ^ order}. frame_refcount s (f + i) - 1 \<noteq> 0)" using one by auto
  have eq: "pmm_free (addr_of f) order s = s'"
    using fin z by (auto simp: pmm_free_def Let_def phys_to_frame_def dec_refs frame_to_phys_def s1_def [symmetric] mu s'_def)
  have rc: "frame_refcount s' g = (if g \<in> ?B then 0 else frame_refcount s g)" for g
    using p(3) m(6) one by (auto simp: same_mem_def s1_def)
  have ff: "free_frames s' = free_frames s \<union> ?B" using p(2) m(4) by simp
  have "total_free_frames s' = total_free_frames s + 2 ^ order"
    using p(3) m(6) by (simp add: same_mem_def s1_def)
  moreover have "card (free_frames s \<union> ?B) = card (free_frames s) + 2 ^ order"
    using card_Un_disjoint [OF free_finite [OF bi], of ?B] out by (simp add: Int_commute)
  ultimately have "pmm_inv s'" using p(1) ref0 tot ff rc by (auto simp: pmm_inv_def)
  moreover have "\<forall>x. x \<notin> link_cells (free_frames s \<union> ?B) \<longrightarrow> pmem s' x = pmem s x"
    using p(3) m(4,6) link_cells_mono [of "free_frames s" "free_frames s \<union> ?B"] b1(3)
    by (auto simp: same_mem_def)
  ultimately show ?thesis unfolding eq freed_def using rc ff by auto
qed

text \<open>A block some frame of which is still shared only loses one reference per frame.\<close>

lemma pmm_free_shared:
  assumes fb: "fits_block f order" and g: "g \<in> {f..<f + 2 ^ order}" "frame_refcount s g \<noteq> 1"
  shows "pmm_free (addr_of f) order s = s\<lparr>frame_refcount := (\<lambda>g. if f \<le> g \<and> g < f + 2 ^ order
    then frame_refcount s g - 1 else frame_refcount s g)\<rparr>"
proof -
  have fin: "f + 2 ^ order \<le> PMM_MAX_FRAMES" "f < PMM_MAX_FRAMES"
    using fb fits_bound [OF fb] by (simp_all add: fits_block_def)
  have "\<exists>i \<in> {..<2 ^ order}. frame_refcount s (f + i) - 1 \<noteq> 0"
    using g by (intro bexI [of _ "g - f"]) auto
  then show ?thesis using fin by (auto simp: pmm_free_def Let_def phys_to_frame_def dec_refs)
qed

lemma pmm_free_shared_inv:
  assumes inv: "pmm_inv s" and fb: "fits_block f order" and g: "g \<in> {f..<f + 2 ^ order}" "frame_refcount s g \<noteq> 1"
    and out: "{f..<f + 2 ^ order} \<inter> free_frames s = {}"
  shows "pmm_inv (pmm_free (addr_of f) order s)"
  using inv out unfolding pmm_free_shared [OF fb g] by (auto simp: pmm_inv_def)

section \<open>Holders of single frames\<close>

text \<open>The allocator of single frames as an allocator of identities.\<close>

definition alloc_frame :: "kmem \<Rightarrow> (nat \<times> kmem) option" where
  "alloc_frame s = (case pmm_alloc 0 s of (phys, s') \<Rightarrow> if phys = 0 then None else Some (phys div 4096, s'))"

definition free_frame :: "nat \<Rightarrow> kmem \<Rightarrow> kmem" where
  "free_frame f s = pmm_free (addr_of f) 0 s"

definition held_frames :: "kmem \<Rightarrow> nat set" where
  "held_frames s = {f. fits_block f 0 \<and> f \<notin> free_frames s \<and> frame_refcount s f = 1}"

lemma alloc_frame_gives:
  assumes inv: "pmm_inv s" and a: "alloc_frame s = Some (f, s')"
  shows "pmm_inv s' \<and> allocated f 0 s s'"
proof -
  have "find_order (free_lists s) 0 \<le> PMM_MAX_ORDER"
    using a by (auto simp: alloc_frame_def pmm_alloc_def Let_def split: if_splits)
  then obtain g t where "pmm_alloc 0 s = (addr_of g, t)" "pmm_inv t" "allocated g 0 s t"
    using pmm_alloc_gives [OF inv] by blast
  then show ?thesis using a by (auto simp: alloc_frame_def split: if_splits)
qed

lemma free_frame_gives:
  assumes inv: "pmm_inv s" and f: "f \<in> held_frames s"
  shows "pmm_inv (free_frame f s) \<and> freed f 0 s (free_frame f s)"
  using pmm_free_last [OF inv, of f 0] f by (simp add: held_frames_def free_frame_def)

interpretation frames: id_allocator pmm_inv held_frames alloc_frame free_frame
proof
  fix s f s' assume inv: "pmm_inv s" and a: "alloc_frame s = Some (f, s')"
  have al: "pmm_inv s'" "allocated f 0 s s'" using alloc_frame_gives [OF inv a] by simp_all
  then have fr: "f \<in> free_frames s" "free_frames s' = free_frames s - {f}" "fits_block f 0"
      "\<And>g. frame_refcount s' g = (if g = f then 1 else frame_refcount s g)" by (auto simp: allocated_def)
  show "pmm_inv s'" by (rule al(1))
  show "f \<notin> held_frames s" using fr(1) by (simp add: held_frames_def)
  show "held_frames s' = insert f (held_frames s)"
    using fr inv by (auto simp: held_frames_def pmm_inv_def)
next
  fix s f assume inv: "pmm_inv s" and f: "f \<in> held_frames s"
  have fr: "pmm_inv (free_frame f s)" "freed f 0 s (free_frame f s)" using free_frame_gives [OF inv f] by simp_all
  show "pmm_inv (free_frame f s)" by (rule fr(1))
  show "held_frames (free_frame f s) = held_frames s - {f}"
    using fr(2) by (auto simp: held_frames_def freed_def)
qed

section \<open>Boot\<close>

lemma pmm_reset_ok: "pmm_inv (pmm_reset s)" "free_frames (pmm_reset s) = {}"
proof -
  have "heads (pmm_reset s) = {}" by (simp add: heads_def pmm_reset_def)
  moreover have "lists_ok (pmm_reset s) (\<lambda>_. [])" by (simp add: lists_ok_def pmm_reset_def)
  ultimately show "pmm_inv (pmm_reset s)" "free_frames (pmm_reset s) = {}"
    by (auto simp: pmm_inv_def buddy_inv_def blocks_ok_def coalesced_def free_frames_def pmm_reset_def)
qed

text \<open>Every frame of a region becomes free once.\<close>

definition unused :: "kmem \<Rightarrow> nat set \<Rightarrow> bool" where
  "unused s F \<longleftrightarrow> F \<inter> free_frames s = {} \<and> (\<forall>f \<in> F. frame_refcount s f = 1)"

definition seeded :: "nat set \<Rightarrow> kmem \<Rightarrow> kmem \<Rightarrow> bool" where
  "seeded F s s' \<longleftrightarrow> pmm_inv s' \<and> free_frames s' = free_frames s \<union> F
     \<and> (\<forall>g. g \<notin> F \<longrightarrow> frame_refcount s' g = frame_refcount s g)"

lemma seeded_trans: "seeded F s s' \<Longrightarrow> seeded G s' s'' \<Longrightarrow> seeded (F \<union> G) s s''"
  by (auto simp: seeded_def)

lemma seeded_unused: "seeded F s s' \<Longrightarrow> unused s G \<Longrightarrow> F \<inter> G = {} \<Longrightarrow> unused s' G"
  by (auto simp: seeded_def unused_def)

lemma pmm_inv_fields [simp]:
  "pmm_inv (s\<lparr>total_usable_frames := n, frame_limit := l\<rparr>) = pmm_inv s"
  "free_frames (s\<lparr>total_usable_frames := n, frame_limit := l\<rparr>) = free_frames s"
  by (simp_all add: pmm_inv_def buddy_inv_def lists_ok_def blocks_ok_def coalesced_def free_frames_def heads_def
      range_of_def)

lemma add_frame_ok:
  assumes "pmm_inv s" and "unused s {f}" and "fits_block f 0"
  shows "seeded {f} s (add_frame (addr_of f) s)"
proof -
  have "pmm_inv (pmm_free (addr_of f) 0 s) \<and> freed f 0 s (pmm_free (addr_of f) 0 s)"
    using pmm_free_last [OF assms(1,3)] assms(2) by (simp add: unused_def)
  then show ?thesis by (auto simp: add_frame_def Let_def seeded_def freed_def)
qed

lemma add_frames_ok:
  assumes "pmm_inv s" and "unused s {a..<min b PMM_MAX_FRAMES}" and "0 < a"
  shows "seeded {a..<min b PMM_MAX_FRAMES} s (add_frames (addr_of a) (addr_of b) s)"
  using assms
proof (induction "b - a" arbitrary: a s)
  case 0
  then show ?case by (auto simp: add_frames.simps seeded_def)
next
  case (Suc n)
  show ?case
  proof (cases "a < PMM_MAX_FRAMES")
    case False
    then have "add_frames (addr_of a) (addr_of b) s = s" by (simp add: add_frames.simps phys_to_frame_def)
    then show ?thesis using False Suc.prems(1) by (simp add: seeded_def)
  next
    case True
    let ?s = "add_frame (addr_of a) s"
    have ab: "a < b" using Suc.hyps(2) by simp
    have r: "{a..<min b PMM_MAX_FRAMES} = {a} \<union> {Suc a..<min b PMM_MAX_FRAMES}" using ab True by auto
    have st: "seeded {a} s ?s"
      using add_frame_ok [OF Suc.prems(1), of a] Suc.prems(2,3) True r by (auto simp: unused_def fits_block_def)
    have un: "unused ?s {Suc a..<min b PMM_MAX_FRAMES}"
      by (rule seeded_unused [OF st]) (use Suc.prems(2) r in \<open>auto simp: unused_def\<close>)
    have "add_frames (addr_of a) (addr_of b) s = add_frames (addr_of (Suc a)) (addr_of b) ?s"
      using ab True by (subst add_frames.simps) (simp add: phys_to_frame_def add.commute)
    then show ?thesis using seeded_trans [OF st Suc.hyps(1) [OF _ _ un]] Suc.hyps(2) st unfolding r
      by (simp add: seeded_def)
  qed
qed

text \<open>The frames of a region, of the part of an entry that is kept, and of a memory map.\<close>

definition region_frames :: "nat \<Rightarrow> nat \<Rightarrow> nat set" where
  "region_frames start stop = {(start + 4095) div 4096..<min (stop div 4096) PMM_MAX_FRAMES}"

definition entry_frames :: "nat \<Rightarrow> nat \<Rightarrow> nat \<times> nat \<times> nat \<Rightarrow> nat set" where
  "entry_frames ks ke ent = (case ent of (base, len, kind) \<Rightarrow>
     if kind \<noteq> MULTIBOOT_MEMORY_AVAILABLE then {}
     else let start = max base 0x100000; region_end = base + len
          in if start < ke \<and> ks < region_end
             then (if start < ks then region_frames start ks else {})
                \<union> (if ke < region_end then region_frames ke region_end else {})
             else region_frames start region_end)"

lemma add_region_ok:
  assumes "pmm_inv s" and "unused s (region_frames start stop)" and "0 < start" and "start + 4095 < 2 ^ 64"
  shows "seeded (region_frames start stop) s (add_region start stop s)"
proof -
  have "0 < (start + 4095) div 4096" using assms(3) by (simp add: div_greater_zero_iff)
  then show ?thesis
    using add_frames_ok [OF assms(1), of "(start + 4095) div 4096" "stop div 4096"] assms(2,4)
    by (simp add: add_region_def region_frames_def add.commute)
qed

text \<open>No available entry reaches into the last page of the 64-bit space, where the sums of the code would
  wrap around.\<close>

definition entry_fits :: "nat \<times> nat \<times> nat \<Rightarrow> bool" where
  "entry_fits ent = (case ent of (base, len, kind) \<Rightarrow>
     kind = MULTIBOOT_MEMORY_AVAILABLE \<longrightarrow> base + len \<le> 2 ^ 64 - 4096)"

lemma add_entry_ok:
  assumes fit: "entry_fits ent" and inv: "pmm_inv s" and un: "unused s (entry_frames ks ke ent)" and k: "ks \<le> ke" "0 < ks"
  shows "seeded (entry_frames ks ke ent) s (add_entry ks ke ent s)"
proof -
  obtain base len kind where ent: "ent = (base, len, kind)" by (metis prod_cases3)
  define start where "start = max base 0x100000"
  define stop where "stop = base + len"
  have sp: "0 < start" by (simp add: start_def)
  have lim: "start + 4095 < 2 ^ 64" "stop + 4095 < 2 ^ 64" "(base + len) mod 2 ^ 64 = stop"
    if "kind = MULTIBOOT_MEMORY_AVAILABLE"
    using fit that by (auto simp: ent entry_fits_def start_def stop_def)
  show ?thesis
  proof (cases "kind = MULTIBOOT_MEMORY_AVAILABLE \<and> start < ke \<and> ks < stop")
    case False
    show ?thesis
    proof (cases "kind = MULTIBOOT_MEMORY_AVAILABLE")
      case True
      with False have e: "entry_frames ks ke ent = region_frames start stop"
          "add_entry ks ke ent s = add_region start stop s"
        using lim(3) by (auto simp: ent add_entry_def entry_frames_def Let_def start_def stop_def)
      show ?thesis unfolding e using un [unfolded e] lim True by (intro add_region_ok inv sp)
    qed (use inv in \<open>simp add: ent add_entry_def entry_frames_def seeded_def\<close>)
  next
    case True
    let ?A = "if start < ks then region_frames start ks else {}"
    let ?B = "if ke < stop then region_frames ke stop else {}"
    let ?s = "if start < ks then add_region start ks s else s"
    have ef: "entry_frames ks ke ent = ?A \<union> ?B" using True by (simp add: ent entry_frames_def Let_def start_def stop_def)
    have "region_frames start ks \<inter> region_frames ke stop = {}"
      using k(1) div_le_mono [of ks "ke + 4095" 4096] by (auto simp: region_frames_def)
    then have AB: "?A \<inter> ?B = {}" by auto
    have "unused s ?A" using un by (auto simp: ef unused_def)
    then have A: "seeded ?A s ?s"
      using add_region_ok [OF inv _ sp, of ks] inv lim True by (cases "start < ks") (simp_all add: seeded_def)
    have "unused ?s ?B" by (rule seeded_unused [OF A _ AB]) (use un in \<open>auto simp: ef unused_def\<close>)
    then have B: "seeded ?B ?s (if ke < stop then add_region ke stop ?s else ?s)"
      using add_region_ok [of ?s ke stop] A k lim True by (cases "ke < stop") (simp_all add: seeded_def)
    have "add_entry ks ke ent s = (if ke < stop then add_region ke stop ?s else ?s)"
      using True lim(3) unfolding ent add_entry_def Let_def prod.case start_def [symmetric] by simp
    then show ?thesis using seeded_trans [OF A B] unfolding ef by (simp only:)
  qed
qed

lemma add_entries_ok:
  assumes "ks \<le> ke" and "0 < ks"
  shows "pmm_inv s \<Longrightarrow> list_all entry_fits mmap \<Longrightarrow> unused s (\<Union>ent \<in> set mmap. entry_frames ks ke ent) \<Longrightarrow>
    sorted_wrt (\<lambda>e e'. entry_frames ks ke e \<inter> entry_frames ks ke e' = {}) mmap \<Longrightarrow>
    seeded (\<Union>ent \<in> set mmap. entry_frames ks ke ent) s (fold (add_entry ks ke) mmap s)"
proof (induction mmap arbitrary: s)
  case Nil
  then show ?case by (simp add: seeded_def)
next
  case (Cons e mmap)
  let ?s = "add_entry ks ke e s"
  have st: "seeded (entry_frames ks ke e) s ?s"
    by (rule add_entry_ok [OF _ Cons.prems(1) _ assms]) (use Cons.prems(2,3) in \<open>auto simp: unused_def\<close>)
  have "unused ?s (\<Union>ent \<in> set mmap. entry_frames ks ke ent)"
    by (rule seeded_unused [OF st]) (use Cons.prems(3,4) in \<open>auto simp: unused_def\<close>)
  then have "seeded (\<Union>ent \<in> set mmap. entry_frames ks ke ent) ?s (fold (add_entry ks ke) mmap ?s)"
    using Cons.IH [of ?s] Cons.prems(2,4) st by (simp add: seeded_def)
  then show ?case using seeded_trans [OF st] by simp
qed

lemma pmm_init_ok:
  assumes "ks \<le> ke" and "0 < ks" and "list_all entry_fits mmap"
    and "sorted_wrt (\<lambda>e e'. entry_frames ks ke e \<inter> entry_frames ks ke e' = {}) mmap"
  shows "pmm_inv (pmm_init ks ke mmap s)"
    "free_frames (pmm_init ks ke mmap s) = (\<Union>ent \<in> set mmap. entry_frames ks ke ent)"
proof -
  have "unused (pmm_reset s) F" for F by (simp add: unused_def pmm_reset_ok(2)) (simp add: pmm_reset_def)
  then have "seeded (\<Union>ent \<in> set mmap. entry_frames ks ke ent) (pmm_reset s) (pmm_init ks ke mmap s)"
    unfolding pmm_init_def by (intro add_entries_ok assms pmm_reset_ok(1))
  then show "pmm_inv (pmm_init ks ke mmap s)"
    "free_frames (pmm_init ks ke mmap s) = (\<Union>ent \<in> set mmap. entry_frames ks ke ent)"
    by (simp_all add: seeded_def pmm_reset_ok(2))
qed

section \<open>Properties\<close>

text \<open>A machine with eight usable frames, 256 to 263, above the first megabyte.\<close>

definition blank_mem :: kmem where
  "blank_mem = \<lparr>pmem = (\<lambda>_. 0), free_lists = (\<lambda>_. 0), frame_order = (\<lambda>_. 0), frame_refcount = (\<lambda>_. 0),
     total_free_frames = 0, total_usable_frames = 0, frame_limit = 0\<rparr>"

definition small_map :: "(nat \<times> nat \<times> nat) list" where
  "small_map = [(0, 0x9000, 1), (0x9000, 0xF7000, 2), (0x100000, 0x8000, 1)]"

definition small_mem :: kmem where
  "small_mem = pmm_init 0x1000 0x2000 small_map blank_mem"

lemma small_entries:
  "entry_frames 0x1000 0x2000 (0, 0x9000, 1) = {}" "entry_frames 0x1000 0x2000 (0x9000, 0xF7000, 2) = {}"
  "entry_frames 0x1000 0x2000 (0x100000, 0x8000, 1) = {256..<264}"
  by (simp_all add: entry_frames_def region_frames_def)

lemma small_mem_ok: "pmm_inv small_mem" "free_frames small_mem = {256..<264}"
  using pmm_init_ok [where ks = 4096 and ke = 8192 and mmap = small_map and s = blank_mem]
  by (simp_all add: small_mem_def small_map_def small_entries entry_fits_def del: One_nat_def)

lemma small_alloc:
  assumes "order \<le> 3"
  obtains f s' where "pmm_alloc order small_mem = (addr_of f, s')" "pmm_inv s'" "allocated f order small_mem s'" "0 < f"
proof -
  have le14: "order \<le> PMM_MAX_ORDER" using assms by simp
  have "2 ^ order \<le> (2 :: nat) ^ 3" by (rule power_increasing) (use assms in simp_all)
  then have "{256..<256 + 2 ^ order} \<subseteq> free_frames small_mem" by (auto simp: small_mem_ok)
  moreover have "2 ^ order dvd (2 :: nat) ^ 8" by (rule le_imp_power_dvd) (use assms in simp)
  ultimately have "\<exists>r :: nat. 2 ^ order dvd r \<and> {r..<r + 2 ^ order} \<subseteq> free_frames small_mem"
    by (intro exI [of _ 256]) simp
  then have "find_order (free_lists small_mem) order \<le> PMM_MAX_ORDER"
    using pmm_alloc_fails [OF small_mem_ok(1), of order] le14 by (metis linorder_not_less)
  then show ?thesis
    using pmm_alloc_gives [OF small_mem_ok(1), of order] assms that by (auto simp: allocated_def fits_block_def)
qed

text \<open>C29: after \<open>pmm_init\<close>, on a memory map whose entries do not overlap and whose available entries end
  before the last page of the 64-bit space, exactly the frames of
  the available entries are free, above the first megabyte, below 4 GiB and outside the kernel
  image, and the free lists hold them fully coalesced.\<close>

theorem pmm_init_correct:
  assumes "ks \<le> ke" and "0 < ks" and "list_all entry_fits mmap"
    and "sorted_wrt (\<lambda>e e'. entry_frames ks ke e \<inter> entry_frames ks ke e' = {}) mmap"
  shows "pmm_inv (pmm_init ks ke mmap s)
    \<and> free_frames (pmm_init ks ke mmap s) = (\<Union>ent \<in> set mmap. entry_frames ks ke ent)"
  using pmm_init_ok [OF assms] by blast

theorem pmm_init_correct_witness:
  "pmm_inv small_mem \<and> free_frames small_mem = {256..<264}"
  using pmm_init_correct [of 4096 8192 small_map blank_mem]
  by (simp add: small_mem_def small_map_def small_entries entry_fits_def del: One_nat_def)

text \<open>C5: \<open>pmm_alloc\<close> of \<open>2 ^ order\<close> frames succeeds exactly when some aligned run of that many
  frames is free, so fragmentation never hides memory. It returns the address of such a run,
  gives each frame one reference, removes exactly these frames from the free ones and writes
  no memory but the links inside frames that were free. When it fails it changes nothing.\<close>

theorem pmm_alloc_correct:
  assumes "pmm_inv s" and "order \<le> PMM_MAX_ORDER" and "pmm_alloc order s = (phys, s')"
  shows "if \<exists>r. 2 ^ order dvd r \<and> {r..<r + 2 ^ order} \<subseteq> free_frames s
    then \<exists>f. phys = frame_to_phys f \<and> pmm_inv s' \<and> allocated f order s s'
    else phys = 0 \<and> s' = s"
proof (cases "find_order (free_lists s) order \<le> PMM_MAX_ORDER")
  case True
  then obtain f where f: "phys = addr_of f" "pmm_inv s'" "allocated f order s s'"
    using pmm_alloc_gives [OF assms(1) _ assms(2)] assms(3) by auto
  then have "2 ^ order dvd f \<and> {f..<f + 2 ^ order} \<subseteq> free_frames s" by (simp add: allocated_def fits_block_def)
  with f show ?thesis by (auto simp: frame_to_phys_def)
next
  case False
  then have "phys = 0 \<and> s' = s" using assms(2,3) by (simp add: pmm_alloc_def Let_def)
  moreover have "\<not> (\<exists>r. 2 ^ order dvd r \<and> {r..<r + 2 ^ order} \<subseteq> free_frames s)"
    by (rule pmm_alloc_fails [OF assms(1,2)]) (use False in simp)
  ultimately show ?thesis by (simp only: if_False)
qed

theorem pmm_alloc_correct_witness:
  "\<exists>f. fst (pmm_alloc 2 small_mem) = frame_to_phys f \<and> pmm_inv (snd (pmm_alloc 2 small_mem))
    \<and> allocated f 2 small_mem (snd (pmm_alloc 2 small_mem))"
proof -
  have "2 ^ 2 dvd (256 :: nat) \<and> {256..<256 + 2 ^ 2} \<subseteq> free_frames small_mem" by (auto simp: small_mem_ok)
  then have "\<exists>r :: nat. 2 ^ 2 dvd r \<and> {r..<r + 2 ^ 2} \<subseteq> free_frames small_mem" by (rule exI)
  with pmm_alloc_correct [OF small_mem_ok(1), of 2 "fst (pmm_alloc 2 small_mem)" "snd (pmm_alloc 2 small_mem)"]
  show ?thesis by (simp only: if_True) simp
qed

text \<open>\<open>pmm_free\<close> undoes \<open>pmm_alloc\<close>: the same frames are free as before, coalesced again,
  and every reference count is what it was.\<close>

theorem pmm_alloc_free_roundtrip:
  assumes "pmm_inv s" and "pmm_alloc order s = (phys, s')" and "phys \<noteq> 0"
  shows "pmm_inv (pmm_free phys order s') \<and> free_frames (pmm_free phys order s') = free_frames s
    \<and> frame_refcount (pmm_free phys order s') = frame_refcount s"
proof -
  have ord: "order \<le> PMM_MAX_ORDER" "find_order (free_lists s) order \<le> PMM_MAX_ORDER"
    using assms(2,3) by (auto simp: pmm_alloc_def Let_def split: if_splits)
  then obtain f where f: "phys = addr_of f" "pmm_inv s'" "allocated f order s s'"
    using pmm_alloc_gives [OF assms(1) ord(2,1)] assms(2) by auto
  have "pmm_inv (pmm_free phys order s') \<and> freed f order s' (pmm_free phys order s')"
    unfolding f(1) by (rule pmm_free_last [OF f(2)]) (use f(3) in \<open>auto simp: allocated_def\<close>)
  moreover have "frame_refcount s g = 0" if "g \<in> {f..<f + 2 ^ order}" for g
    using that f(3) assms(1) by (auto simp: allocated_def pmm_inv_def)
  ultimately show ?thesis using f(3) by (auto simp: freed_def allocated_def fun_eq_iff)
qed

theorem pmm_alloc_free_roundtrip_witness:
  "free_frames (pmm_free (fst (pmm_alloc 1 small_mem)) 1 (snd (pmm_alloc 1 small_mem))) = {256..<264}"
proof -
  obtain f s' where f: "pmm_alloc 1 small_mem = (addr_of f, s')" "0 < f" by (rule small_alloc [of 1]) auto
  then show ?thesis using pmm_alloc_free_roundtrip [OF small_mem_ok(1) f(1)] by (simp add: small_mem_ok(2))
qed

text \<open>C6: freeing a block drops one reference of each frame. As long as some frame of the block
  has another reference nothing is returned to the allocator; when the last one goes, exactly
  the frames of the block become free, and no memory outside free frames is written.\<close>

theorem pmm_free_correct:
  assumes "pmm_inv s" and "fits_block f order" and "{f..<f + 2 ^ order} \<inter> free_frames s = {}"
  shows "pmm_inv (pmm_free (frame_to_phys f) order s)
    \<and> (if \<forall>g \<in> {f..<f + 2 ^ order}. frame_refcount s g = 1
       then freed f order s (pmm_free (frame_to_phys f) order s)
       else free_frames (pmm_free (frame_to_phys f) order s) = free_frames s
         \<and> pmem (pmm_free (frame_to_phys f) order s) = pmem s
         \<and> frame_refcount (pmm_free (frame_to_phys f) order s)
             = (\<lambda>g. if f \<le> g \<and> g < f + 2 ^ order then frame_refcount s g - 1 else frame_refcount s g))"
proof (cases "\<forall>g \<in> {f..<f + 2 ^ order}. frame_refcount s g = 1")
  case True
  then show ?thesis using pmm_free_last [OF assms True] by (simp add: frame_to_phys_def)
next
  case False
  then obtain g where g: "g \<in> {f..<f + 2 ^ order}" "frame_refcount s g \<noteq> 1" by blast
  show ?thesis
    unfolding if_not_P [OF False] frame_to_phys_def
    using pmm_free_shared [OF assms(2) g] pmm_free_shared_inv [OF assms(1,2) g assms(3)] by simp
qed

theorem pmm_free_correct_witness:
  "\<exists>f s'. pmm_alloc 2 small_mem = (frame_to_phys f, s') \<and> freed f 2 s' (pmm_free (frame_to_phys f) 2 s')"
proof -
  obtain f s' where f: "pmm_alloc 2 small_mem = (addr_of f, s')" "pmm_inv s'" "allocated f 2 small_mem s'"
    by (rule small_alloc [of 2]) auto
  then have "freed f 2 s' (pmm_free (frame_to_phys f) 2 s')"
    using pmm_free_correct [OF f(2), of f 2] by (auto simp: allocated_def)
  then show ?thesis using f(1) by (auto simp: frame_to_phys_def)
qed

text \<open>No frame has two holders. Whatever sequence of single-frame allocations, and of frees
  of frames that are held, starts from a sound allocator, the frames held at any time are
  distinct and none of them is free.\<close>

theorem frame_holders_distinct:
  assumes "owns alloc_frame free_frame s0 s hs" and "pmm_inv s0"
  shows "distinct hs \<and> set hs \<inter> free_frames s = {} \<and> held_frames s0 \<inter> set hs = {}"
  using frames.owns_invariant [OF assms] by (auto simp: held_frames_def)

theorem frame_holders_distinct_witness:
  "\<exists>f s. owns alloc_frame free_frame small_mem s [f] \<and> f \<notin> free_frames s"
proof -
  obtain f s where f: "pmm_alloc 0 small_mem = (addr_of f, s)" "0 < f" by (rule small_alloc [of 0]) auto
  then have "owns alloc_frame free_frame small_mem s [f]"
    by (intro owns_alloc [OF owns_init]) (simp add: alloc_frame_def)
  with frame_holders_distinct [OF this small_mem_ok(1)] show ?thesis by auto
qed

end
