(* ===== verification/Tlb.thy ===== *)
theory Tlb
  imports Pmm
begin

text \<open>
  TLB shootdown and the queue of deferred frees, \<open>src/kernel/smp/tlb.c\<close>. A frame whose
  mapping was removed waits in the queue until a shootdown that covers the address space it
  was mapped in has been acknowledged; only then it goes back to the frame allocator.

  The slots are an array indexed by frame, as \<open>slot_of\<close> presents them; \<open>tlb_init\<close> takes the
  pages behind the array from the frame allocator. A queue link is a frame index plus one and
  0 ends the queue. Owner keys and reference counts are 32-bit words. A panic is \<open>None\<close>.
\<close>

section \<open>State\<close>

abbreviation (input) SLOTS_PER_PAGE :: nat where "SLOTS_PER_PAGE \<equiv> 256"
abbreviation (input) DEFER_BACKLOG :: int where "DEFER_BACKLOG \<equiv> 256"

record defer_slot =
  next_slot :: nat
  owner :: u32
  count :: u32
  order :: nat
  queued :: bool

record kmm =
  mem :: kmem
  slots :: "nat \<Rightarrow> defer_slot"
  slot_limit :: nat
  deferred_head :: nat
  deferred_n :: int

definition zero_slot :: defer_slot where
  "zero_slot = \<lparr>next_slot = 0, owner = 0, count = 0, order = 0, queued = False\<rparr>"

definition set_slot :: "nat \<Rightarrow> defer_slot \<Rightarrow> kmm \<Rightarrow> kmm" where
  "set_slot f sl s = s\<lparr>slots := (slots s)(f := sl)\<rparr>"

definition owner_key :: "nat \<Rightarrow> u32" where
  "owner_key pml4_phys = (if pml4_phys \<noteq> 0 then of_nat (pml4_phys div PMM_FRAME_SIZE) + 1 else 0)"

definition write_word :: "nat \<Rightarrow> u64 \<Rightarrow> kmem \<Rightarrow> kmem" where
  "write_word p v s = s\<lparr>pmem := (pmem s)(p := v)\<rparr>"

text \<open>The loop that clears the 512 words of a frame.\<close>

definition clear_frame :: "nat \<Rightarrow> kmem \<Rightarrow> kmem" where
  "clear_frame phys s = fold (\<lambda>i. write_word (phys + 8 * i) 0) [0..<512] s"

fun slot_pages :: "nat \<Rightarrow> kmem \<Rightarrow> kmem option" where
  "slot_pages 0 s = Some s"
| "slot_pages (Suc n) s =
     (case pmm_alloc 0 s of (phys, s) \<Rightarrow> if phys = 0 then None else slot_pages n (clear_frame phys s))"

definition tlb_init :: "kmm \<Rightarrow> kmm option" where
  "tlb_init s = do {
     let limit = frame_limit (mem s);
     m \<leftarrow> slot_pages ((limit + SLOTS_PER_PAGE - 1) div SLOTS_PER_PAGE) (mem s);
     Some \<lparr>mem = m, slots = (\<lambda>_. zero_slot), slot_limit = limit, deferred_head = 0, deferred_n = 0\<rparr>
   }"

section \<open>Deferring a frame\<close>

definition tlb_defer_free :: "nat \<Rightarrow> nat \<Rightarrow> nat \<Rightarrow> kmm \<Rightarrow> kmm option" where
  "tlb_defer_free phys ord owner_pml4 s =
     (let frame = phys div PMM_FRAME_SIZE; own = owner_key owner_pml4; sl = slots s frame in
      if slot_limit s \<le> frame then None
      else if queued sl
      then Some (set_slot frame (sl\<lparr>owner := (if owner sl \<noteq> own then 0 else owner sl), count := count sl + 1\<rparr>) s)
      else Some ((set_slot frame (sl\<lparr>queued := True, count := 1, owner := own, order := ord,
                                     next_slot := deferred_head s\<rparr>) s)
                 \<lparr>deferred_head := frame + 1, deferred_n := deferred_n s + 1\<rparr>))"

section \<open>Releasing the frames a shootdown covered\<close>

text \<open>The C code walks the queue with a pointer to the link that leads to the next slot.\<close>

datatype link = Head | Next nat

definition get_link :: "link \<Rightarrow> kmm \<Rightarrow> nat" where
  "get_link l s = (case l of Head \<Rightarrow> deferred_head s | Next f \<Rightarrow> next_slot (slots s f))"

definition set_link :: "link \<Rightarrow> nat \<Rightarrow> kmm \<Rightarrow> kmm" where
  "set_link l v s = (case l of Head \<Rightarrow> s\<lparr>deferred_head := v\<rparr>
     | Next f \<Rightarrow> set_slot f ((slots s f)\<lparr>next_slot := v\<rparr>) s)"

type_synonym batch_entry = "nat \<times> u32 \<times> nat"

definition unlink_slot :: "link \<Rightarrow> nat \<Rightarrow> kmm \<Rightarrow> kmm" where
  "unlink_slot link fr s =
     (let sl = slots s fr;
          s = set_link link (next_slot sl) s;
          s = set_slot fr (sl\<lparr>next_slot := 0, queued := False, count := 0, owner := 0\<rparr>) s
      in s\<lparr>deferred_n := deferred_n s - 1\<rparr>)"

partial_function (option) collect_batch ::
  "nat \<Rightarrow> u32 \<Rightarrow> link \<Rightarrow> batch_entry list \<Rightarrow> kmm \<Rightarrow> (batch_entry list \<times> kmm) option"
where
  "collect_batch pml4_phys want link batch s =
     (if get_link link s \<noteq> 0 \<and> length batch < 32
      then let fr = get_link link s - 1; sl = slots s fr in
        if pml4_phys = 0 \<or> owner sl = want
        then collect_batch pml4_phys want link (batch @ [(fr * PMM_FRAME_SIZE, count sl, order sl)])
               (unlink_slot link fr s)
        else collect_batch pml4_phys want (Next fr) batch s
      else Some (batch, s))"

definition release_entry :: "batch_entry \<Rightarrow> kmm \<Rightarrow> kmm" where
  "release_entry b s = (case b of (phys, n, ord) \<Rightarrow> s\<lparr>mem := (pmm_free phys ord ^^ unat n) (mem s)\<rparr>)"

partial_function (option) tlb_flush_deferred :: "nat \<Rightarrow> kmm \<Rightarrow> kmm option" where
  "tlb_flush_deferred pml4_phys s = do {
     (batch, s) \<leftarrow> collect_batch pml4_phys (owner_key pml4_phys) Head [] s;
     let s = fold release_entry batch s;
     (if length batch < 32 then Some s else tlb_flush_deferred pml4_phys s)
   }"

declare collect_batch.simps [code] tlb_flush_deferred.simps [code]

section \<open>Shootdown\<close>

definition tlb_deferred_backlog :: "kmm \<Rightarrow> bool" where
  "tlb_deferred_backlog s \<longleftrightarrow> DEFER_BACKLOG \<le> deferred_n s"

text \<open>The processors: how many are online, the address space of the thread each one runs
  (\<open>None\<close> for an idle or kernel thread), how many locks the caller holds, and the cached
  translations of each processor as pairs of a virtual page and the entry it was loaded from.\<close>

record smp =
  kmm_of :: kmm
  smp_online_count :: nat
  cpu_pml4 :: "nat \<Rightarrow> nat option"
  lock_held_depth :: nat
  tlb :: "nat \<Rightarrow> (u64 \<times> u64) set"

definition shootdown_targets :: "nat \<Rightarrow> nat \<Rightarrow> smp \<Rightarrow> nat list" where
  "shootdown_targets pml4_phys self m =
     filter (\<lambda>i. i \<noteq> self \<and> (pml4_phys = 0 \<or> cpu_pml4 m i = Some pml4_phys)) [0..<smp_online_count m]"

text \<open>\<open>acks\<close> are the processors that take the interrupt before the bounded wait ends: the wait
  gives up after a number of spins and goes on.\<close>

definition tlb_shootdown :: "nat set \<Rightarrow> nat \<Rightarrow> nat \<Rightarrow> smp \<Rightarrow> smp option" where
  "tlb_shootdown acks self pml4_phys m =
     (if lock_held_depth m \<noteq> 0 then None
      else let pml4_phys = (if pml4_phys \<noteq> 0 \<and> tlb_deferred_backlog (kmm_of m) then 0 else pml4_phys);
               targets = shootdown_targets pml4_phys self m;
               m = m\<lparr>tlb := (\<lambda>i. if i = self \<or> i \<in> set targets \<and> i \<in> acks then {} else tlb m i)\<rparr>
           in do { s \<leftarrow> tlb_flush_deferred pml4_phys (kmm_of m); Some (m\<lparr>kmm_of := s\<rparr>) })"

definition tlb_drain_if_backlogged :: "nat set \<Rightarrow> nat \<Rightarrow> smp \<Rightarrow> smp option" where
  "tlb_drain_if_backlogged acks self m =
     (if tlb_deferred_backlog (kmm_of m) then tlb_shootdown acks self 0 m else Some m)"

end
