(* ===== verification/Paging.thy ===== *)
theory Paging
  imports Tlb
begin

text \<open>
  Four-level page tables, \<open>src/kernel/mm/paging.c\<close>, in the physical memory of the frame
  allocator. A table is named by its physical address and entry \<open>i\<close> of table \<open>t\<close> is the word
  at \<open>t + 8 * i\<close>; a table pointer of the C code is \<open>phys_to_virt\<close> of that address, so the model
  works with the address itself and a NULL pointer is \<open>None\<close>. Virtual addresses and entries
  are 64-bit words. The local \<open>invlpg\<close> and the reload of CR3 only touch the TLB of the
  processor, which is not part of this state.
\<close>

section \<open>Entries\<close>

abbreviation (input) PAGE_PRESENT :: u64 where "PAGE_PRESENT \<equiv> 1"
abbreviation (input) PAGE_WRITABLE :: u64 where "PAGE_WRITABLE \<equiv> 2"
abbreviation (input) PAGE_USER :: u64 where "PAGE_USER \<equiv> 4"
abbreviation (input) PAGE_HUGE :: u64 where "PAGE_HUGE \<equiv> 0x80"
abbreviation (input) PAGE_COW :: u64 where "PAGE_COW \<equiv> 0x200"
abbreviation (input) PAGE_NOFREE :: u64 where "PAGE_NOFREE \<equiv> 0x400"
abbreviation (input) PAGE_PROTNONE :: u64 where "PAGE_PROTNONE \<equiv> 0x800"
abbreviation (input) PAGE_HAS_FRAME :: u64 where "PAGE_HAS_FRAME \<equiv> 0x801"
abbreviation (input) PAGE_NO_EXECUTE :: u64 where "PAGE_NO_EXECUTE \<equiv> 0x8000000000000000"
abbreviation (input) PAGE_ADDR_MASK :: u64 where "PAGE_ADDR_MASK \<equiv> 0x000FFFFFFFFFF000"
abbreviation (input) USER_ADDR_LIMIT :: u64 where "USER_ADDR_LIMIT \<equiv> 0x0000800000000000"
abbreviation (input) PHYSMAP_PML4_INDEX :: nat where "PHYSMAP_PML4_INDEX \<equiv> 256"

definition PT_INDEX :: "u64 \<Rightarrow> nat" where "PT_INDEX va = unat (drop_bit 12 va AND 0x1FF)"
definition PD_INDEX :: "u64 \<Rightarrow> nat" where "PD_INDEX va = unat (drop_bit 21 va AND 0x1FF)"
definition PDPT_INDEX :: "u64 \<Rightarrow> nat" where "PDPT_INDEX va = unat (drop_bit 30 va AND 0x1FF)"
definition PML4_INDEX :: "u64 \<Rightarrow> nat" where "PML4_INDEX va = unat (drop_bit 39 va AND 0x1FF)"

definition entry :: "kmem \<Rightarrow> nat \<Rightarrow> nat \<Rightarrow> u64" where
  "entry s t i = pmem s (t + 8 * i)"

definition set_entry :: "nat \<Rightarrow> nat \<Rightarrow> u64 \<Rightarrow> kmem \<Rightarrow> kmem" where
  "set_entry t i e s = write_word (t + 8 * i) e s"

definition has :: "u64 \<Rightarrow> u64 \<Rightarrow> bool" where
  "has e flag \<longleftrightarrow> e AND flag \<noteq> 0"

definition frame_of :: "u64 \<Rightarrow> nat" where
  "frame_of e = unat (e AND PAGE_ADDR_MASK)"

section \<open>Walking and creating tables\<close>

definition alloc_table_frame :: "kmem \<Rightarrow> nat \<times> kmem" where
  "alloc_table_frame s =
     (case pmm_alloc 0 s of (phys, s) \<Rightarrow> if phys = 0 then (0, s) else (phys, clear_frame phys s))"

definition table_entry :: "nat option \<Rightarrow> nat \<Rightarrow> bool \<Rightarrow> u64 \<Rightarrow> kmem \<Rightarrow> nat option \<times> kmem" where
  "table_entry table index create create_flags s =
     (case table of None \<Rightarrow> (None, s)
      | Some t \<Rightarrow>
          if \<not> has (entry s t index) PAGE_PRESENT
          then if \<not> create then (None, s)
               else case alloc_table_frame s of (new_table_phys, s) \<Rightarrow>
                 if new_table_phys = 0 then (None, s)
                 else let s = set_entry t index (of_nat new_table_phys OR create_flags) s
                      in (Some (frame_of (entry s t index)), s)
          else (Some (frame_of (entry s t index)), s))"

text \<open>The walk without creation that most operations begin with.\<close>

definition walk_pt :: "nat \<Rightarrow> u64 \<Rightarrow> kmem \<Rightarrow> nat option" where
  "walk_pt pml4 virt s =
     (let pdpt = fst (table_entry (Some pml4) (PML4_INDEX virt) False 0 s);
          pd = fst (table_entry pdpt (PDPT_INDEX virt) False 0 s)
      in fst (table_entry pd (PD_INDEX virt) False 0 s))"

definition paging_alloc_pml4 :: "kmem \<Rightarrow> nat \<times> kmem" where
  "paging_alloc_pml4 s = alloc_table_frame s"

section \<open>Mapping\<close>

definition paging_map_into :: "nat \<Rightarrow> u64 \<Rightarrow> u64 \<Rightarrow> u64 \<Rightarrow> kmem \<Rightarrow> int \<times> kmem" where
  "paging_map_into pml4 virt phys flags s =
     (let default_flags = PAGE_PRESENT OR PAGE_WRITABLE OR PAGE_USER;
          (pdpt, s) = table_entry (Some pml4) (PML4_INDEX virt) True default_flags s;
          (pd, s) = table_entry pdpt (PDPT_INDEX virt) True default_flags s;
          (pt, s) = table_entry pd (PD_INDEX virt) True default_flags s
      in case pt of None \<Rightarrow> (-1, s)
         | Some pt \<Rightarrow> (0, set_entry pt (PT_INDEX virt) ((phys AND PAGE_ADDR_MASK) OR flags OR PAGE_PRESENT) s))"

text \<open>The page addresses a loop \<open>for (v = lo; v < hi; v += 4096)\<close> visits.\<close>

definition page_steps :: "u64 \<Rightarrow> u64 \<Rightarrow> u64 list" where
  "page_steps lo hi = map (\<lambda>i. lo + of_nat i * 4096) [0..<(unat hi - unat lo + 4095) div 4096]"

fun map_range :: "nat \<Rightarrow> u64 \<Rightarrow> u64 \<Rightarrow> u64 \<Rightarrow> nat list \<Rightarrow> kmem \<Rightarrow> int \<times> kmem" where
  "map_range pml4 virt phys flags [] s = (0, s)"
| "map_range pml4 virt phys flags (i # is) s =
     (case paging_map_into pml4 (virt + of_nat i * 4096) (phys + of_nat i * 4096) flags s of
        (rc, s) \<Rightarrow> if rc \<noteq> 0 then (rc, s) else map_range pml4 virt phys flags is s)"

definition paging_map_range :: "nat \<Rightarrow> u64 \<Rightarrow> u64 \<Rightarrow> u64 \<Rightarrow> u64 \<Rightarrow> kmem \<Rightarrow> int \<times> kmem" where
  "paging_map_range kpml4 virt phys len flags s =
     map_range kpml4 virt phys flags [0..<unat (drop_bit 12 (len + 0xFFF))] s"

definition paging_unmap :: "nat \<Rightarrow> u64 \<Rightarrow> kmem \<Rightarrow> kmem" where
  "paging_unmap kpml4 virt s =
     (case walk_pt kpml4 virt s of None \<Rightarrow> s | Some pt \<Rightarrow> set_entry pt (PT_INDEX virt) 0 s)"

definition paging_unmap_from :: "nat \<Rightarrow> u64 \<Rightarrow> bool \<Rightarrow> kmm \<Rightarrow> (int \<times> kmm) option" where
  "paging_unmap_from pml4 virt free_frame s =
     (case walk_pt pml4 virt (mem s) of None \<Rightarrow> Some (0, s)
      | Some pt \<Rightarrow>
          let e = entry (mem s) pt (PT_INDEX virt) in
          if \<not> has e PAGE_HAS_FRAME then Some (0, s)
          else let s = s\<lparr>mem := set_entry pt (PT_INDEX virt) 0 (mem s)\<rparr>
               in if free_frame then map_option (\<lambda>s. (1, s)) (tlb_defer_free (frame_of e) 0 pml4 s)
                  else Some (1, s))"

definition paging_setprot_from :: "nat \<Rightarrow> u64 \<Rightarrow> u64 \<Rightarrow> kmem \<Rightarrow> int \<times> kmem" where
  "paging_setprot_from pml4 virt flags s =
     (case walk_pt pml4 virt s of None \<Rightarrow> (0, s)
      | Some pt \<Rightarrow>
          let idx = PT_INDEX virt; e = entry s pt idx in
          if \<not> has e PAGE_HAS_FRAME then (0, s)
          else let keep = e AND (PAGE_ADDR_MASK OR PAGE_NOFREE OR PAGE_COW) in
            if has flags PAGE_PRESENT
            then let flags = (if has e PAGE_COW then flags AND NOT PAGE_WRITABLE else flags)
                 in (1, set_entry pt idx (keep OR (flags AND NOT PAGE_ADDR_MASK)) s)
            else (1, set_entry pt idx (keep OR PAGE_PROTNONE) s))"

section \<open>Copy on write\<close>

definition copy_frame :: "nat \<Rightarrow> nat \<Rightarrow> kmem \<Rightarrow> kmem" where
  "copy_frame src dst s = fold (\<lambda>i s. write_word (dst + 8 * i) (pmem s (src + 8 * i)) s) [0..<512] s"

definition paging_handle_cow_fault :: "nat \<Rightarrow> u64 \<Rightarrow> kmem \<Rightarrow> int \<times> kmem" where
  "paging_handle_cow_fault pml4 fault_addr s =
     (case walk_pt pml4 fault_addr s of None \<Rightarrow> (0, s)
      | Some pt \<Rightarrow>
          let idx = PT_INDEX fault_addr; e = entry s pt idx in
          if \<not> has e PAGE_PRESENT \<or> has e PAGE_WRITABLE then (0, s)
          else if \<not> has e PAGE_COW then (0, s)
          else let old_phys = frame_of e;
                   flags_no_addr = e AND NOT PAGE_ADDR_MASK AND NOT PAGE_PRESENT AND NOT PAGE_COW
            in if pmm_frame_refcount old_phys s = 1
               then (1, set_entry pt idx ((e AND NOT PAGE_COW) OR PAGE_WRITABLE) s)
               else case pmm_alloc 0 s of (new_phys, s) \<Rightarrow>
                 if new_phys = 0 then (0, s)
                 else let s = copy_frame old_phys new_phys s;
                          s = set_entry pt idx ((of_nat new_phys AND PAGE_ADDR_MASK) OR flags_no_addr
                                                OR PAGE_PRESENT OR PAGE_WRITABLE) s
                      in (1, pmm_free old_phys 0 s))"

section \<open>User ranges\<close>

fun writable_pages :: "nat \<Rightarrow> u64 list \<Rightarrow> kmem \<Rightarrow> int \<times> kmem" where
  "writable_pages pml4 [] s = (1, s)"
| "writable_pages pml4 (v # vs) s =
     (case walk_pt pml4 v s of None \<Rightarrow> (0, s)
      | Some pt \<Rightarrow>
          let e = entry s pt (PT_INDEX v) in
          if e AND (PAGE_PRESENT OR PAGE_USER) \<noteq> (PAGE_PRESENT OR PAGE_USER) then (0, s)
          else if \<not> has e PAGE_WRITABLE
          then if \<not> has e PAGE_COW then (0, s)
               else case paging_handle_cow_fault pml4 v s of (rc, s) \<Rightarrow>
                 if rc = 0 then (0, s) else writable_pages pml4 vs s
          else writable_pages pml4 vs s)"

definition range_pages :: "u64 \<Rightarrow> u64 \<Rightarrow> u64 list" where
  "range_pages addr len = page_steps (addr AND NOT 0xFFF) (addr + len)"

definition user_range_writable :: "nat \<Rightarrow> u64 \<Rightarrow> u64 \<Rightarrow> kmem \<Rightarrow> int \<times> kmem" where
  "user_range_writable cr3 addr len s =
     (if len = 0 then (1, s)
      else if addr + len < addr then (0, s)
      else if USER_ADDR_LIMIT < addr + len then (0, s)
      else writable_pages cr3 (range_pages addr len) s)"

definition readable_page :: "nat \<Rightarrow> kmem \<Rightarrow> u64 \<Rightarrow> bool" where
  "readable_page pml4 s v \<longleftrightarrow>
     (case walk_pt pml4 v s of None \<Rightarrow> False
      | Some pt \<Rightarrow> entry s pt (PT_INDEX v) AND (PAGE_PRESENT OR PAGE_USER) = (PAGE_PRESENT OR PAGE_USER))"

definition user_range_readable :: "nat \<Rightarrow> u64 \<Rightarrow> u64 \<Rightarrow> kmem \<Rightarrow> int" where
  "user_range_readable cr3 addr len s =
     (if len = 0 then 1
      else if addr + len < addr then 0
      else if USER_ADDR_LIMIT < addr + len then 0
      else if list_all (readable_page cr3 s) (range_pages addr len) then 1 else 0)"

section \<open>Translation\<close>

definition paging_translate_in :: "nat \<Rightarrow> u64 \<Rightarrow> kmem \<Rightarrow> u64" where
  "paging_translate_in pml4_phys virt s =
     (let e = entry s pml4_phys (PML4_INDEX virt) in
      if \<not> has e PAGE_PRESENT then 0
      else let e = entry s (frame_of e) (PDPT_INDEX virt) in
      if \<not> has e PAGE_PRESENT then 0
      else if has e PAGE_HUGE then (e AND PAGE_ADDR_MASK) OR (virt AND 0x3FFFFFFF)
      else let e = entry s (frame_of e) (PD_INDEX virt) in
      if \<not> has e PAGE_PRESENT then 0
      else if has e PAGE_HUGE then (e AND PAGE_ADDR_MASK) OR (virt AND 0x1FFFFF)
      else let e = entry s (frame_of e) (PT_INDEX virt) in
      if \<not> has e PAGE_PRESENT then 0
      else (e AND PAGE_ADDR_MASK) OR (virt AND 0xFFF))"

definition paging_translate :: "nat \<Rightarrow> u64 \<Rightarrow> kmem \<Rightarrow> u64" where
  "paging_translate kpml4 virt s =
     (case walk_pt kpml4 virt s of None \<Rightarrow> 0
      | Some pt \<Rightarrow> let e = entry s pt (PT_INDEX virt) in
          if \<not> has e PAGE_PRESENT then 0 else (e AND PAGE_ADDR_MASK) OR (virt AND 0xFFF))"

definition paging_leaf_flags :: "nat \<Rightarrow> u64 \<Rightarrow> kmem \<Rightarrow> u64" where
  "paging_leaf_flags kpml4 virt s =
     (case walk_pt kpml4 virt s of None \<Rightarrow> 0
      | Some pt \<Rightarrow> let e = entry s pt (PT_INDEX virt) in
          if \<not> has e PAGE_PRESENT then 0 else e AND NOT PAGE_ADDR_MASK)"

section \<open>The kernel's own tables\<close>

text \<open>The page directory that covers an address, and the split of a 2 MiB page of it.\<close>

definition walk_pd :: "nat \<Rightarrow> u64 \<Rightarrow> kmem \<Rightarrow> nat option" where
  "walk_pd kpml4 virt s =
     (let pdpt = fst (table_entry (Some kpml4) (PML4_INDEX virt) False 0 s)
      in fst (table_entry pdpt (PDPT_INDEX virt) False 0 s))"

definition leaf_pte :: "nat \<Rightarrow> u64 \<Rightarrow> kmem \<Rightarrow> (nat \<times> nat) option" where
  "leaf_pte kpml4 virt s =
     (case walk_pd kpml4 virt s of None \<Rightarrow> None
      | Some pd \<Rightarrow> let e = entry s pd (PD_INDEX virt) in
          if \<not> has e PAGE_PRESENT \<or> has e PAGE_HUGE then None else Some (frame_of e, PT_INDEX virt))"

definition paging_split_huge :: "nat \<Rightarrow> u64 \<Rightarrow> kmem \<Rightarrow> int \<times> kmem" where
  "paging_split_huge kpml4 virt s =
     (case walk_pd kpml4 virt s of None \<Rightarrow> (0, s)
      | Some pd \<Rightarrow> let e = entry s pd (PD_INDEX virt) in
          if \<not> has e PAGE_PRESENT then (0, s)
          else if \<not> has e PAGE_HUGE then (0, s)
          else let base = e AND PAGE_ADDR_MASK;
                   leaf_flags = e AND NOT PAGE_ADDR_MASK AND NOT PAGE_HUGE
            in case alloc_table_frame s of (pt_phys, s) \<Rightarrow>
              if pt_phys = 0 then (-1, s)
              else let s = fold (\<lambda>i. set_entry pt_phys i ((base + of_nat i * 4096) OR leaf_flags)) [0..<512] s
                   in (0, set_entry pd (PD_INDEX virt) (of_nat pt_phys OR PAGE_PRESENT OR PAGE_WRITABLE) s))"

text \<open>The bounds of the kernel sections, which the linker script provides.\<close>

record sections =
  text_start :: u64
  text_end :: u64
  rodata_start :: u64
  rodata_end :: u64
  kernel_end :: u64

definition section_flags :: "sections \<Rightarrow> u64 \<Rightarrow> u64 \<Rightarrow> u64" where
  "section_flags k va e =
     (if text_start k \<le> va \<and> va < text_end k then e AND NOT PAGE_WRITABLE AND NOT PAGE_NO_EXECUTE
      else if rodata_start k \<le> va \<and> va < rodata_end k then (e AND NOT PAGE_WRITABLE) OR PAGE_NO_EXECUTE
      else e OR PAGE_NO_EXECUTE)"

fun protect_pages :: "nat \<Rightarrow> sections \<Rightarrow> u64 list \<Rightarrow> kmem \<Rightarrow> bool \<times> kmem" where
  "protect_pages kpml4 k [] s = (True, s)"
| "protect_pages kpml4 k (va # vas) s =
     (case paging_split_huge kpml4 va s of (rc, s) \<Rightarrow>
        if rc \<noteq> 0 then (False, s)
        else case leaf_pte kpml4 va s of None \<Rightarrow> protect_pages kpml4 k vas s
          | Some (pt, idx) \<Rightarrow>
              let e = entry s pt idx in
              if \<not> has e PAGE_PRESENT then protect_pages kpml4 k vas s
              else protect_pages kpml4 k vas (set_entry pt idx (section_flags k va e) s))"

definition paging_protect_kernel :: "nat \<Rightarrow> sections \<Rightarrow> kmem \<Rightarrow> kmem" where
  "paging_protect_kernel kpml4 k s =
     (case protect_pages kpml4 k (page_steps (text_start k) (kernel_end k)) s of (done, s) \<Rightarrow>
        if \<not> done then s
        else set_entry kpml4 PHYSMAP_PML4_INDEX (entry s kpml4 PHYSMAP_PML4_INDEX OR PAGE_NO_EXECUTE) s)"

definition paging_leaf_entry :: "nat \<Rightarrow> u64 \<Rightarrow> kmem \<Rightarrow> u64" where
  "paging_leaf_entry kpml4 virt s =
     (case walk_pd kpml4 virt s of None \<Rightarrow> 0
      | Some pd \<Rightarrow> let e = entry s pd (PD_INDEX virt) in
          if \<not> has e PAGE_PRESENT then 0
          else if has e PAGE_HUGE then e
          else entry s (frame_of e) (PT_INDEX virt))"

text \<open>The direct map of the first 4 GiB: four page directories of 512 pages of 2 MiB.\<close>

definition physmap_dir :: "nat \<Rightarrow> nat \<Rightarrow> kmem \<Rightarrow> kmem" where
  "physmap_dir pdpt_phys i s =
     (case alloc_table_frame s of (pd_phys, s) \<Rightarrow>
        let s = fold (\<lambda>j. set_entry pd_phys j (of_nat ((512 * i + j) * 0x200000)
                        OR PAGE_PRESENT OR PAGE_WRITABLE OR PAGE_HUGE)) [0..<512] s
        in set_entry pdpt_phys i (of_nat pd_phys OR PAGE_PRESENT OR PAGE_WRITABLE) s)"

definition paging_init :: "nat \<Rightarrow> kmem \<Rightarrow> kmem" where
  "paging_init p4_table s =
     (case alloc_table_frame s of (pdpt_phys, s) \<Rightarrow>
        let s = fold (physmap_dir pdpt_phys) [0..<4] s
        in set_entry p4_table PHYSMAP_PML4_INDEX (of_nat pdpt_phys OR PAGE_PRESENT OR PAGE_WRITABLE) s)"

section \<open>Whole address spaces\<close>

text \<open>The present entries of a table, as the nested loops visit them.\<close>

definition present_entries :: "kmem \<Rightarrow> nat \<Rightarrow> u64 list" where
  "present_entries s t = filter (\<lambda>e. has e PAGE_PRESENT) (map (entry s t) [0..<512])"

definition user_top_entries :: "kmem \<Rightarrow> nat \<Rightarrow> u64 list" where
  "user_top_entries s t = filter (\<lambda>e. has e PAGE_PRESENT)
     (map (entry s t) (filter (\<lambda>i. i \<noteq> PHYSMAP_PML4_INDEX \<and> i \<noteq> 511) [0..<512]))"

definition paging_count_present_user :: "nat \<Rightarrow> kmem \<Rightarrow> nat" where
  "paging_count_present_user pml4_phys s =
     (if pml4_phys = 0 then 0
      else sum_list (map (\<lambda>e4. sum_list (map (\<lambda>e3. sum_list (map (\<lambda>e2.
             length (present_entries s (frame_of e2)))
             (present_entries s (frame_of e3)))) (present_entries s (frame_of e4))))
             (user_top_entries s pml4_phys)))"

definition free_leaf :: "nat \<Rightarrow> u64 \<Rightarrow> kmm \<Rightarrow> kmm option" where
  "free_leaf pml4_phys e s =
     (if has e PAGE_HAS_FRAME \<and> \<not> has e PAGE_NOFREE then tlb_defer_free (frame_of e) 0 pml4_phys s else Some s)"

definition free_pt :: "nat \<Rightarrow> u64 \<Rightarrow> kmm \<Rightarrow> kmm option" where
  "free_pt pml4_phys e2 s = do {
     s \<leftarrow> fold_opt (free_leaf pml4_phys) (map (entry (mem s) (frame_of e2)) [0..<512]) s;
     tlb_defer_free (frame_of e2) 0 pml4_phys s
   }"

definition free_pd :: "nat \<Rightarrow> u64 \<Rightarrow> kmm \<Rightarrow> kmm option" where
  "free_pd pml4_phys e3 s = do {
     s \<leftarrow> fold_opt (free_pt pml4_phys) (present_entries (mem s) (frame_of e3)) s;
     tlb_defer_free (frame_of e3) 0 pml4_phys s
   }"

definition free_pdpt :: "nat \<Rightarrow> u64 \<Rightarrow> kmm \<Rightarrow> kmm option" where
  "free_pdpt pml4_phys e4 s = do {
     s \<leftarrow> fold_opt (free_pd pml4_phys) (present_entries (mem s) (frame_of e4)) s;
     tlb_defer_free (frame_of e4) 0 pml4_phys s
   }"

definition free_address_space :: "nat \<Rightarrow> kmm \<Rightarrow> kmm option" where
  "free_address_space pml4_phys s = do {
     s \<leftarrow> fold_opt (free_pdpt pml4_phys) (user_top_entries (mem s) pml4_phys) s;
     tlb_defer_free pml4_phys 0 pml4_phys s
   }"

end
