(* ===== verification/Vma.thy ===== *)
theory Vma
  imports Paging
begin

text \<open>
  The mappings of a process, \<open>src/kernel/mm/vma.c\<close>: a list of ranges sorted by address, on top
  of the page tables, the queue of deferred frees and TLB shootdown.

  The linked list of \<open>struct vma\<close> is a list of records, because every node is reached from the
  list only. The state holds the list and the cursor of the process, its page table root, the
  machine, the reference counts of the vnodes, and the outcomes of the \<open>kmalloc\<close> calls to come:
  \<open>None\<close> when it fails, else the record whose bytes the new block still holds. A vnode is a
  number and 0 is NULL. The file system's read operation is a parameter. \<open>None\<close> is a panic.
\<close>

section \<open>State\<close>

abbreviation (input) PROT_NONE :: u32 where "PROT_NONE \<equiv> 0"
abbreviation (input) PROT_READ :: u32 where "PROT_READ \<equiv> 1"
abbreviation (input) PROT_WRITE :: u32 where "PROT_WRITE \<equiv> 2"
abbreviation (input) PROT_EXEC :: u32 where "PROT_EXEC \<equiv> 4"
abbreviation (input) MAP_SHARED :: u32 where "MAP_SHARED \<equiv> 1"
abbreviation (input) MAP_PRIVATE :: u32 where "MAP_PRIVATE \<equiv> 2"
abbreviation (input) MAP_FIXED :: u32 where "MAP_FIXED \<equiv> 0x10"
abbreviation (input) VMA_PHYS :: u32 where "VMA_PHYS \<equiv> 0x40"
abbreviation (input) VMA_FILE :: u32 where "VMA_FILE \<equiv> 0x1000"
abbreviation (input) MMAP_BASE :: u64 where "MMAP_BASE \<equiv> 0x0000500000000000"
abbreviation (input) MMAP_LIMIT :: u64 where "MMAP_LIMIT \<equiv> 0x0000600000000000"
abbreviation (input) EIO :: int where "EIO \<equiv> 5"
abbreviation (input) EFAULT :: int where "EFAULT \<equiv> 14"

record vma =
  vstart :: u64
  vend :: u64
  vprot :: u32
  vflags :: u32
  vvn :: nat
  voff :: u64

record space =
  vmas :: "vma list"
  mmap_next :: u64
  pml4_phys :: nat
  mach :: smp
  outcomes :: "vma option list"
  vrefs :: "nat \<Rightarrow> int"

definition flag :: "u32 \<Rightarrow> u32 \<Rightarrow> bool" where
  "flag w m \<longleftrightarrow> w AND m \<noteq> 0"

definition page_down :: "u64 \<Rightarrow> u64" where "page_down a = a AND NOT 0xFFF"
definition page_up :: "u64 \<Rightarrow> u64" where "page_up a = (a + 0xFFF) AND NOT 0xFFF"

definition unaligned :: "u64 \<Rightarrow> bool" where
  "unaligned a \<longleftrightarrow> a AND 0xFFF \<noteq> 0"

definition kmalloc_vma :: "space \<Rightarrow> vma option \<times> space" where
  "kmalloc_vma s = (case outcomes s of [] \<Rightarrow> (None, s) | x # xs \<Rightarrow> (x, s\<lparr>outcomes := xs\<rparr>))"

definition vnode_ref :: "nat \<Rightarrow> space \<Rightarrow> space" where
  "vnode_ref n s = s\<lparr>vrefs := (vrefs s)(n := vrefs s n + 1)\<rparr>"

definition vnode_put :: "nat \<Rightarrow> space \<Rightarrow> space" where
  "vnode_put n s = s\<lparr>vrefs := (vrefs s)(n := vrefs s n - 1)\<rparr>"

definition file_backed :: "vma \<Rightarrow> bool" where
  "file_backed v \<longleftrightarrow> flag (vflags v) VMA_FILE \<and> vvn v \<noteq> 0"

abbreviation (input) km :: "space \<Rightarrow> kmm" where
  "km s \<equiv> kmm_of (mach s)"

definition set_km :: "kmm \<Rightarrow> space \<Rightarrow> space" where
  "set_km k s = s\<lparr>mach := (mach s)\<lparr>kmm_of := k\<rparr>\<rparr>"

definition set_mem :: "kmem \<Rightarrow> space \<Rightarrow> space" where
  "set_mem m s = set_km ((km s)\<lparr>mem := m\<rparr>) s"

section \<open>The list\<close>

fun find_vma :: "u64 \<Rightarrow> vma list \<Rightarrow> vma option" where
  "find_vma addr [] = None"
| "find_vma addr (v # vs) =
     (if vstart v \<le> addr \<and> addr < vend v then Some v
      else if addr < vstart v then None
      else find_vma addr vs)"

definition vma_find :: "space \<Rightarrow> u64 \<Rightarrow> vma option" where
  "vma_find s addr = find_vma addr (vmas s)"

definition can_merge :: "u32 \<Rightarrow> u32 \<Rightarrow> vma \<Rightarrow> bool" where
  "can_merge prot flags v \<longleftrightarrow> \<not> flag flags VMA_FILE \<and> vprot v = prot \<and> vflags v = flags"

definition vma_insert :: "u64 \<Rightarrow> u64 \<Rightarrow> u32 \<Rightarrow> u32 \<Rightarrow> space \<Rightarrow> bool \<times> space" where
  "vma_insert start stop prot flags s =
     (let pre = takeWhile (\<lambda>v. vend v \<le> start) (vmas s);
          post = dropWhile (\<lambda>v. vend v \<le> start) (vmas s)
      in if pre \<noteq> [] \<and> vend (last pre) = start \<and> can_merge prot flags (last pre)
         then let prev = (last pre)\<lparr>vend := stop\<rparr> in
           (case post of
              nx # rest \<Rightarrow>
                if vstart nx = stop \<and> vprot nx = prot \<and> vflags nx = flags
                then (True, s\<lparr>vmas := butlast pre @ prev\<lparr>vend := vend nx\<rparr> # rest\<rparr>)
                else (True, s\<lparr>vmas := butlast pre @ prev # post\<rparr>)
            | [] \<Rightarrow> (True, s\<lparr>vmas := butlast pre @ [prev]\<rparr>))
         else if post \<noteq> [] \<and> vstart (hd post) = stop \<and> can_merge prot flags (hd post)
         then (True, s\<lparr>vmas := pre @ (hd post)\<lparr>vstart := start\<rparr> # tl post\<rparr>)
         else case kmalloc_vma s of
             (None, s) \<Rightarrow> (False, s)
           | (Some v, s) \<Rightarrow>
               (True, s\<lparr>vmas := pre @ v\<lparr>vstart := start, vend := stop, vprot := prot, vflags := flags,
                                       vvn := 0, voff := 0\<rparr> # post\<rparr>))"

section \<open>Unmapping\<close>

definition unmap_page :: "bool \<Rightarrow> u64 \<Rightarrow> space \<Rightarrow> space option" where
  "unmap_page free_frames v s =
     map_option (\<lambda>(rc, k). set_km k s) (paging_unmap_from (pml4_phys s) v free_frames (km s))"

definition unmap_range :: "u64 \<Rightarrow> u64 \<Rightarrow> bool \<Rightarrow> space \<Rightarrow> space option" where
  "unmap_range start stop free_frames s =
     (if pml4_phys s = 0 then Some s else fold_opt (unmap_page free_frames) (page_steps start stop) s)"

fun munmap_list :: "u64 \<Rightarrow> u64 \<Rightarrow> vma list \<Rightarrow> space \<Rightarrow> (int \<times> vma list \<times> space) option" where
  "munmap_list start stop [] s = Some (0, [], s)"
| "munmap_list start stop (v # vs) s =
     (if vend v \<le> start
      then map_option (\<lambda>(rc, vs', s). (rc, v # vs', s)) (munmap_list start stop vs s)
      else if stop \<le> vstart v then Some (0, v # vs, s)
      else do {
        let lo = max (vstart v) start;
        let hi = min (vend v) stop;
        s \<leftarrow> unmap_range lo hi (\<not> flag (vflags v) VMA_PHYS) s;
        if vstart v < start \<and> stop < vend v
        then case kmalloc_vma s of
            (None, s) \<Rightarrow> Some (- ENOMEM, v # vs, s)
          | (Some t, s) \<Rightarrow>
              let t = t\<lparr>vstart := stop, vend := vend v, vprot := vprot v, vflags := vflags v, vvn := 0, voff := 0\<rparr>;
                  (t, s) = (if file_backed v
                            then (t\<lparr>vvn := vvn v, voff := voff v + (stop - vstart v)\<rparr>, vnode_ref (vvn v) s)
                            else (t, s))
              in Some (0, v\<lparr>vend := start\<rparr> # t # vs, s)
        else if vstart v < start
        then map_option (\<lambda>(rc, vs', s). (rc, v\<lparr>vend := start\<rparr> # vs', s)) (munmap_list start stop vs s)
        else if stop < vend v
        then Some (0, v\<lparr>vstart := stop,
                        voff := (if flag (vflags v) VMA_FILE then voff v + (stop - vstart v) else voff v)\<rparr> # vs, s)
        else munmap_list start stop vs (if file_backed v then vnode_put (vvn v) s else s)
      })"

definition vma_munmap_locked :: "u64 \<Rightarrow> u64 \<Rightarrow> space \<Rightarrow> (int \<times> space) option" where
  "vma_munmap_locked addr len s =
     (let start = addr; stop = page_up (addr + len) in
      if unaligned addr then Some (- EINVAL, s)
      else if stop \<le> start then Some (- EINVAL, s)
      else map_option (\<lambda>(rc, vs, s). (rc, s\<lparr>vmas := vs\<rparr>)) (munmap_list start stop (vmas s) s))"

section \<open>Mapping\<close>

definition write_exec :: "u32 \<Rightarrow> bool" where
  "write_exec prot \<longleftrightarrow> flag prot PROT_WRITE \<and> flag prot PROT_EXEC"

text \<open>Where a mapping goes: at the fixed address after unmapping what is there, or at the cursor.\<close>

definition place_mapping :: "u64 \<Rightarrow> u64 \<Rightarrow> u32 \<Rightarrow> space \<Rightarrow> ((int + u64) \<times> space) option" where
  "place_mapping addr len flags s =
     (if flag flags MAP_FIXED
      then if unaligned addr then Some (Inl (- EINVAL), s)
           else map_option (\<lambda>(rc, s). (Inr addr, s)) (vma_munmap_locked addr len s)
      else let addr = mmap_next s in
        if MMAP_LIMIT < addr + len \<or> addr + len < addr then Some (Inl (- ENOMEM), s)
        else Some (Inr addr, s\<lparr>mmap_next := addr + len\<rparr>))"

definition vma_mmap_locked :: "u64 \<Rightarrow> u64 \<Rightarrow> u32 \<Rightarrow> u32 \<Rightarrow> space \<Rightarrow> ((int + u64) \<times> space) option" where
  "vma_mmap_locked addr len prot flags s =
     (if len = 0 then Some (Inl (- EINVAL), s)
      else if write_exec prot then Some (Inl (- EINVAL), s)
      else let len = page_up len in do {
        (r, s) \<leftarrow> place_mapping addr len flags s;
        case r of Inl e \<Rightarrow> Some (Inl e, s)
        | Inr addr \<Rightarrow>
            (case vma_insert addr (addr + len) prot flags s of
               (ok, s) \<Rightarrow> Some (if ok then Inr addr else Inl (- ENOMEM), s))
      })"

definition device_flags :: "u32 \<Rightarrow> u64" where
  "device_flags prot = PAGE_USER OR PAGE_NO_EXECUTE OR PAGE_NOFREE OR (if flag prot PROT_WRITE then PAGE_WRITABLE else 0)"

text \<open>Maps a list of pages to a list of frames; on failure the pages mapped so far are unmapped
  again. A frame address of 0 counts as a failure in \<open>vma_map_frames\<close>.\<close>

fun map_pages :: "u64 \<Rightarrow> (u64 \<times> u64) list \<Rightarrow> space \<Rightarrow> bool \<times> space" where
  "map_pages pf [] s = (True, s)"
| "map_pages pf ((va, pa) # ps) s =
     (case paging_map_into (pml4_phys s) va pa pf (mem (km s)) of
        (rc, m) \<Rightarrow> if rc \<noteq> 0 then (False, set_mem m s) else map_pages pf ps (set_mem m s))"

fun mapped_prefix :: "u64 \<Rightarrow> (u64 \<times> u64) list \<Rightarrow> space \<Rightarrow> u64 list" where
  "mapped_prefix pf [] s = []"
| "mapped_prefix pf ((va, pa) # ps) s =
     (case paging_map_into (pml4_phys s) va pa pf (mem (km s)) of
        (rc, m) \<Rightarrow> if rc \<noteq> 0 then [] else va # mapped_prefix pf ps (set_mem m s))"

text \<open>Maps what can be mapped and takes it back, with the list entry.\<close>

definition undo_pages :: "u64 \<Rightarrow> u64 \<Rightarrow> u32 \<Rightarrow> (u64 \<times> u64) list \<Rightarrow> space \<Rightarrow> ((int + u64) \<times> space) option" where
  "undo_pages addr len prot ps s = do {
     let pf = device_flags prot;
     s \<leftarrow> fold_opt (unmap_page False) (mapped_prefix pf ps s) (snd (map_pages pf ps s));
     (rc, s) \<leftarrow> vma_munmap_locked addr len s;
     Some (Inl (- ENOMEM), s)
   }"

definition map_device_pages :: "u64 \<Rightarrow> u64 \<Rightarrow> u32 \<Rightarrow> (u64 \<times> u64) list \<Rightarrow> space \<Rightarrow> ((int + u64) \<times> space) option" where
  "map_device_pages addr len prot ps s =
     (case map_pages (device_flags prot) ps s of
        (True, s') \<Rightarrow> Some (Inr addr, s')
      | (False, s') \<Rightarrow> undo_pages addr len prot ps s)"

definition insert_device :: "u64 \<Rightarrow> u32 \<Rightarrow> space \<Rightarrow> (int + u64) \<times> space" where
  "insert_device len prot s =
     (let addr = mmap_next s in
      if MMAP_LIMIT < addr + len \<or> addr + len < addr then (Inl (- ENOMEM), s)
      else case vma_insert addr (addr + len) prot (MAP_SHARED OR VMA_PHYS) s of
          (False, s) \<Rightarrow> (Inl (- ENOMEM), s)
        | (True, s) \<Rightarrow> (Inr addr, s\<lparr>mmap_next := addr + len\<rparr>))"

definition vma_map_phys_locked :: "u64 \<Rightarrow> u64 \<Rightarrow> u32 \<Rightarrow> space \<Rightarrow> ((int + u64) \<times> space) option" where
  "vma_map_phys_locked phys len prot s =
     (if len = 0 then Some (Inl (- EINVAL), s)
      else if flag prot PROT_EXEC then Some (Inl (- EINVAL), s)
      else let len = page_up len in
        case insert_device len prot s of
          (Inl e, s) \<Rightarrow> Some (Inl e, s)
        | (Inr addr, s) \<Rightarrow>
            map_device_pages addr len prot
              (map (\<lambda>i. (addr + of_nat i * 4096, phys + of_nat i * 4096)) [0..<unat len div 4096]) s)"

definition vma_map_frames_locked :: "u64 list \<Rightarrow> u32 \<Rightarrow> space \<Rightarrow> ((int + u64) \<times> space) option" where
  "vma_map_frames_locked frames prot s =
     (let n = length frames; len = of_nat n * 4096 in
      if n = 0 then Some (Inl (- EINVAL), s)
      else if flag prot PROT_EXEC then Some (Inl (- EINVAL), s)
      else case insert_device len prot s of
          (Inl e, s) \<Rightarrow> Some (Inl e, s)
        | (Inr addr, s) \<Rightarrow>
            let ps = map (\<lambda>i. (addr + of_nat i * 4096, frames ! i)) [0..<n];
                good = takeWhile (\<lambda>p. snd p \<noteq> 0) ps
            in if length good = n then map_device_pages addr len prot ps s
               else undo_pages addr len prot good s)"

fun set_backing :: "u64 \<Rightarrow> nat \<Rightarrow> u64 \<Rightarrow> vma list \<Rightarrow> vma list option" where
  "set_backing addr n off [] = None"
| "set_backing addr n off (v # vs) =
     (if vstart v \<le> addr \<and> addr < vend v then Some (v\<lparr>vvn := n, voff := off\<rparr> # vs)
      else if addr < vstart v then None
      else map_option ((#) v) (set_backing addr n off vs))"

definition vma_mmap_file_locked ::
  "u64 \<Rightarrow> u64 \<Rightarrow> u32 \<Rightarrow> u32 \<Rightarrow> nat \<Rightarrow> u64 \<Rightarrow> space \<Rightarrow> ((int + u64) \<times> space) option"
where
  "vma_mmap_file_locked addr len prot flags n off s =
     (if len = 0 then Some (Inl (- EINVAL), s)
      else let len = page_up len in do {
        (r, s) \<leftarrow> place_mapping addr len flags s;
        case r of Inl e \<Rightarrow> Some (Inl e, s)
        | Inr addr \<Rightarrow>
            (case vma_insert addr (addr + len) prot (MAP_PRIVATE OR VMA_FILE) s of
               (False, s) \<Rightarrow> Some (Inl (- ENOMEM), s)
             | (True, s) \<Rightarrow>
                 (case set_backing addr n off (vmas s) of
                    None \<Rightarrow> Some (Inl (- ENOMEM), s)
                  | Some vs \<Rightarrow> Some (Inr addr, s\<lparr>vmas := vs\<rparr>)))
      })"

section \<open>Protection\<close>

definition vma_split_at :: "vma \<Rightarrow> u64 \<Rightarrow> space \<Rightarrow> (vma \<times> vma) option \<times> space" where
  "vma_split_at v at s =
     (case kmalloc_vma s of
        (None, s) \<Rightarrow> (None, s)
      | (Some t, s) \<Rightarrow>
          (Some (v\<lparr>vend := at\<rparr>, t\<lparr>vstart := at, vend := vend v, vprot := vprot v, vflags := vflags v\<rparr>), s))"

definition prot_bits :: "u32 \<Rightarrow> u64" where
  "prot_bits prot = (if prot = PROT_NONE then 0
     else PAGE_PRESENT OR PAGE_USER OR (if flag prot PROT_WRITE then PAGE_WRITABLE else 0)
        OR (if \<not> flag prot PROT_EXEC then PAGE_NO_EXECUTE else 0))"

definition setprot_range :: "u64 \<Rightarrow> u64 \<Rightarrow> u32 \<Rightarrow> space \<Rightarrow> space" where
  "setprot_range start stop prot s =
     (if pml4_phys s = 0 then s
      else fold (\<lambda>a s. set_mem (snd (paging_setprot_from (pml4_phys s) a (prot_bits prot) (mem (km s)))) s)
             (page_steps start stop) s)"

text \<open>After the split of a trailing piece the next node starts at \<open>stop\<close> and ends the loop.\<close>

function mprotect_list :: "u64 \<Rightarrow> u64 \<Rightarrow> u32 \<Rightarrow> vma list \<Rightarrow> space \<Rightarrow> int \<times> vma list \<times> space" where
  "mprotect_list start stop prot [] s = (0, [], s)"
| "mprotect_list start stop prot (v # vs) s =
     (if vend v \<le> start
      then (case mprotect_list start stop prot vs s of (rc, vs', s) \<Rightarrow> (rc, v # vs', s))
      else if stop \<le> vstart v then (0, v # vs, s)
      else if vstart v < start
      then (case kmalloc_vma s of
              (None, s) \<Rightarrow> (- ENOMEM, v # vs, s)
            | (Some t, s) \<Rightarrow>
                (case mprotect_list start stop prot
                        (t\<lparr>vstart := start, vend := vend v, vprot := vprot v, vflags := vflags v\<rparr> # vs) s of
                   (rc, vs', s) \<Rightarrow> (rc, v\<lparr>vend := start\<rparr> # vs', s)))
      else if stop < vend v
      then (case vma_split_at v stop s of
              (None, s) \<Rightarrow> (- ENOMEM, v # vs, s)
            | (Some (v, t), s) \<Rightarrow>
                (0, v\<lparr>vprot := prot\<rparr> # t # vs, setprot_range (vstart v) (vend v) prot s))
      else (case mprotect_list start stop prot vs (setprot_range (vstart v) (vend v) prot s) of
              (rc, vs', s) \<Rightarrow> (rc, v\<lparr>vprot := prot\<rparr> # vs', s)))"
  by pat_completeness auto

termination mprotect_list
  by (relation "measure (\<lambda>(start, stop, prot, vs, s).
        2 * length vs + (case vs of [] \<Rightarrow> 0 | v # _ \<Rightarrow> if vstart v < start then 1 else 0))")
     (auto split: list.splits)

definition vma_mprotect_locked :: "u64 \<Rightarrow> u64 \<Rightarrow> u32 \<Rightarrow> space \<Rightarrow> int \<times> space" where
  "vma_mprotect_locked addr len prot s =
     (let start = addr; stop = page_up (addr + len) in
      if unaligned addr then (- EINVAL, s)
      else if len = 0 then (0, s)
      else if write_exec prot then (- EINVAL, s)
      else if stop \<le> start then (- EINVAL, s)
      else case mprotect_list start stop prot (vmas s) s of (rc, vs, s) \<Rightarrow> (rc, s\<lparr>vmas := vs\<rparr>))"

section \<open>Faults\<close>

datatype fault_result = FAULT_SIGSEGV | FAULT_HANDLED | FAULT_NOMEM
  | FAULT_NEEDS_IO nat u64 u64 u32

definition leaf_bits :: "u32 \<Rightarrow> u64" where
  "leaf_bits prot = PAGE_USER OR (if flag prot PROT_WRITE then PAGE_WRITABLE else 0)
     OR (if \<not> flag prot PROT_EXEC then PAGE_NO_EXECUTE else 0)"

definition vma_fault_locked :: "u64 \<Rightarrow> bool \<Rightarrow> space \<Rightarrow> fault_result \<times> space" where
  "vma_fault_locked addr write s =
     (case vma_find s addr of None \<Rightarrow> (FAULT_SIGSEGV, s)
      | Some v \<Rightarrow>
          if vprot v = PROT_NONE then (FAULT_SIGSEGV, s)
          else if write \<and> \<not> flag (vprot v) PROT_WRITE then (FAULT_SIGSEGV, s)
          else if flag (vflags v) VMA_PHYS then (FAULT_SIGSEGV, s)
          else if flag (vflags v) VMA_FILE
          then if vvn v = 0 then (FAULT_SIGSEGV, s)
               else (FAULT_NEEDS_IO (vvn v) (voff v + (page_down addr - vstart v)) (page_down addr) (vprot v),
                     vnode_ref (vvn v) s)
          else case pmm_alloc 0 (mem (km s)) of (frame, m) \<Rightarrow>
            if frame = 0 then (FAULT_NOMEM, set_mem m s)
            else case paging_map_into (pml4_phys s) (page_down addr) (of_nat frame) (leaf_bits (vprot v))
                        (clear_frame frame m) of
              (rc, m) \<Rightarrow>
                if rc \<noteq> 0 then (FAULT_NOMEM, set_mem (pmm_free frame 0 m) s)
                else (FAULT_HANDLED, set_mem m s))"

definition vma_install_faulted_page_locked ::
  "nat \<Rightarrow> u64 \<Rightarrow> u64 \<Rightarrow> u32 \<Rightarrow> nat \<Rightarrow> space \<Rightarrow> bool \<times> space"
where
  "vma_install_faulted_page_locked n off page_va prot frame s =
     (case vma_find s page_va of None \<Rightarrow> (False, s)
      | Some v \<Rightarrow>
          if \<not> flag (vflags v) VMA_FILE \<or> vvn v \<noteq> n then (False, s)
          else if voff v + (page_va - vstart v) \<noteq> off then (False, s)
          else if paging_translate_in (pml4_phys s) page_va (mem (km s)) \<noteq> 0 then (False, s)
          else case paging_map_into (pml4_phys s) page_va (of_nat frame) (leaf_bits prot) (mem (km s)) of
            (rc, m) \<Rightarrow> (rc = 0, set_mem m s))"

type_synonym read_op = "nat \<Rightarrow> u64 \<Rightarrow> nat \<Rightarrow> kmem \<Rightarrow> int \<times> kmem"

definition vma_fill_page_from_file :: "read_op \<Rightarrow> nat \<Rightarrow> u64 \<Rightarrow> nat \<Rightarrow> kmem \<Rightarrow> int \<times> kmem" where
  "vma_fill_page_from_file rd n off frame m =
     (case rd n off frame (clear_frame frame m) of (k, m) \<Rightarrow> (if k < 0 then k else 0, m))"

definition vma_reclaim :: "nat set \<Rightarrow> nat \<Rightarrow> space \<Rightarrow> (bool \<times> space) option" where
  "vma_reclaim acks self s =
     (if lock_held_depth (mach s) \<noteq> 0 then Some (False, s)
      else do {
        let before = pmm_free_frame_count (mem (km s));
        m \<leftarrow> tlb_shootdown acks self 0 (mach s);
        Some (before < pmm_free_frame_count (mem (kmm_of m)), s\<lparr>mach := m\<rparr>)
      })"

definition file_fault :: "read_op \<Rightarrow> nat set \<Rightarrow> nat \<Rightarrow> nat \<Rightarrow> u64 \<Rightarrow> u64 \<Rightarrow> u32 \<Rightarrow> space \<Rightarrow> (fault_result \<times> space) option" where
  "file_fault rd acks self n off page_va prot s = do {
     let (frame, m) = pmm_alloc 0 (mem (km s));
     let s = set_mem m s;
     (frame, s) \<leftarrow> (if frame \<noteq> 0 then Some (frame, s)
        else do {
          (back, s) \<leftarrow> vma_reclaim acks self s;
          Some (if back then (case pmm_alloc 0 (mem (km s)) of (frame, m) \<Rightarrow> (frame, set_mem m s)) else (0, s))
        });
     if frame = 0 then Some (FAULT_SIGSEGV, vnode_put n s)
     else case vma_fill_page_from_file rd n off frame (mem (km s)) of
       (frc, m) \<Rightarrow>
         if frc \<noteq> 0 then Some (FAULT_SIGSEGV, vnode_put n (set_mem (pmm_free frame 0 m) s))
         else case vma_install_faulted_page_locked n off page_va prot frame (set_mem m s) of
           (installed, s) \<Rightarrow>
             let s = vnode_put n s
             in Some (FAULT_HANDLED, if installed then s else set_mem (pmm_free frame 0 (mem (km s))) s)
   }"

text \<open>A whole fault, with no other thread of the process in between. The code holds the lock of the
  mappings in \<open>vma_fault_locked\<close> and \<open>vma_install_faulted_page_locked\<close> only and drops it to reclaim memory
  and to read the file; \<open>Vma_Wx\<close> has these sections as steps of their own too.\<close>

definition vma_fault :: "read_op \<Rightarrow> nat set \<Rightarrow> nat \<Rightarrow> u64 \<Rightarrow> bool \<Rightarrow> space \<Rightarrow> (fault_result \<times> space) option" where
  "vma_fault rd acks self addr write s = do {
     let (r, s) = vma_fault_locked addr write s;
     (r, s) \<leftarrow> (if r \<noteq> FAULT_NOMEM then Some (r, s)
        else do {
          (back, s) \<leftarrow> vma_reclaim acks self s;
          Some (if back then vma_fault_locked addr write s else (FAULT_NOMEM, s))
        });
     case r of
       FAULT_NOMEM \<Rightarrow> Some (FAULT_SIGSEGV, s)
     | FAULT_NEEDS_IO n off page_va prot \<Rightarrow> file_fault rd acks self n off page_va prot s
     | _ \<Rightarrow> Some (r, s)
   }"

section \<open>Queries, copy and destruction\<close>

definition vma_mremap :: "u64 \<Rightarrow> u64 \<Rightarrow> u64 \<Rightarrow> u32 \<Rightarrow> space \<Rightarrow> int + u64" where
  "vma_mremap old_addr old_size new_size flags s =
     (if flags \<noteq> 0 then Inl (- EINVAL)
      else if unaligned old_addr then Inl (- EINVAL)
      else if old_size = 0 \<or> new_size = 0 then Inl (- EINVAL)
      else case vma_find s old_addr of None \<Rightarrow> Inl (- EFAULT)
        | Some v \<Rightarrow>
            if vend v < old_addr + page_up old_size \<or> vend v < old_addr + page_up new_size then Inl (- ENOMEM)
            else Inr old_addr)"

function range_mapped :: "space \<Rightarrow> u64 \<Rightarrow> u64 \<Rightarrow> bool" where
  "range_mapped s cursor stop =
     (if cursor < stop
      then case vma_find s cursor of None \<Rightarrow> False | Some v \<Rightarrow> range_mapped s (vend v) stop
      else True)"
  by pat_completeness auto

lemma find_vma_covers: "find_vma addr vs = Some v \<Longrightarrow> vstart v \<le> addr \<and> addr < vend v"
  by (induction vs) (auto split: if_splits)

termination range_mapped
proof (relation "measure (\<lambda>(s, cursor, stop). unat stop - unat cursor)", goal_cases)
  case (2 s cursor stop v)
  then have "cursor < vend v" using find_vma_covers [of cursor "vmas s" v] by (simp add: vma_find_def)
  with 2(1) have "unat cursor < unat stop" "unat cursor < unat (vend v)" by (simp_all add: word_less_nat_alt)
  then show ?case by simp
qed simp

definition vma_range_mapped :: "u64 \<Rightarrow> u64 \<Rightarrow> space \<Rightarrow> bool" where
  "vma_range_mapped addr len s =
     (if len = 0 then True
      else let stop = addr + len in if stop < addr then False else range_mapped s addr stop)"

fun copy_list :: "vma list \<Rightarrow> vma option list \<Rightarrow> (nat \<Rightarrow> int) \<Rightarrow> vma list option \<times> vma option list \<times> (nat \<Rightarrow> int)" where
  "copy_list [] outs refs = (Some [], outs, refs)"
| "copy_list (v # vs) [] refs = (None, [], refs)"
| "copy_list (v # vs) (None # outs) refs = (None, outs, refs)"
| "copy_list (v # vs) (Some b # outs) refs =
     (case copy_list vs outs (if file_backed v then refs(vvn v := refs (vvn v) + 1) else refs) of
        (r, outs, refs) \<Rightarrow>
          (map_option ((#) (b\<lparr>vstart := vstart v, vend := vend v, vprot := vprot v, vflags := vflags v,
                              vvn := (if file_backed v then vvn v else 0), voff := voff v\<rparr>)) r, outs, refs))"

text \<open>\<open>vma_copy_all\<close>: the result, the mappings and the cursor of the child, and the state of the
  parent with the references taken.\<close>

definition vma_copy_all :: "u64 \<Rightarrow> space \<Rightarrow> bool \<times> vma list \<times> u64 \<times> space" where
  "vma_copy_all dst_next src =
     (case copy_list (vmas src) (outcomes src) (vrefs src) of
        (None, outs, refs) \<Rightarrow> (False, [], dst_next, src\<lparr>outcomes := outs, vrefs := refs\<rparr>)
      | (Some vs, outs, refs) \<Rightarrow> (True, vs, mmap_next src, src\<lparr>outcomes := outs, vrefs := refs\<rparr>))"

definition destroy_vma :: "vma \<Rightarrow> space \<Rightarrow> space option" where
  "destroy_vma v s = do {
     s \<leftarrow> unmap_range (vstart v) (vend v) (\<not> flag (vflags v) VMA_PHYS) s;
     Some (if file_backed v then vnode_put (vvn v) s else s)
   }"

definition vma_destroy_all_locked :: "space \<Rightarrow> space option" where
  "vma_destroy_all_locked s = map_option (\<lambda>s. s\<lparr>vmas := []\<rparr>) (fold_opt destroy_vma (vmas s) s)"

definition vma_forget_all :: "space \<Rightarrow> space" where
  "vma_forget_all s = s\<lparr>vmas := []\<rparr>"

section \<open>Entry points\<close>

definition vma_tlb_settle :: "nat set \<Rightarrow> nat \<Rightarrow> space \<Rightarrow> space option" where
  "vma_tlb_settle acks self s =
     (if pml4_phys s = 0 then Some s
      else map_option (\<lambda>m. s\<lparr>mach := m\<rparr>) (tlb_shootdown acks self (pml4_phys s) (mach s)))"

definition vma_munmap :: "nat set \<Rightarrow> nat \<Rightarrow> u64 \<Rightarrow> u64 \<Rightarrow> space \<Rightarrow> (int \<times> space) option" where
  "vma_munmap acks self addr len s = do {
     (rc, s) \<leftarrow> vma_munmap_locked addr len s;
     s \<leftarrow> vma_tlb_settle acks self s;
     Some (rc, s)
   }"

definition vma_mmap :: "nat set \<Rightarrow> nat \<Rightarrow> u64 \<Rightarrow> u64 \<Rightarrow> u32 \<Rightarrow> u32 \<Rightarrow> space \<Rightarrow> ((int + u64) \<times> space) option" where
  "vma_mmap acks self addr len prot flags s = do {
     (rc, s) \<leftarrow> vma_mmap_locked addr len prot flags s;
     s \<leftarrow> (if flag flags MAP_FIXED then vma_tlb_settle acks self s else Some s);
     Some (rc, s)
   }"

definition vma_register_image_segment :: "u64 \<Rightarrow> u64 \<Rightarrow> u32 \<Rightarrow> space \<Rightarrow> bool \<times> space" where
  "vma_register_image_segment start stop prot s = vma_insert start stop prot MAP_PRIVATE s"

definition settle_failed :: "nat set \<Rightarrow> nat \<Rightarrow> (int + u64) \<times> space \<Rightarrow> ((int + u64) \<times> space) option" where
  "settle_failed acks self r =
     (case r of (Inr a, s) \<Rightarrow> Some (Inr a, s)
      | (Inl e, s) \<Rightarrow> map_option (\<lambda>s. (Inl e, s)) (vma_tlb_settle acks self s))"

definition vma_map_frames :: "nat set \<Rightarrow> nat \<Rightarrow> u64 list \<Rightarrow> u32 \<Rightarrow> space \<Rightarrow> ((int + u64) \<times> space) option" where
  "vma_map_frames acks self frames prot s = vma_map_frames_locked frames prot s \<bind> settle_failed acks self"

definition vma_map_phys :: "nat set \<Rightarrow> nat \<Rightarrow> u64 \<Rightarrow> u64 \<Rightarrow> u32 \<Rightarrow> space \<Rightarrow> ((int + u64) \<times> space) option" where
  "vma_map_phys acks self phys len prot s = vma_map_phys_locked phys len prot s \<bind> settle_failed acks self"

definition vma_mmap_file ::
  "nat set \<Rightarrow> nat \<Rightarrow> u64 \<Rightarrow> u64 \<Rightarrow> u32 \<Rightarrow> u32 \<Rightarrow> nat \<Rightarrow> u64 \<Rightarrow> space \<Rightarrow> ((int + u64) \<times> space) option"
where
  "vma_mmap_file acks self addr len prot flags n off s =
     (if n = 0 then Some (Inl (- EBADF), s)
      else if write_exec prot then Some (Inl (- EINVAL), s)
      else do {
        (rc, s) \<leftarrow> vma_mmap_file_locked addr len prot flags n off (vnode_ref n s);
        case rc of Inl e \<Rightarrow> Some (Inl e, vnode_put n s)
        | Inr a \<Rightarrow>
            if flag flags MAP_FIXED then map_option (\<lambda>s. (Inr a, s)) (vma_tlb_settle acks self s)
            else Some (Inr a, s)
      })"

definition vma_mprotect :: "nat set \<Rightarrow> nat \<Rightarrow> u64 \<Rightarrow> u64 \<Rightarrow> u32 \<Rightarrow> space \<Rightarrow> (int \<times> space) option" where
  "vma_mprotect acks self addr len prot s =
     (case vma_mprotect_locked addr len prot s of (rc, s) \<Rightarrow>
        map_option (\<lambda>s. (rc, s)) (vma_tlb_settle acks self s))"

definition vma_destroy_all :: "nat set \<Rightarrow> nat \<Rightarrow> space \<Rightarrow> space option" where
  "vma_destroy_all acks self s = vma_destroy_all_locked s \<bind> vma_tlb_settle acks self"

end
