(* ===== verification/Vma_Lists.thy ===== *)
theory Vma_Lists
  imports Vma
begin

text \<open>
  The list of mappings seen as a partial function from addresses: what \<open>munmap\<close>, \<open>mmap\<close> and
  \<open>mprotect\<close> do to it, and that they keep it sorted and free of overlaps.
\<close>

section \<open>Sorted lists and their view\<close>

definition ranges_ok :: "vma list \<Rightarrow> bool" where
  "ranges_ok vs \<longleftrightarrow> sorted_wrt (\<lambda>v w. vend v \<le> vstart w) vs \<and> (\<forall>v \<in> set vs. vstart v < vend v)"

lemma ranges_ok_simps [simp]:
  "ranges_ok []"
  "ranges_ok (v # vs) \<longleftrightarrow> vstart v < vend v \<and> (\<forall>w \<in> set vs. vend v \<le> vstart w) \<and> ranges_ok vs"
  by (auto simp: ranges_ok_def)

lemma ranges_ok_append:
  "ranges_ok (vs @ ws) \<longleftrightarrow> ranges_ok vs \<and> ranges_ok ws \<and> (\<forall>v \<in> set vs. \<forall>w \<in> set ws. vend v \<le> vstart w)"
  by (auto simp: ranges_ok_def sorted_wrt_append)

text \<open>What a mapping says about an address: protection, flags and the place in the file.\<close>

definition view :: "vma \<Rightarrow> u64 \<Rightarrow> u32 \<times> u32 \<times> (nat \<times> u64) option" where
  "view v a = (vprot v, vflags v, if file_backed v then Some (vvn v, voff v + (a - vstart v)) else None)"

definition cover :: "vma list \<Rightarrow> u64 \<Rightarrow> (u32 \<times> u32 \<times> (nat \<times> u64) option) option" where
  "cover vs a = map_option (\<lambda>v. view v a) (find_vma a vs)"

definition inside :: "vma \<Rightarrow> u64 \<Rightarrow> bool" where
  "inside v a \<longleftrightarrow> vstart v \<le> a \<and> a < vend v"

lemma find_vma_none_below:
  "\<forall>w \<in> set vs. a < vstart w \<Longrightarrow> find_vma a vs = None"
  by (cases vs) auto

lemma find_vma_Cons:
  "ranges_ok (v # vs) \<Longrightarrow> find_vma a (v # vs) = (if inside v a then Some v else find_vma a vs)"
proof -
  assume ok: "ranges_ok (v # vs)"
  have "find_vma a vs = None" if "a < vstart v"
  proof (rule find_vma_none_below, rule ballI)
    fix w assume "w \<in> set vs"
    then show "a < vstart w" using ok that by fastforce
  qed
  then show ?thesis by (simp add: inside_def)
qed

lemma find_vma_append:
  "ranges_ok (vs @ ws) \<Longrightarrow>
   find_vma a (vs @ ws) = (case find_vma a vs of Some v \<Rightarrow> Some v | None \<Rightarrow> find_vma a ws)"
proof (induction vs)
  case (Cons v vs)
  then have "ranges_ok (v # vs @ ws)" "ranges_ok (v # vs)" "ranges_ok (vs @ ws)"
    by (auto simp: ranges_ok_append)
  with Cons.IH show ?case by (simp only: append_Cons find_vma_Cons) simp
qed simp

lemma find_vma_iff:
  "ranges_ok vs \<Longrightarrow> find_vma a vs = Some v \<longleftrightarrow> v \<in> set vs \<and> inside v a"
proof (induction vs)
  case (Cons w vs)
  then have "ranges_ok vs" by simp
  have "inside v a \<Longrightarrow> v \<in> set vs \<Longrightarrow> \<not> inside w a"
    using Cons.prems by (fastforce simp: inside_def)
  with Cons show ?case by (auto simp: find_vma_Cons simp del: find_vma.simps)
qed simp

lemma cover_simps:
  "cover [] a = None"
  "ranges_ok (v # vs) \<Longrightarrow> cover (v # vs) a = (if inside v a then Some (view v a) else cover vs a)"
  by (simp_all add: cover_def find_vma_Cons del: find_vma.simps(2))

lemma cover_none_below: "\<forall>w \<in> set vs. a < vstart w \<Longrightarrow> cover vs a = None"
  by (simp add: cover_def find_vma_none_below)

lemma cover_append:
  "ranges_ok (vs @ ws) \<Longrightarrow> cover (vs @ ws) a = (case cover vs a of Some x \<Rightarrow> Some x | None \<Rightarrow> cover ws a)"
  by (simp add: cover_def find_vma_append split: option.split)

section \<open>Unmapping\<close>

definition starts_from :: "vma list \<Rightarrow> vma list \<Rightarrow> bool" where
  "starts_from vs' vs \<longleftrightarrow> (\<forall>v \<in> set vs'. \<exists>w \<in> set vs. vstart w \<le> vstart v)"

lemma starts_from_bound: "starts_from vs' vs \<Longrightarrow> \<forall>w \<in> set vs. b \<le> vstart w \<Longrightarrow> \<forall>v \<in> set vs'. b \<le> vstart v"
  unfolding starts_from_def using order_trans by blast

definition unmapped :: "u64 \<Rightarrow> u64 \<Rightarrow> vma list \<Rightarrow> vma list \<Rightarrow> bool" where
  "unmapped start stop vs vs' \<longleftrightarrow>
     (\<forall>a. cover vs' a = (if start \<le> a \<and> a < stop then None else cover vs a))"

lemma unmapped_skip:
  assumes "ranges_ok (v # vs)" and "ranges_ok (v # vs')" and "vend v \<le> start" and "unmapped start stop vs vs'"
  shows "unmapped start stop (v # vs) (v # vs')"
  using assms unfolding unmapped_def by (auto simp: cover_simps inside_def)

lemma unmapped_beyond:
  assumes "\<forall>v \<in> set vs. stop \<le> vstart v"
  shows "unmapped start stop vs vs"
  unfolding unmapped_def using assms by (auto intro!: cover_none_below)

lemma unmapped_consumed:
  assumes "ranges_ok (v # vs)" and "start \<le> vstart v" and "vend v \<le> stop" and "unmapped start stop vs vs'"
  shows "unmapped start stop (v # vs) vs'"
  using assms unfolding unmapped_def by (auto simp: cover_simps inside_def)

lemma view_trim [simp]: "view (v\<lparr>vend := b\<rparr>) a = view v a" "inside (v\<lparr>vend := b\<rparr>) a \<longleftrightarrow> vstart v \<le> a \<and> a < b"
  by (simp_all add: view_def inside_def file_backed_def)

lemma unmapped_trim_tail:
  assumes "ranges_ok (v # vs)" and "ranges_ok (v\<lparr>vend := start\<rparr> # vs')" and "start < vend v" and "vend v \<le> stop"
    and "unmapped start stop vs vs'"
  shows "unmapped start stop (v # vs) (v\<lparr>vend := start\<rparr> # vs')"
  using assms unfolding unmapped_def by (auto simp: cover_simps) (auto simp: inside_def)

lemma unmapped_trim_head:
  assumes "ranges_ok (v # vs)" and "start \<le> vstart v" and "vstart v < stop" and "stop < vend v"
    and "vstart t = stop" "vend t = vend v" and "\<And>a. view t a = view v a"
  shows "unmapped start stop (v # vs) (t # vs)"
proof -
  have "ranges_ok (t # vs)" using assms by simp
  moreover have "cover vs a = None" if "a < stop" for a
    using assms(1,4) that by (intro cover_none_below) fastforce
  ultimately show ?thesis
    using assms unfolding unmapped_def by (auto simp: cover_simps) (auto simp: inside_def)
qed

lemma unmapped_punch:
  assumes "ranges_ok (v # vs)" and "vstart v < start" and "start < stop" and "stop < vend v"
    and "vstart t = stop" "vend t = vend v" and "\<And>a. view t a = view v a"
  shows "unmapped start stop (v # vs) (v\<lparr>vend := start\<rparr> # t # vs)"
proof -
  have "ranges_ok (v\<lparr>vend := start\<rparr> # t # vs)" "ranges_ok (t # vs)" using assms by fastforce+
  moreover have "cover vs a = None" if "a < stop" for a
    using assms(1,4) that by (intro cover_none_below) fastforce
  ultimately show ?thesis
    using assms unfolding unmapped_def by (auto simp: cover_simps) (auto simp: inside_def)
qed

definition munmap_result :: "u64 \<Rightarrow> u64 \<Rightarrow> vma list \<Rightarrow> int \<Rightarrow> vma list \<Rightarrow> bool" where
  "munmap_result start stop vs rc vs' \<longleftrightarrow> ranges_ok vs' \<and> starts_from vs' vs
     \<and> (rc = 0 \<and> unmapped start stop vs vs' \<or> rc = - ENOMEM \<and> vs' = vs \<and> (\<exists>v \<in> set vs. vstart v < start))"

lemma starts_from_tail: "starts_from vs' vs \<Longrightarrow> vstart v' = vstart v \<Longrightarrow> starts_from (v' # vs') (v # vs)"
  by (auto simp: starts_from_def)

lemma munmap_Cons:
  assumes "ranges_ok (v # vs)" and "munmap_result start stop vs rc ws"
  shows "ranges_ok (v # ws)"
    "vend v \<le> start \<Longrightarrow> munmap_result start stop (v # vs) rc (v # ws)"
proof -
  have "\<forall>w \<in> set ws. vend v \<le> vstart w"
    using assms starts_from_bound [of ws vs "vend v"] by (simp add: munmap_result_def)
  then show ok: "ranges_ok (v # ws)" using assms by (simp add: munmap_result_def)
  show "munmap_result start stop (v # vs) rc (v # ws)" if "vend v \<le> start"
    using assms ok unmapped_skip [OF assms(1) ok that] starts_from_tail [of ws vs v v]
    by (auto simp: munmap_result_def)
qed

lemma munmap_punched:
  assumes "ranges_ok (v # vs)" and "vstart v < start" and "start < stop" and "stop < vend v"
    and "rc = - ENOMEM \<and> vs' = v # vs \<or> rc = 0 \<and> (\<exists>u. vs' = v\<lparr>vend := start\<rparr> # u # vs
          \<and> vstart u = stop \<and> vend u = vend v \<and> (\<forall>a. view u a = view v a))"
  shows "munmap_result start stop (v # vs) rc vs'"
  using assms(5)
proof (elim disjE conjE exE)
  assume "rc = - ENOMEM" "vs' = v # vs"
  then show ?thesis using assms(1,2) by (auto simp: munmap_result_def starts_from_def)
next
  fix u assume u: "rc = 0" "vs' = v\<lparr>vend := start\<rparr> # u # vs" "vstart u = stop" "vend u = vend v" "\<forall>a. view u a = view v a"
  have "ranges_ok vs'" using assms(1-4) u by fastforce
  moreover have "starts_from vs' (v # vs)" using assms(2,3) u by (auto simp: starts_from_def intro: less_imp_le less_trans)
  ultimately show ?thesis
    using unmapped_punch [OF assms(1-4) u(3,4)] u by (simp add: munmap_result_def)
qed

text \<open>Once a mapping reaches past \<open>start\<close>, no later one can need a punch.\<close>

lemma munmap_no_punch:
  assumes "ranges_ok (v # vs)" and "start < vend v" and "munmap_result start stop vs rc ws"
  shows "rc = 0 \<and> unmapped start stop vs ws"
  using assms unfolding munmap_result_def by fastforce

lemma munmap_trimmed:
  assumes "ranges_ok (v # vs)" and "vstart v < start" "start < vend v" "vend v \<le> stop"
    and "munmap_result start stop vs rc ws"
  shows "munmap_result start stop (v # vs) rc (v\<lparr>vend := start\<rparr> # ws)"
proof -
  have "ranges_ok (v # ws)" by (rule munmap_Cons(1) [OF assms(1,5)])
  then have ok: "ranges_ok (v\<lparr>vend := start\<rparr> # ws)" using assms(2,3) by fastforce
  have "rc = 0" "unmapped start stop vs ws" using munmap_no_punch [OF assms(1,3,5)] by simp_all
  then show ?thesis
    using ok unmapped_trim_tail [OF assms(1) ok assms(3,4)] starts_from_tail [of ws vs "v\<lparr>vend := start\<rparr>" v] assms(5)
    by (simp add: munmap_result_def)
qed

lemma munmap_head_cut:
  assumes "ranges_ok (v # vs)" and "start \<le> vstart v" "vstart v < stop" "stop < vend v"
    and "vstart u = stop" "vend u = vend v" "\<And>a. view u a = view v a"
  shows "munmap_result start stop (v # vs) 0 (u # vs)"
  using assms unmapped_trim_head [OF assms(1-6)] by (auto simp: munmap_result_def starts_from_def intro: less_imp_le)

lemma munmap_consumed:
  assumes "ranges_ok (v # vs)" and "start \<le> vstart v" "start < vend v" "vend v \<le> stop"
    and "munmap_result start stop vs rc ws"
  shows "munmap_result start stop (v # vs) rc ws"
  using assms unmapped_consumed [OF assms(1,2,4)] munmap_no_punch [OF assms(1,3,5)]
  by (auto simp: munmap_result_def starts_from_def)

lemma munmap_list_ok:
  "munmap_list start stop vs s = Some (rc, vs', s') \<Longrightarrow> ranges_ok vs \<Longrightarrow> start < stop \<Longrightarrow>
   munmap_result start stop vs rc vs'"
proof (induction start stop vs s arbitrary: rc vs' s' rule: munmap_list.induct)
  case (1 start stop s)
  then show ?case by (simp add: munmap_result_def starts_from_def unmapped_def cover_simps)
next
  case (2 start stop v vs s)
  note res = "2.prems"(1) and ok = "2.prems"(2) and lt = "2.prems"(3)
  consider (skip) "vend v \<le> start" | (beyond) "\<not> vend v \<le> start" "stop \<le> vstart v"
    | (hit) "\<not> vend v \<le> start" "\<not> stop \<le> vstart v" by blast
  then show ?case
  proof cases
    case skip
    then obtain ws where ws: "munmap_list start stop vs s = Some (rc, ws, s')" "vs' = v # ws"
      using res by (auto split: option.splits)
    have *: "munmap_result start stop vs rc ws" using "2.IH"(1) [OF skip ws(1)] ok lt by simp
    then show ?thesis using munmap_Cons(2) [OF ok *] skip ws(2) by simp
  next
    case beyond
    have "\<forall>w \<in> set (v # vs). stop \<le> vstart w" using ok beyond by fastforce
    then show ?thesis using beyond res ok unmapped_beyond by (auto simp: munmap_result_def starts_from_def)
  next
    case hit
    then obtain t where t: "unmap_range (max (vstart v) start) (min (vend v) stop) (\<not> flag (vflags v) VMA_PHYS) s = Some t"
      using res by (auto simp: Let_def split: bind_splits)
    note IH2 = "2.IH"(2) [OF hit refl refl t] and IH3 = "2.IH"(3) [OF hit refl refl t]
    note step = res [simplified, unfolded t Let_def, simplified]
    show ?thesis
    proof (cases "vstart v < start"; cases "stop < vend v")
      assume c: "vstart v < start" "stop < vend v"
      then have "rc = - ENOMEM \<and> vs' = v # vs \<or> rc = 0 \<and> (\<exists>u. vs' = v\<lparr>vend := start\<rparr> # u # vs
          \<and> vstart u = stop \<and> vend u = vend v \<and> (\<forall>a. view u a = view v a))"
        using step hit by (auto simp: view_def file_backed_def split: prod.splits option.splits if_splits)
      then show ?thesis using munmap_punched [OF ok c(1) lt c(2)] by blast
    next
      assume c: "vstart v < start" "\<not> stop < vend v"
      then obtain ws where ws: "munmap_list start stop vs t = Some (rc, ws, s')" "vs' = v\<lparr>vend := start\<rparr> # ws"
        using step hit by auto
      have *: "munmap_result start stop vs rc ws" using IH2 [OF _ c(1) ws(1)] c ok lt by simp
      then show ?thesis using munmap_trimmed [OF ok c(1) _ _ *] c(2) ws(2) hit by simp
    next
      assume c: "\<not> vstart v < start" "stop < vend v"
      then have "rc = 0 \<and> (\<exists>u. vs' = u # vs \<and> vstart u = stop \<and> vend u = vend v \<and> (\<forall>a. view u a = view v a))"
        using step hit by (auto simp: view_def file_backed_def)
      then show ?thesis using munmap_head_cut [OF ok _ _ c(2)] c(1) hit by auto
    next
      assume c: "\<not> vstart v < start" "\<not> stop < vend v"
      define t' where "t' = (if file_backed v then vnode_put (vvn v) t else t)"
      have ws: "munmap_list start stop vs t' = Some (rc, vs', s')" using step hit c by (simp add: t'_def)
      have *: "munmap_result start stop vs rc vs'"
        using IH3 [OF _ c(1,2) ws [unfolded t'_def]] c ok lt by simp
      show ?thesis using munmap_consumed [OF ok _ _ _ *] c hit by simp
    qed
  qed
qed

section \<open>Inserting\<close>

lemma find_vma_mem: "find_vma a vs = Some v \<Longrightarrow> v \<in> set vs \<and> inside v a"
  by (induction vs) (auto simp: inside_def split: if_splits)

lemma cover_none: "\<forall>w \<in> set vs. \<not> inside w a \<Longrightarrow> cover vs a = None"
  using find_vma_mem by (cases "find_vma a vs") (auto simp: cover_def)

lemma cover_mid:
  assumes "ranges_ok (pre @ m # post)"
  shows "cover (pre @ m # post) a
    = (if inside m a then Some (view m a) else case cover pre a of Some x \<Rightarrow> Some x | None \<Rightarrow> cover post a)"
proof -
  have "cover pre a = None" if "inside m a"
    using assms that by (intro cover_none) (fastforce simp: ranges_ok_append inside_def)
  moreover have "ranges_ok (m # post)" using assms by (simp add: ranges_ok_append)
  ultimately show ?thesis using cover_append [OF assms] by (auto simp: cover_simps split: option.split)
qed

definition range_free :: "u64 \<Rightarrow> u64 \<Rightarrow> vma list \<Rightarrow> bool" where
  "range_free start stop vs \<longleftrightarrow> (\<forall>v \<in> set vs. vend v \<le> start \<or> stop \<le> vstart v)"

definition inserted :: "u64 \<Rightarrow> u64 \<Rightarrow> u32 \<Rightarrow> u32 \<Rightarrow> vma list \<Rightarrow> vma list \<Rightarrow> bool" where
  "inserted start stop prot flags vs vs' \<longleftrightarrow> ranges_ok vs'
     \<and> (\<forall>a. cover vs' a = (if start \<le> a \<and> a < stop then Some (prot, flags, None) else cover vs a))"

lemma view_plain:
  "can_merge prot flags v \<Longrightarrow> view v a = (prot, flags, None)"
  by (simp add: view_def can_merge_def file_backed_def)

lemma inserted_back:
  assumes ok: "ranges_ok (pre @ p # post)" and free: "range_free start stop (pre @ p # post)" and lt: "start < stop"
    and p: "vend p = start" "can_merge prot flags p"
  shows "inserted start stop prot flags (pre @ p # post) (pre @ p\<lparr>vend := stop\<rparr> # post)"
proof -
  have post: "\<forall>w \<in> set post. stop \<le> vstart w"
  proof
    fix w assume w: "w \<in> set post"
    then have "start \<le> vstart w" "vstart w < vend w" using ok p(1) by (auto simp: ranges_ok_def sorted_wrt_append)
    moreover have "vend w \<le> start \<or> stop \<le> vstart w" using free w by (simp add: range_free_def)
    ultimately show "stop \<le> vstart w" by auto
  qed
  then have ok': "ranges_ok (pre @ p\<lparr>vend := stop\<rparr> # post)" using ok lt p(1) by (auto simp: ranges_ok_append)
  have "cover pre a = None" "cover post a = None" if "start \<le> a" "a < stop" for a
    using that ok post lt p(1) by (intro cover_none; fastforce simp: ranges_ok_append inside_def)+
  moreover have "vstart p < vend p" using ok by (simp add: ranges_ok_append)
  ultimately show ?thesis
    using ok' lt p unfolding inserted_def cover_mid [OF ok'] cover_mid [OF ok]
    by (auto simp: view_plain inside_def ranges_ok_append)
qed

lemma inserted_both:
  assumes ok: "ranges_ok (pre @ p # n # post)" and lt: "start < stop"
    and p: "vend p = start" "can_merge prot flags p" and n: "vstart n = stop" "vprot n = prot" "vflags n = flags"
  shows "inserted start stop prot flags (pre @ p # n # post) (pre @ p\<lparr>vend := vend n\<rparr> # post)"
proof -
  have ok': "ranges_ok (pre @ p\<lparr>vend := vend n\<rparr> # post)" using ok lt p(1) n(1) by (auto simp: ranges_ok_append)
  have okn: "ranges_ok (n # post)" using ok by (simp add: ranges_ok_append)
  have "can_merge prot flags n" using p(2) n by (simp add: can_merge_def)
  moreover have "cover pre a = None" if "start \<le> a" for a
    using that ok p(1) by (intro cover_none) (fastforce simp: ranges_ok_append inside_def)
  moreover have "cover post a = None" if "a < vend n" for a
    using that ok by (intro cover_none) (fastforce simp: ranges_ok_append inside_def)
  ultimately show ?thesis
    using ok ok' lt p n unfolding inserted_def cover_mid [OF ok'] cover_mid [OF ok] cover_simps(2) [OF okn]
    by (auto simp: view_plain inside_def ranges_ok_append)
qed

lemma inserted_front:
  assumes ok: "ranges_ok (pre @ n # post)" and free: "range_free start stop (pre @ n # post)" and lt: "start < stop"
    and pre: "\<forall>v \<in> set pre. vend v \<le> start" and n: "vstart n = stop" "can_merge prot flags n"
  shows "inserted start stop prot flags (pre @ n # post) (pre @ n\<lparr>vstart := start\<rparr> # post)"
proof -
  have ok': "ranges_ok (pre @ n\<lparr>vstart := start\<rparr> # post)" using ok lt pre n(1) by (auto simp: ranges_ok_append)
  have "cover pre a = None" if "start \<le> a" for a
    using that pre by (intro cover_none) (fastforce simp: inside_def)
  moreover have "view (n\<lparr>vstart := start\<rparr>) a = (prot, flags, None)" for a
    using n(2) by (simp add: view_def can_merge_def file_backed_def)
  ultimately show ?thesis
    using ok ok' lt n unfolding inserted_def cover_mid [OF ok'] cover_mid [OF ok]
    by (auto simp: view_plain inside_def ranges_ok_append)
qed

lemma inserted_new:
  assumes ok: "ranges_ok (pre @ post)" and free: "\<forall>v \<in> set pre. vend v \<le> start" "\<forall>w \<in> set post. stop \<le> vstart w"
    and lt: "start < stop" and n: "vstart n = start" "vend n = stop" "view n = (\<lambda>a. (prot, flags, None))"
  shows "inserted start stop prot flags (pre @ post) (pre @ n # post)"
proof -
  have ok': "ranges_ok (pre @ n # post)" using ok free lt n by (auto simp: ranges_ok_append)
  then show ?thesis
    using n unfolding inserted_def cover_mid [OF ok'] cover_append [OF ok] by (auto simp: inside_def)
qed

lemma vma_insert_ok:
  assumes ok: "ranges_ok (vmas s)" and free: "range_free start stop (vmas s)" and lt: "start < stop"
    and res: "vma_insert start stop prot flags s = (ins, s')"
  shows "if ins then inserted start stop prot flags (vmas s) (vmas s') else vmas s' = vmas s"
proof -
  define pre where "pre = takeWhile (\<lambda>v. vend v \<le> start) (vmas s)"
  define post where "post = dropWhile (\<lambda>v. vend v \<le> start) (vmas s)"
  have split: "vmas s = pre @ post" by (simp add: pre_def post_def)
  have pre: "\<forall>v \<in> set pre. vend v \<le> start" using set_takeWhileD unfolding pre_def by fastforce
  have "\<forall>w \<in> set post. stop \<le> vstart w"
  proof (cases post)
    case (Cons h t)
    then have "\<not> vend h \<le> start" using hd_dropWhile [of "\<lambda>v. vend v \<le> start" "vmas s"] by (simp add: post_def)
    then have "stop \<le> vstart h" using free split Cons by (auto simp: range_free_def)
    moreover have "\<forall>w \<in> set t. vend h \<le> vstart w" "vstart h < vend h"
      using ok split Cons by (auto simp: ranges_ok_append)
    ultimately show ?thesis using Cons by fastforce
  qed simp
  note post = this
  note step = res [unfolded vma_insert_def, folded pre_def post_def, unfolded Let_def]
  show ?thesis
  proof (cases "pre \<noteq> [] \<and> vend (last pre) = start \<and> can_merge prot flags (last pre)")
    case True
    define p where "p = last pre"
    have p: "pre = butlast pre @ [p]" "vend p = start" "can_merge prot flags p" using True by (simp_all add: p_def)
    have vs: "vmas s = butlast pre @ p # post" using split p(1) by (metis append.assoc append_Cons append_Nil)
    show ?thesis
    proof (cases "\<exists>n rest. post = n # rest \<and> vstart n = stop \<and> vprot n = prot \<and> vflags n = flags")
      case merge: True
      then obtain n rest where n: "post = n # rest" "vstart n = stop" "vprot n = prot" "vflags n = flags" by blast
      have "ins" "vmas s' = butlast pre @ p\<lparr>vend := vend n\<rparr> # rest"
        using step True n by (auto simp: p_def)
      then show ?thesis
        using inserted_both [OF _ lt p(2,3) n(2-4)] ok n(1) unfolding vs by simp
    next
      case False
      then have "ins" "vmas s' = butlast pre @ p\<lparr>vend := stop\<rparr> # post"
        using step True by (auto simp: p_def split: list.splits if_splits)
      then show ?thesis
        using inserted_back [OF _ _ lt p(2,3)] ok free unfolding vs by simp
    qed
  next
    case nb: False
    show ?thesis
    proof (cases "post \<noteq> [] \<and> vstart (hd post) = stop \<and> can_merge prot flags (hd post)")
      case True
      then obtain n rest where n: "post = n # rest" "vstart n = stop" "can_merge prot flags n" by (cases post) auto
      have "ins" "vmas s' = pre @ n\<lparr>vstart := start\<rparr> # rest" using step nb True n by auto
      then show ?thesis using inserted_front [OF _ _ lt pre n(2,3)] ok free unfolding split n(1) by simp
    next
      case False
      have "ins \<longrightarrow> (\<exists>n. vmas s' = pre @ n # post \<and> vstart n = start \<and> vend n = stop
          \<and> view n = (\<lambda>a. (prot, flags, None)))" "\<not> ins \<longrightarrow> vmas s' = vmas s"
        using step nb False
        by (auto simp: kmalloc_vma_def view_def file_backed_def fun_eq_iff split: list.splits option.splits)
      then show ?thesis using inserted_new [OF _ pre post lt] ok unfolding split by auto
    qed
  qed
qed

end
