(* ===== verification/Vma_Protect.thy ===== *)
theory Vma_Protect
  imports Vma_Lists
begin

text \<open>What \<open>mprotect\<close> does to the list of mappings.\<close>

declare mprotect_list.simps [simp del]

definition reprotect :: "u32 \<Rightarrow> u32 \<times> u32 \<times> (nat \<times> u64) option \<Rightarrow> u32 \<times> u32 \<times> (nat \<times> u64) option" where
  "reprotect prot x = (prot, snd x)"

definition mprotect_at :: "u64 \<Rightarrow> u64 \<Rightarrow> u32 \<Rightarrow> int \<Rightarrow> vma list \<Rightarrow> vma list \<Rightarrow> u64 \<Rightarrow> bool" where
  "mprotect_at start stop prot rc vs vs' a \<longleftrightarrow>
     (if start \<le> a \<and> a < stop
      then cover vs' a = map_option (reprotect prot) (cover vs a) \<or> rc \<noteq> 0 \<and> cover vs' a = cover vs a
      else cover vs' a = cover vs a)"

definition mprotect_result :: "u64 \<Rightarrow> u64 \<Rightarrow> u32 \<Rightarrow> vma list \<Rightarrow> int \<Rightarrow> vma list \<Rightarrow> bool" where
  "mprotect_result start stop prot vs rc vs' \<longleftrightarrow> ranges_ok vs' \<and> starts_from vs' vs
     \<and> (rc = 0 \<or> rc = - ENOMEM) \<and> (\<forall>a. mprotect_at start stop prot rc vs vs' a)"

lemma mprotect_prepend:
  assumes "ranges_ok (v # vs)" and "mprotect_result start stop prot vs rc ws"
  shows "\<forall>w \<in> set ws. vend v \<le> vstart w"
  using assms starts_from_bound [of ws vs "vend v"] by (simp add: mprotect_result_def)

lemma mprotect_skip:
  assumes "ranges_ok (v # vs)" and "mprotect_result start stop prot vs rc ws" and "vend v \<le> start"
  shows "mprotect_result start stop prot (v # vs) rc (v # ws)"
proof -
  have ok: "ranges_ok (v # ws)" using assms mprotect_prepend [OF assms(1,2)] by (simp add: mprotect_result_def)
  then show ?thesis
    using assms starts_from_tail [of ws vs v v]
    by (auto simp: mprotect_result_def mprotect_at_def cover_simps inside_def)
qed

lemma mprotect_same:
  assumes "ranges_ok vs" and "rc = - ENOMEM \<or> rc = 0 \<and> (\<forall>v \<in> set vs. stop \<le> vstart v)"
  shows "mprotect_result start stop prot vs rc vs"
proof -
  have "cover vs a = None" if "rc = 0" "a < stop" for a
    using assms(2) that by (intro cover_none_below) fastforce
  then show ?thesis using assms by (auto simp: mprotect_result_def mprotect_at_def starts_from_def)
qed

lemma mprotect_whole:
  assumes ok: "ranges_ok (v # vs)" and r: "mprotect_result start stop prot vs rc ws" and "start \<le> vstart v" "vend v \<le> stop"
  shows "mprotect_result start stop prot (v # vs) rc (v\<lparr>vprot := prot\<rparr> # ws)"
proof -
  have ok': "ranges_ok (v\<lparr>vprot := prot\<rparr> # ws)" using assms mprotect_prepend [OF ok r] by (simp add: mprotect_result_def)
  have "view (v\<lparr>vprot := prot\<rparr>) a = reprotect prot (view v a)" "inside (v\<lparr>vprot := prot\<rparr>) a = inside v a" for a
    by (simp_all add: view_def reprotect_def file_backed_def inside_def)
  then show ?thesis
    using assms ok' starts_from_tail [of ws vs "v\<lparr>vprot := prot\<rparr>" v]
    by (auto simp: mprotect_result_def mprotect_at_def cover_simps inside_def)
qed

lemma mprotect_lead:
  assumes ok: "ranges_ok (v # vs)" and lt: "vstart v < start" "start < vend v"
    and t: "vstart t = start" "vend t = vend v" "\<And>a. view t a = view v a"
    and r: "mprotect_result start stop prot (t # vs) rc ws"
  shows "mprotect_result start stop prot (v # vs) rc (v\<lparr>vend := start\<rparr> # ws)"
proof -
  have okt: "ranges_ok (t # vs)" using ok t lt by simp
  have "\<forall>w \<in> set ws. start \<le> vstart w"
    using r ok t(1) lt starts_from_bound [of ws "t # vs" start] by (fastforce simp: mprotect_result_def)
  then have ok': "ranges_ok (v\<lparr>vend := start\<rparr> # ws)" using r lt by (simp add: mprotect_result_def)
  have "starts_from ws (v # vs)"
    unfolding starts_from_def using r t(1) lt(1)
    by (fastforce simp: mprotect_result_def starts_from_def intro: less_imp_le order_trans)
  moreover have "cover ws a = None" if "a < start" for a
    using \<open>\<forall>w \<in> set ws. start \<le> vstart w\<close> that by (intro cover_none_below) fastforce
  moreover have "cover vs a = None" if "a < start" for a
    using ok lt that by (intro cover_none_below) fastforce
  ultimately have sf: "starts_from (v\<lparr>vend := start\<rparr> # ws) (v # vs)"
    and none: "\<And>a. a < start \<Longrightarrow> cover ws a = None \<and> cover vs a = None"
    by (auto simp: starts_from_def)
  have "mprotect_at start stop prot rc (v # vs) (v\<lparr>vend := start\<rparr> # ws) a" for a
  proof (cases "a < start")
    case True
    then have "\<not> start \<le> a" "a < vend v" using lt by auto
    then show ?thesis
      using True none by (simp add: mprotect_at_def cover_simps(2) [OF ok] cover_simps(2) [OF ok']) (simp add: inside_def)
  next
    case False
    then have "cover (v # vs) a = cover (t # vs) a" "cover (v\<lparr>vend := start\<rparr> # ws) a = cover ws a"
      using lt t by (simp_all add: cover_simps(2) [OF ok] cover_simps(2) [OF okt] cover_simps(2) [OF ok'])
        (auto simp: inside_def)
    then show ?thesis using r by (simp add: mprotect_result_def mprotect_at_def)
  qed
  then show ?thesis using r ok' sf by (simp add: mprotect_result_def)
qed

lemma mprotect_trail:
  assumes ok: "ranges_ok (v # vs)" and lt: "start \<le> vstart v" "vstart v < stop" "stop < vend v"
    and t: "vstart t = stop" "vend t = vend v" "\<And>a. view t a = view v a"
  shows "mprotect_result start stop prot (v # vs) 0 (v\<lparr>vend := stop, vprot := prot\<rparr> # t # vs)"
proof -
  let ?v = "v\<lparr>vend := stop, vprot := prot\<rparr>"
  have ok': "ranges_ok (?v # t # vs)" "ranges_ok (t # vs)" using ok t lt by fastforce+
  have "view ?v a = reprotect prot (view v a)" "inside ?v a \<longleftrightarrow> vstart v \<le> a \<and> a < stop" for a
    by (simp_all add: view_def reprotect_def file_backed_def inside_def)
  moreover have "cover vs a = None" if "a < vend v" for a
    using ok that by (intro cover_none_below) fastforce
  ultimately show ?thesis
    using ok ok' lt t
    by (auto simp: mprotect_result_def mprotect_at_def cover_simps starts_from_def inside_def)
qed

text \<open>A split copies protection and flags but not the place in a file; without file mappings
  in the range the view is exact.\<close>

definition anonymous :: "u64 \<Rightarrow> u64 \<Rightarrow> vma list \<Rightarrow> bool" where
  "anonymous start stop vs \<longleftrightarrow> (\<forall>v \<in> set vs. start < vend v \<and> vstart v < stop \<longrightarrow> \<not> flag (vflags v) VMA_FILE)"

lemma view_split:
  "\<not> flag (vflags v) VMA_FILE \<Longrightarrow> vprot t = vprot v \<Longrightarrow> vflags t = vflags v \<Longrightarrow> view t a = view v a"
  by (simp add: view_def file_backed_def)

lemma mprotect_list_ok:
  "mprotect_list start stop prot vs s = (rc, vs', s') \<Longrightarrow> ranges_ok vs \<Longrightarrow> start < stop \<Longrightarrow> anonymous start stop vs \<Longrightarrow>
   mprotect_result start stop prot vs rc vs'"
proof (induction start stop prot vs s arbitrary: rc vs' s' rule: mprotect_list.induct)
  case (1 start stop prot s)
  then show ?case by (auto simp: mprotect_list.simps intro!: mprotect_same)
next
  case (2 start stop prot v vs s)
  note res = "2.prems"(1) [unfolded mprotect_list.simps(2) [of start stop prot v vs s]] and ok = "2.prems"(2) and lt = "2.prems"(3) and an = "2.prems"(4)
  have an': "anonymous start stop vs" using an by (simp add: anonymous_def)
  consider (skip) "vend v \<le> start" | (beyond) "\<not> vend v \<le> start" "stop \<le> vstart v"
    | (lead) "\<not> vend v \<le> start" "\<not> stop \<le> vstart v" "vstart v < start"
    | (trail) "\<not> vend v \<le> start" "\<not> stop \<le> vstart v" "\<not> vstart v < start" "stop < vend v"
    | (whole) "\<not> vend v \<le> start" "\<not> stop \<le> vstart v" "\<not> vstart v < start" "\<not> stop < vend v" by blast
  then show ?case
  proof cases
    case skip
    then obtain ws where ws: "mprotect_list start stop prot vs s = (rc, ws, s')" "vs' = v # ws"
      using res by (auto split: prod.splits)
    show ?thesis using mprotect_skip [OF ok "2.IH"(1) [OF skip ws(1) _ lt an'] skip] ok ws(2) by simp
  next
    case beyond
    then have "rc = 0" "vs' = v # vs" using res by auto
    moreover have "\<forall>w \<in> set (v # vs). stop \<le> vstart w" using ok beyond by fastforce
    ultimately show ?thesis using ok by (auto intro!: mprotect_same)
  next
    case lead
    show ?thesis
    proof (cases "fst (kmalloc_vma s)")
      case None
      then show ?thesis using res lead ok by (auto simp: split_beta intro!: mprotect_same)
    next
      case (Some b)
      let ?t = "b\<lparr>vstart := start, vend := vend v, vprot := vprot v, vflags := vflags v\<rparr>"
      have k: "kmalloc_vma s = (Some b, snd (kmalloc_vma s))" using Some by (metis prod.collapse)
      then obtain ws where ws: "mprotect_list start stop prot (?t # vs) (snd (kmalloc_vma s)) = (rc, ws, s')"
          "vs' = v\<lparr>vend := start\<rparr> # ws"
        using res lead by (auto split: prod.splits)
      have "\<not> flag (vflags v) VMA_FILE" using an lead by (auto simp: anonymous_def)
      then have vt: "view ?t a = view v a" for a by (intro view_split) simp_all
      have "mprotect_result start stop prot (?t # vs) rc ws"
        using "2.IH"(2) [OF lead k [symmetric] refl ws(1)] ok an lead lt by (auto simp: anonymous_def)
      then show ?thesis using mprotect_lead [OF ok lead(3) _ _ _ vt] lead ws(2) by simp
    qed
  next
    case trail
    show ?thesis
    proof (cases "fst (kmalloc_vma s)")
      case None
      then show ?thesis using res trail ok by (auto simp: split_beta vma_split_at_def intro!: mprotect_same)
    next
      case (Some b)
      let ?t = "b\<lparr>vstart := stop, vend := vend v, vprot := vprot v, vflags := vflags v\<rparr>"
      have k: "kmalloc_vma s = (Some b, snd (kmalloc_vma s))" using Some by (metis prod.collapse)
      then have "rc = 0" "vs' = v\<lparr>vend := stop, vprot := prot\<rparr> # ?t # vs"
        using res trail by (auto simp: vma_split_at_def split: prod.splits)
      moreover have "\<not> flag (vflags v) VMA_FILE" using an trail by (auto simp: anonymous_def)
      then have "view ?t a = view v a" for a by (intro view_split) simp_all
      ultimately show ?thesis using mprotect_trail [OF ok _ _ trail(4), of start ?t] trail by simp
    qed
  next
    case whole
    then obtain ws where ws: "mprotect_list start stop prot vs (setprot_range (vstart v) (vend v) prot s) = (rc, ws, s')"
        "vs' = v\<lparr>vprot := prot\<rparr> # ws"
      using res by (auto split: prod.splits)
    show ?thesis using mprotect_whole [OF ok "2.IH"(3) [OF whole ws(1) _ lt an']] whole ok ws(2) by simp
  qed
qed

end
