(* ===== verification/Vma_Main.thy ===== *)
theory Vma_Main
  imports Vma_Protect Pmm_Correct
begin

text \<open>The properties of the mappings of a process.\<close>

section \<open>What the operations do not touch\<close>

lemma set_mem_fields [simp]:
  "vmas (set_km k s) = vmas s" "vmas (set_mem m s) = vmas s" "vmas (vnode_ref n s) = vmas s" "vmas (vnode_put n s) = vmas s"
  "mmap_next (set_km k s) = mmap_next s" "mmap_next (set_mem m s) = mmap_next s"
  by (simp_all add: set_km_def set_mem_def vnode_ref_def vnode_put_def)

lemma settle_vmas [simp]: "vma_tlb_settle acks self s = Some s' \<Longrightarrow> vmas s' = vmas s"
  by (auto simp: vma_tlb_settle_def split: if_splits)

lemma kmalloc_vmas [simp]: "kmalloc_vma s = (x, s') \<Longrightarrow> vmas s' = vmas s"
  by (auto simp: kmalloc_vma_def split: list.splits)

lemma munmap_locked_ok:
  assumes "vma_munmap_locked addr len s = Some (rc, s')" and "ranges_ok (vmas s)"
  shows "ranges_ok (vmas s') \<and> (rc = 0 \<and> unmapped addr (page_up (addr + len)) (vmas s) (vmas s')
    \<or> rc = - ENOMEM \<and> vmas s' = vmas s \<or> rc = - EINVAL \<and> s' = s)"
proof (cases "unaligned addr \<or> page_up (addr + len) \<le> addr")
  case True
  then show ?thesis using assms by (auto simp: vma_munmap_locked_def Let_def split: if_splits)
next
  case False
  then obtain vs t where "munmap_list addr (page_up (addr + len)) (vmas s) s = Some (rc, vs, t)" "s' = t\<lparr>vmas := vs\<rparr>"
    using assms(1) by (auto simp: vma_munmap_locked_def Let_def split: if_splits)
  then show ?thesis
    using munmap_list_ok [of addr "page_up (addr + len)" "vmas s" s] assms(2) False
    by (auto simp: munmap_result_def)
qed

section \<open>Page arithmetic\<close>

lemma low_mask: "(0xFFF :: u64) = mask 12"
  by (simp add: mask_eq_exp_minus_1)

lemma unaligned_iff: "unaligned a \<longleftrightarrow> take_bit 12 a \<noteq> 0"
  by (simp add: unaligned_def low_mask take_bit_eq_mask)

lemma page_up_mask: "page_up a = (a + mask 12) AND NOT (mask 12)"
  by (simp add: page_up_def low_mask)

lemma take_bit_clear: "take_bit n (x AND NOT (mask n)) = (0 :: 'a :: len word)"
  by (rule bit_eqI) (auto simp: bit_simps)

lemma page_up_aligned: "\<not> unaligned (page_up a)"
  unfolding unaligned_iff page_up_mask by (simp only: take_bit_clear not_not)

lemma unaligned_dvd: "unaligned a \<longleftrightarrow> \<not> 4096 dvd unat a"
proof -
  have "take_bit 12 a = 0 \<longleftrightarrow> unat (take_bit 12 a) = 0" by (rule unat_eq_zero [symmetric])
  also have "unat (take_bit 12 a) = unat a mod 4096" by (simp add: take_bit_eq_mod unat_mod)
  finally show ?thesis by (simp add: unaligned_iff dvd_eq_mod_eq_0)
qed

lemma aligned_add: "\<not> unaligned a \<Longrightarrow> \<not> unaligned b \<Longrightarrow> \<not> unaligned (a + b)"
  unfolding unaligned_dvd unat_word_ariths(1) by (simp add: dvd_mod)

lemma page_up_id: "\<not> unaligned a \<Longrightarrow> page_up a = a"
proof -
  assume "\<not> unaligned a"
  then have t: "take_bit 12 a = 0" by (simp add: unaligned_iff)
  then have z: "a AND mask 12 = 0" by (simp only: take_bit_eq_mask)
  have low: "\<not> bit a n" if "n < 12" for n using t that bit_take_bit_iff [of 12 a n] by simp
  have "a + mask 12 = a OR mask 12" using z word_plus_and_or [of a "mask 12"] by (simp only: add_0)
  moreover have "(a OR mask 12) AND NOT (mask 12) = a"
  proof (rule bit_eqI)
    fix n show "bit ((a OR mask 12) AND NOT (mask 12)) n \<longleftrightarrow> bit a n"
      using low [of n] bit_imp_le_length [of a n] by (cases "n < 12") (simp_all only: bit_simps, auto)
  qed
  ultimately show ?thesis by (simp only: page_up_mask)
qed

section \<open>munmap\<close>

text \<open>C7: \<open>munmap\<close> keeps the mappings sorted and disjoint. When it returns 0, no address of the
  range is covered any more and every other address is covered exactly as before, with the same
  protection, flags and place in the file, however the range cuts through mappings. When it
  fails the list of mappings is unchanged.\<close>

theorem vma_munmap_correct:
  assumes "ranges_ok (vmas s)" and "vma_munmap acks self addr len s = Some (rc, s')"
  shows "ranges_ok (vmas s')
    \<and> (if rc = 0 then \<forall>a. cover (vmas s') a
          = (if addr \<le> a \<and> a < page_up (addr + len) then None else cover (vmas s) a)
       else vmas s' = vmas s)"
proof -
  obtain t where t: "vma_munmap_locked addr len s = Some (rc, t)" "vma_tlb_settle acks self t = Some s'"
    using assms(2) by (auto simp: vma_munmap_def split: bind_splits)
  have "vmas s' = vmas t" by (rule settle_vmas [OF t(2)])
  then show ?thesis using munmap_locked_ok [OF t(1) assms(1)] unfolding unmapped_def by (elim conjE disjE) simp_all
qed

text \<open>A process without page tables and one mapping of a file, of three pages at offset 0x7000.\<close>

definition blank_space :: space where
  "blank_space = \<lparr>vmas = [], mmap_next = MMAP_BASE, pml4_phys = 0,
     mach = \<lparr>kmm_of = \<lparr>mem = blank_mem, slots = (\<lambda>_. zero_slot), slot_limit = 0, deferred_head = 0, deferred_n = 0\<rparr>,
             smp_online_count = 1, cpu_pml4 = (\<lambda>_. None), lock_held_depth = 0, tlb = (\<lambda>_. {})\<rparr>,
     outcomes = [], vrefs = (\<lambda>_. 1)\<rparr>"

definition stale_vma :: vma where
  "stale_vma = \<lparr>vstart = 1, vend = 2, vprot = 3, vflags = 4, vvn = 77, voff = 0xBAD\<rparr>"

definition file_vma :: vma where
  "file_vma = \<lparr>vstart = MMAP_BASE, vend = MMAP_BASE + 0x3000, vprot = 1, vflags = 0x1002, vvn = 9, voff = 0x7000\<rparr>"

definition file_space :: space where
  "file_space = blank_space\<lparr>vmas := [file_vma], mmap_next := MMAP_BASE + 0x3000, outcomes := [Some stale_vma]\<rparr>"

lemma file_space_ok: "ranges_ok (vmas file_space)"
  by (simp add: file_space_def file_vma_def)

theorem vma_munmap_correct_witness:
  "\<exists>s'. vma_munmap {} 0 (MMAP_BASE + 0x1000) 0x1000 file_space = Some (0, s')
     \<and> cover (vmas s') (MMAP_BASE + 0x1000) = None
     \<and> cover (vmas s') (MMAP_BASE + 0x2000) = Some (1, 0x1002, Some (9, 0x9000))"
proof -
  have r: "map_option fst (vma_munmap {} 0 (MMAP_BASE + 0x1000) 0x1000 file_space) = Some 0" by code_simp
  then obtain s' where s': "vma_munmap {} 0 (MMAP_BASE + 0x1000) 0x1000 file_space = Some (0, s')" by auto
  have "cover (vmas file_space) (MMAP_BASE + 0x2000) = Some (1, 0x1002, Some (9, 0x9000))" by code_simp
  moreover have "page_up (MMAP_BASE + 0x1000 + 0x1000) = MMAP_BASE + 0x2000" by code_simp
  ultimately show ?thesis
    using vma_munmap_correct [OF file_space_ok s'] s' by auto
qed

section \<open>mmap\<close>

lemma range_free_of_cover:
  assumes "ranges_ok vs" and "start < stop" and "\<And>a. start \<le> a \<Longrightarrow> a < stop \<Longrightarrow> cover vs a = None"
  shows "range_free start stop vs"
  unfolding range_free_def
proof (intro ballI, rule ccontr)
  fix v assume v: "v \<in> set vs" "\<not> (vend v \<le> start \<or> stop \<le> vstart v)"
  let ?a = "max (vstart v) start"
  have "vstart v < vend v" using assms(1) v(1) by (simp add: ranges_ok_def)
  then have "inside v ?a" "start \<le> ?a" "?a < stop" using v(2) assms(2) by (auto simp: inside_def)
  moreover have "find_vma ?a vs = Some v" using find_vma_iff [OF assms(1)] v(1) calculation(1) by blast
  ultimately show False using assms(3) [of ?a] by (simp add: cover_def)
qed

lemma place_mapping_ok:
  assumes ok: "ranges_ok (vmas s)" and res: "place_mapping addr len flags s = Some (Inr a0, t)"
    and len: "a0 < a0 + len" "\<not> unaligned len"
    and free: "if flag flags MAP_FIXED then \<exists>t. vma_munmap_locked addr len s = Some (0, t)
               else range_free (mmap_next s) (mmap_next s + len) (vmas s)"
  shows "ranges_ok (vmas t) \<and> range_free a0 (a0 + len) (vmas t) \<and> a0 = (if flag flags MAP_FIXED then addr else mmap_next s)
      \<and> (\<forall>a. \<not> (a0 \<le> a \<and> a < a0 + len) \<longrightarrow> cover (vmas t) a = cover (vmas s) a)"
proof (cases "flag flags MAP_FIXED")
  case True
  then have al: "\<not> unaligned addr" "a0 = addr" and m: "vma_munmap_locked addr len s = Some (0, t)"
    using res free by (auto simp: place_mapping_def split: if_splits)
  have "page_up (addr + len) = addr + len" using al(1) len(2) aligned_add page_up_id by blast
  then have "ranges_ok (vmas t)" "unmapped addr (addr + len) (vmas s) (vmas t)"
    using munmap_locked_ok [OF m ok] by simp_all
  then show ?thesis
    using True al(2) len(1) range_free_of_cover [of "vmas t" addr "addr + len"] by (auto simp: unmapped_def)
next
  case False
  then have "a0 = mmap_next s" "vmas t = vmas s"
    using res by (auto simp: place_mapping_def Let_def split: if_splits)
  then show ?thesis using False free ok by simp
qed

text \<open>C9: a successful anonymous \<open>mmap\<close> of a range that is free, or that \<open>munmap\<close> has freed, adds
  exactly this range with the requested protection and flags, merged with its neighbours or
  not, and changes no other address; the list stays sorted and disjoint.\<close>

theorem vma_mmap_correct:
  assumes ok: "ranges_ok (vmas s)" and res: "vma_mmap acks self addr len prot flags s = Some (Inr a0, s')"
    and len: "a0 < a0 + page_up len"
    and free: "if flag flags MAP_FIXED then \<exists>t. vma_munmap_locked addr (page_up len) s = Some (0, t)
               else range_free (mmap_next s) (mmap_next s + page_up len) (vmas s)"
  shows "ranges_ok (vmas s') \<and> a0 = (if flag flags MAP_FIXED then addr else mmap_next s)
    \<and> (\<forall>a. cover (vmas s') a = (if a0 \<le> a \<and> a < a0 + page_up len then Some (prot, flags, None) else cover (vmas s) a))"
proof -
  let ?len = "page_up len"
  obtain s1 where s1: "vma_mmap_locked addr len prot flags s = Some (Inr a0, s1)" "vmas s' = vmas s1"
    using res by (auto simp: vma_mmap_def split: bind_splits if_splits)
  then obtain s2 where s2: "place_mapping addr ?len flags s = Some (Inr a0, s2)"
      "vma_insert a0 (a0 + ?len) prot flags s2 = (True, s1)"
    by (auto simp: vma_mmap_locked_def Let_def split: bind_splits if_splits sum.splits prod.splits)
  have placed: "ranges_ok (vmas s2) \<and> range_free a0 (a0 + ?len) (vmas s2) \<and> a0 = (if flag flags MAP_FIXED then addr else mmap_next s)
      \<and> (\<forall>a. \<not> (a0 \<le> a \<and> a < a0 + ?len) \<longrightarrow> cover (vmas s2) a = cover (vmas s) a)"
    by (rule place_mapping_ok [OF ok s2(1) len page_up_aligned free])
  then have "if True then inserted a0 (a0 + ?len) prot flags (vmas s2) (vmas s1) else vmas s1 = vmas s2"
    by (intro vma_insert_ok [OF _ _ len s2(2)]) (elim conjE, assumption)+
  then have "inserted a0 (a0 + ?len) prot flags (vmas s2) (vmas s1)" by (simp only: if_True)
  then show ?thesis using placed s1(2) by (auto simp: inserted_def)
qed

text \<open>A second anonymous page right after the first one; the two merge.\<close>

definition page_space :: space where
  "page_space = blank_space\<lparr>vmas := [\<lparr>vstart = MMAP_BASE, vend = MMAP_BASE + 0x1000, vprot = 3, vflags = 0x22,
     vvn = 0, voff = 0\<rparr>], mmap_next := MMAP_BASE + 0x1000\<rparr>"

theorem vma_mmap_correct_witness:
  "\<exists>s'. vma_mmap {} 0 0 0x1000 3 0x22 page_space = Some (Inr (MMAP_BASE + 0x1000), s') \<and> length (vmas s') = 1
     \<and> cover (vmas s') (MMAP_BASE + 0x1800) = Some (3, 0x22, None)"
proof -
  have r: "map_option (\<lambda>(r, s). (r, length (vmas s))) (vma_mmap {} 0 0 0x1000 3 0x22 page_space)
      = Some (Inr (MMAP_BASE + 0x1000), 1)" by code_simp
  then obtain s' where s': "vma_mmap {} 0 0 0x1000 3 0x22 page_space = Some (Inr (MMAP_BASE + 0x1000), s')" "length (vmas s') = 1"
    by auto
  have ok: "ranges_ok (vmas page_space)" by (simp add: page_space_def)
  have pg: "page_up 0x1000 = 0x1000" by code_simp
  have nf: "\<not> flag 0x22 MAP_FIXED" by code_simp
  have mn: "mmap_next page_space = MMAP_BASE + 0x1000" by (simp add: page_space_def)
  have "range_free (mmap_next page_space) (mmap_next page_space + page_up 0x1000) (vmas page_space)"
    by (simp add: range_free_def page_space_def)
  then show ?thesis
    using vma_mmap_correct [OF ok s'(1)] s' by (simp add: pg nf mn)
qed

section \<open>mprotect\<close>

text \<open>C10: \<open>mprotect\<close> of a range without file mappings keeps the list sorted and disjoint. When it
  returns 0, every mapped address of the range has the new protection and nothing else about
  it changed; when it runs out of memory an address may have either; no address outside the
  range is affected.\<close>

theorem vma_mprotect_correct:
  assumes "ranges_ok (vmas s)" and "anonymous addr (page_up (addr + len)) (vmas s)"
    and "vma_mprotect acks self addr len prot s = Some (rc, s')"
  shows "ranges_ok (vmas s') \<and> (rc = 0 \<or> rc = - ENOMEM \<or> rc = - EINVAL \<and> vmas s' = vmas s)
    \<and> (len \<noteq> 0 \<longrightarrow> rc \<noteq> - EINVAL \<longrightarrow> (\<forall>a. mprotect_at addr (page_up (addr + len)) prot rc (vmas s) (vmas s') a))"
proof -
  let ?stop = "page_up (addr + len)"
  obtain t where t: "vma_mprotect_locked addr len prot s = (rc, t)" "vmas s' = vmas t"
    using assms(3) by (auto simp: vma_mprotect_def split: prod.splits)
  show ?thesis
  proof (cases "unaligned addr \<or> len = 0 \<or> write_exec prot \<or> ?stop \<le> addr")
    case True
    then have "t = s \<and> (rc = - EINVAL \<or> len = 0 \<and> rc = 0)"
      using t(1) unfolding vma_mprotect_locked_def Let_def by (simp split: if_splits)
    then show ?thesis using assms(1) t(2) by (elim conjE disjE) simp_all
  next
    case False
    obtain r vs u where run: "mprotect_list addr ?stop prot (vmas s) s = (r, vs, u)" by (metis prod_cases3)
    then have eq: "r = rc" "vmas t = vs" using t(1) False unfolding vma_mprotect_locked_def Let_def by auto
    have lt: "addr < ?stop" using False by auto
    have "mprotect_result addr ?stop prot (vmas s) rc vs"
      using mprotect_list_ok [OF run assms(1) lt assms(2)] eq(1) by simp
    then show ?thesis using eq(2) t(2) by (auto simp: mprotect_result_def)
  qed
qed

theorem vma_mprotect_correct_witness:
  "\<exists>s'. vma_mprotect {} 0 MMAP_BASE 0x1000 1 page_space = Some (0, s')
     \<and> cover (vmas s') (MMAP_BASE + 0x800) = Some (1, 0x22, None)"
proof -
  have "map_option fst (vma_mprotect {} 0 MMAP_BASE 0x1000 1 page_space) = Some 0" by code_simp
  then obtain s' where s': "vma_mprotect {} 0 MMAP_BASE 0x1000 1 page_space = Some (0, s')" by auto
  have ok: "ranges_ok (vmas page_space)" by (simp add: page_space_def)
  have an: "anonymous MMAP_BASE (page_up (MMAP_BASE + 0x1000)) (vmas page_space)"
    by (simp add: anonymous_def page_space_def flag_def)
  have "mprotect_at MMAP_BASE (page_up (MMAP_BASE + 0x1000)) 1 0 (vmas page_space) (vmas s') (MMAP_BASE + 0x800)"
    using vma_mprotect_correct [OF ok an s'] by simp
  moreover have "page_up (MMAP_BASE + 0x1000) = MMAP_BASE + 0x1000" by code_simp
  moreover have "cover (vmas page_space) (MMAP_BASE + 0x800) = Some (3, 0x22, None)" by code_simp
  ultimately have "cover (vmas s') (MMAP_BASE + 0x800) = Some (1, 0x22, None)"
    unfolding mprotect_at_def by (simp add: reprotect_def)
  with s' show ?thesis by blast
qed

end
