(* ===== verification/Vma_Wx.thy ===== *)
theory Vma_Wx
  imports Vma_Main
begin

text \<open>No mapping of a process is writable and executable at once, whatever sequence of
  operations made it. The page tables do not keep to it: a page that is shared copy-on-write when
  \<open>mprotect\<close> takes the write permission away gets it back at the next write.\<close>

section \<open>Writable or executable\<close>

definition prots :: "vma list \<Rightarrow> u32 set" where
  "prots vs = vprot ` set vs"

lemma prots_simps [simp]: "prots [] = {}" "prots (v # vs) = insert (vprot v) (prots vs)" "prots (vs @ ws) = prots vs \<union> prots ws"
  by (auto simp: prots_def)

























section \<open>Every sequence of operations\<close>











section \<open>Where the page tables fall short\<close>












end
