(* ===== verification/Vma_Checks.thy ===== *)
theory Vma_Checks
  imports Vma_Main
begin

text \<open>Queries on the mappings, the copy made by fork, and the places where the code does not do
  what its comments say.\<close>

section \<open>Range queries\<close>

lemma range_mapped_ok:
  "ranges_ok (vmas s) \<Longrightarrow>
   range_mapped s cursor stop \<longleftrightarrow> (\<forall>a. cursor \<le> a \<and> a < stop \<longrightarrow> vma_find s a \<noteq> None)"
proof (induction s cursor stop rule: range_mapped.induct)
  case (1 s cursor stop)
  show ?case
  proof (cases "cursor < stop")
    case False
    then show ?thesis by (auto simp: range_mapped.simps [of s cursor])
  next
    case lt: True
    show ?thesis
    proof (cases "vma_find s cursor")
      case None
      then show ?thesis using lt by (auto simp: range_mapped.simps [of s cursor])
    next
      case (Some v)
      then have v: "v \<in> set (vmas s)" "inside v cursor" using find_vma_mem by (simp_all add: vma_find_def)
      have found: "vma_find s a \<noteq> None" if "cursor \<le> a" "a < vend v" for a
      proof -
        have "vstart v \<le> cursor" using v(2) by (simp add: inside_def)
        then have "inside v a" using that by (auto simp: inside_def)
        then have "find_vma a (vmas s) = Some v" using v(1) find_vma_iff [OF "1.prems"] by blast
        then show ?thesis by (simp add: vma_find_def)
      qed
      have "range_mapped s cursor stop = range_mapped s (vend v) stop"
        using lt Some by (simp add: range_mapped.simps [of s cursor])
      moreover have "range_mapped s (vend v) stop \<longleftrightarrow> (\<forall>a. vend v \<le> a \<and> a < stop \<longrightarrow> vma_find s a \<noteq> None)"
        using "1.IH" [OF lt Some "1.prems"] .
      moreover have "(\<forall>a. vend v \<le> a \<and> a < stop \<longrightarrow> vma_find s a \<noteq> None)
          \<longleftrightarrow> (\<forall>a. cursor \<le> a \<and> a < stop \<longrightarrow> vma_find s a \<noteq> None)" (is "?l \<longleftrightarrow> ?r")
      proof
        show ?r if ?l
        proof (intro allI impI)
          fix a assume "cursor \<le> a \<and> a < stop"
          then show "vma_find s a \<noteq> None" using that found [of a] by (cases "a < vend v") simp_all
        qed
        have "cursor \<le> vend v" using v(2) by (auto simp: inside_def)
        then show ?l if ?r using that order_trans by blast
      qed
      ultimately show ?thesis by (simp only:)
    qed
  qed
qed

text \<open>\<open>vma_range_mapped\<close> returns and says yes exactly when every single address of the range is
  covered by some mapping; a range that wraps around the address space is refused.\<close>

theorem vma_range_mapped_correct:
  assumes "ranges_ok (vmas s)"
  shows "vma_range_mapped addr len s
    \<longleftrightarrow> len = 0 \<or> addr \<le> addr + len \<and> (\<forall>a. addr \<le> a \<and> a < addr + len \<longrightarrow> cover (vmas s) a \<noteq> None)"
proof -
  have "cover (vmas s) a \<noteq> None \<longleftrightarrow> vma_find s a \<noteq> None" for a by (simp add: cover_def vma_find_def)
  then show ?thesis
    unfolding vma_range_mapped_def Let_def range_mapped_ok [OF assms] by (simp only: if_bool_eq_disj not_less) blast
qed

theorem vma_range_mapped_correct_witness:
  "vma_range_mapped (MMAP_BASE + 0x800) 0x2000 file_space \<and> cover (vmas file_space) (MMAP_BASE + 0x2000) \<noteq> None"
proof -
  have "vma_range_mapped (MMAP_BASE + 0x800) 0x2000 file_space" by code_simp
  with vma_range_mapped_correct [OF file_space_ok, of "MMAP_BASE + 0x800" "0x2000"] show ?thesis by simp
qed

section \<open>The copy for fork\<close>

definition references :: "nat \<Rightarrow> vma list \<Rightarrow> int" where
  "references n vs = int (length (filter (\<lambda>v. file_backed v \<and> vvn v = n) vs))"

lemma copy_list_ok:
  "copy_list vs outs refs = (Some ws, outs', refs') \<Longrightarrow>
   map vstart ws = map vstart vs \<and> map vend ws = map vend vs \<and> map view ws = map view vs
   \<and> refs' = (\<lambda>n. refs n + references n vs)"
proof (induction vs outs refs arbitrary: ws outs' refs' rule: copy_list.induct)
  case (4 v vs b outs refs)
  define c where "c = b\<lparr>vstart := vstart v, vend := vend v, vprot := vprot v, vflags := vflags v,
    vvn := (if file_backed v then vvn v else 0), voff := voff v\<rparr>"
  define r where "r = (if file_backed v then refs(vvn v := refs (vvn v) + 1) else refs)"
  obtain us where us: "copy_list vs outs r = (Some us, outs', refs')" "ws = c # us"
    using "4.prems" by (auto simp: c_def r_def split: prod.splits)
  have "view c = view v" by (auto simp: view_def c_def file_backed_def fun_eq_iff)
  moreover have "r n + references n vs = refs n + references n (v # vs)" for n
    by (simp add: r_def references_def)
  moreover have "map vstart us = map vstart vs \<and> map vend us = map vend vs \<and> map view us = map view vs
     \<and> refs' = (\<lambda>n. r n + references n vs)"
    by (rule "4.IH" [folded r_def, OF us(1)])
  ultimately show ?case using us(2) by (simp add: c_def)
qed (simp_all add: references_def)

lemma cover_step:
  "cover (v # vs) a = (if vstart v \<le> a \<and> a < vend v then Some (view v a) else if a < vstart v then None else cover vs a)"
  by (simp add: cover_def)

lemma cover_same_shape:
  "map vstart ws = map vstart vs \<Longrightarrow> map vend ws = map vend vs \<Longrightarrow> map view ws = map view vs \<Longrightarrow> cover ws a = cover vs a"
proof (induction vs arbitrary: ws)
  case (Cons v vs)
  from Cons.prems(1) obtain w us where ws: "ws = w # us" by (cases ws) simp_all
  then have "vstart w = vstart v" "vend w = vend v" "view w = view v" using Cons.prems by simp_all
  moreover have "cover us a = cover vs a" by (rule Cons.IH) (use Cons.prems ws in simp_all)
  ultimately show ?case unfolding ws cover_step by (simp only:)
qed simp

text \<open>C31: when \<open>vma_copy_all\<close> succeeds the child covers exactly the addresses of the parent, with
  the same protection, flags and places in files, its cursor is the parent's, and each file
  mapping holds a reference of its own; when an allocation fails the child gets no mapping at all.\<close>

theorem vma_copy_all_correct:
  assumes "vma_copy_all next0 s = (ok, child, cursor, s')"
  shows "vmas s' = vmas s \<and> (if ok then (\<forall>a. cover child a = cover (vmas s) a) \<and> cursor = mmap_next s
       \<and> (\<forall>n. vrefs s' n = vrefs s n + references n (vmas s))
     else child = [])"
proof -
  obtain r outs refs where c: "copy_list (vmas s) (outcomes s) (vrefs s) = (r, outs, refs)" by (metis prod_cases3)
  show ?thesis
  proof (cases r)
    case None
    then show ?thesis using assms c by (auto simp: vma_copy_all_def)
  next
    case (Some ws)
    then have "ok" "child = ws" "cursor = mmap_next s" "vrefs s' = refs" "vmas s' = vmas s"
      using assms c by (auto simp: vma_copy_all_def)
    moreover note sh = copy_list_ok [OF c [unfolded Some]]
    ultimately show ?thesis using cover_same_shape [of ws "vmas s"] by simp
  qed
qed

theorem vma_copy_all_correct_witness:
  "\<exists>child cursor s'. vma_copy_all 0 file_space = (True, child, cursor, s')
     \<and> cover child (MMAP_BASE + 0x1000) = Some (1, 0x1002, Some (9, 0x8000)) \<and> vrefs s' 9 = 2"
proof -
  have "fst (vma_copy_all 0 file_space)" by code_simp
  then obtain child cursor s' where c: "vma_copy_all 0 file_space = (True, child, cursor, s')"
    by (metis fst_conv prod_cases4)
  have "cover (vmas file_space) (MMAP_BASE + 0x1000) = Some (1, 0x1002, Some (9, 0x8000))" by code_simp
  moreover have "vrefs file_space 9 + references 9 (vmas file_space) = 2" by code_simp
  ultimately show ?thesis using vma_copy_all_correct [OF c] c by auto
qed

section \<open>Where the code falls short\<close>

definition two_outcomes :: space where
  "two_outcomes = blank_space\<lparr>outcomes := [Some stale_vma, Some stale_vma]\<rparr>"

text \<open>\<open>vma_insert\<close> trusts its caller that the range is free: where it is not, the result is no list of
  disjoint ranges.\<close>

lemma vma_insert_overlap:
  assumes ok: "ranges_ok (vmas s)" and w: "w \<in> set (vmas s)" "vstart w \<le> x" "x < vend w"
    and x: "start \<le> x" "x < stop" and res: "vma_insert start stop prot flags s = (True, s')"
  shows "\<not> ranges_ok (vmas s')"
proof -
  define pre where "pre = takeWhile (\<lambda>v. vend v \<le> start) (vmas s)"
  define post where "post = dropWhile (\<lambda>v. vend v \<le> start) (vmas s)"
  have split: "vmas s = pre @ post" by (simp add: pre_def post_def)
  have "\<not> vend w \<le> start" using w(3) x(1) by simp
  then have "w \<notin> set pre" using set_takeWhileD unfolding pre_def by fastforce
  then have "w \<in> set post" using w(1) split by simp
  then obtain h t where h: "post = h # t" by (cases post) auto
  have "vstart h \<le> vstart w"
    using \<open>w \<in> set post\<close> ok split unfolding h by (auto simp: ranges_ok_append)
  then have lt: "vstart h < stop" using w(2) x(2) by (meson le_less_trans order_trans)
  then have ne: "vstart h \<noteq> stop" by simp
  have bad: "\<not> ranges_ok (vs @ v # post)" if "vend v = stop" for vs v
    using that lt unfolding h by (auto simp: ranges_ok_append)
  note step = res [unfolded vma_insert_def, folded pre_def post_def, unfolded Let_def]
  have "\<exists>vs v. vmas s' = vs @ v # post \<and> vend v = stop"
  proof (cases "pre \<noteq> [] \<and> vend (last pre) = start \<and> can_merge prot flags (last pre)")
    case True
    then have "vmas s' = butlast pre @ (last pre)\<lparr>vend := stop\<rparr> # post" using step ne h by auto
    then show ?thesis by (intro exI [of _ "butlast pre"] exI [of _ "(last pre)\<lparr>vend := stop\<rparr>"]) simp
  next
    case False
    then obtain v where "vmas s' = pre @ v # post" "vend v = stop" using step ne h by (auto split: prod.splits option.splits)
    then show ?thesis by blast
  qed
  then show ?thesis using bad by force
qed

text \<open>C40: the cursor of \<open>mmap\<close> knows nothing of the mappings that \<open>MAP_FIXED\<close> put past it. In any space
  where some mapping reaches into the range after the cursor that a plain \<open>mmap\<close> takes, a successful
  call returns the cursor all the same and leaves mappings that overlap, though the list is documented
  as non-overlapping.\<close>

theorem mmap_cursor_overlaps_fixed:
  assumes "ranges_ok (vmas s)" and "w \<in> set (vmas s)" and "vstart w \<le> x" and "x < vend w"
    and "mmap_next s \<le> x" and "x < mmap_next s + page_up len"
    and "\<not> flag flags MAP_FIXED" and "vma_mmap acks self addr len prot flags s = Some (Inr a, s')"
  shows "a = mmap_next s \<and> \<not> ranges_ok (vmas s')"
proof -
  let ?n = "mmap_next s" and ?l = "page_up len"
  let ?s = "s\<lparr>mmap_next := ?n + ?l\<rparr>"
  have "vma_mmap_locked addr len prot flags s = Some (Inr a, s')"
    using assms(7,8) by (auto simp: vma_mmap_def split: bind_splits if_splits)
  then have a: "a = ?n" and ins: "vma_insert ?n (?n + ?l) prot flags ?s = (True, s')"
    using assms(7) by (auto simp: vma_mmap_locked_def place_mapping_def Let_def split: if_splits prod.splits)
  show ?thesis using a vma_insert_overlap [OF _ _ assms(3-6) ins] assms(1,2) by simp
qed

text \<open>A fixed mapping one page past the cursor, then a plain \<open>mmap\<close> of three pages.\<close>

theorem mmap_cursor_overlaps_fixed_witness:
  "\<exists>s1 s2. vma_mmap {} 0 (MMAP_BASE + 0x1000) 0x1000 3 0x32 two_outcomes = Some (Inr (MMAP_BASE + 0x1000), s1)
     \<and> vma_mmap {} 0 0 0x3000 1 0x22 s1 = Some (Inr MMAP_BASE, s2) \<and> \<not> ranges_ok (vmas s2)"
proof -
  have "do { (r1, s1) \<leftarrow> vma_mmap {} 0 (MMAP_BASE + 0x1000) 0x1000 3 0x32 two_outcomes;
      (r2, s2) \<leftarrow> vma_mmap {} 0 0 0x3000 1 0x22 s1;
      Some (r1, r2, ranges_ok (vmas s1), map (\<lambda>v. (vstart v, vend v)) (vmas s1), mmap_next s1) }
      = Some (Inr (MMAP_BASE + 0x1000), Inr MMAP_BASE, True, [(MMAP_BASE + 0x1000, MMAP_BASE + 0x2000)], MMAP_BASE)"
    by code_simp
  then obtain s1 s2 w where
    s: "vma_mmap {} 0 (MMAP_BASE + 0x1000) 0x1000 3 0x32 two_outcomes = Some (Inr (MMAP_BASE + 0x1000), s1)"
      "vma_mmap {} 0 0 0x3000 1 0x22 s1 = Some (Inr MMAP_BASE, s2)" "ranges_ok (vmas s1)" "vmas s1 = [w]"
      "vstart w = MMAP_BASE + 0x1000" "vend w = MMAP_BASE + 0x2000" "mmap_next s1 = MMAP_BASE"
    by (auto split: bind_splits)
  have "\<not> ranges_ok (vmas s2)"
    using mmap_cursor_overlaps_fixed [OF s(3) _ _ _ _ _ _ s(2), of w "MMAP_BASE + 0x1000"] s(4-7)
    by (simp add: page_up_def flag_def)
  then show ?thesis using s by blast
qed

text \<open>\<open>mmap\<close> with \<open>MAP_FIXED\<close> does not bound the address: a process can register a mapping at the
  base of the kernel's direct map, which a later fault or \<open>munmap\<close> then follows into the
  page tables of the kernel.\<close>

theorem mmap_fixed_accepts_kernel_address:
  "\<exists>s1. vma_mmap {} 0 0xFFFF800000000000 0x1000 3 0x32 two_outcomes = Some (Inr 0xFFFF800000000000, s1)
     \<and> cover (vmas s1) 0xFFFF800000000000 = Some (3, 0x32, None)"
proof -
  have "map_option (\<lambda>(r, s1). (r, cover (vmas s1) 0xFFFF800000000000))
      (vma_mmap {} 0 0xFFFF800000000000 0x1000 3 0x32 two_outcomes)
      = Some (Inr 0xFFFF800000000000, Some (3, 0x32, None))"
    by code_simp
  then show ?thesis by auto
qed

text \<open>\<open>vma_split_at\<close> leaves the file and the offset of the new piece uninitialised. \<open>mprotect\<close> of
  the first page of a file mapping leaves a tail that is a file mapping of whatever vnode
  pointer and offset the heap block held, with no reference taken.\<close>

theorem mprotect_split_garbage:
  "\<exists>s1. vma_mprotect {} 0 MMAP_BASE 0x1000 0 file_space = Some (0, s1)
     \<and> cover (vmas file_space) (MMAP_BASE + 0x1000) = Some (1, 0x1002, Some (9, 0x8000))
     \<and> cover (vmas s1) (MMAP_BASE + 0x1000) = Some (1, 0x1002, Some (77, 0xBAD))
     \<and> vrefs s1 77 = vrefs file_space 77"
proof -
  have "map_option (\<lambda>(rc, s1). (rc, cover (vmas s1) (MMAP_BASE + 0x1000), vrefs s1 77 = vrefs file_space 77))
      (vma_mprotect {} 0 MMAP_BASE 0x1000 0 file_space)
      = Some (0, Some (1, 0x1002, Some (77, 0xBAD)), True)"
    by code_simp
  moreover have "cover (vmas file_space) (MMAP_BASE + 0x1000) = Some (1, 0x1002, Some (9, 0x8000))" by code_simp
  ultimately show ?thesis by auto
qed

text \<open>\<open>mremap\<close> does not check that the old range wraps around: it accepts a range of almost the
  whole address space that starts at the last mapped page.\<close>

theorem mremap_accepts_wrapping_range:
  "vma_mremap MMAP_BASE 0xFFFFFFFFFFFFF000 0x1000 0 page_space = Inr MMAP_BASE
   \<and> cover (vmas page_space) (MMAP_BASE + 0x1000) = None"
  by code_simp

end
