(* ===== verification/Fd_Table.thy ===== *)
theory Fd_Table
  imports Alloc_Spec
begin

text \<open>
  The two-level table of file descriptors, \<open>src/kernel/sched/fd_table.c\<close>: 32 buckets of 512 slots,
  each slot array allocated on first use.

  A bucket is a pair of an optional slot array and the count of slots in use; the table is a
  function from bucket numbers. An object behind a descriptor is named by its operations, its
  private pointer and its vnode. The calls into the rest of the kernel, which take or drop a
  reference on an object, are recorded in the order they are made. The outcomes of the \<open>kmalloc\<close>
  calls to come are part of the state, an empty list standing for memory that is exhausted.
  An operation that works in one section under the lock of a bucket is atomic in the code. The
  operations with more than one section (\<open>fd_table_alloc_from\<close> over several buckets,
  \<open>fd_table_dup2\<close>, \<open>fd_table_dup\<close>, \<open>fd_table_free\<close>) are modelled as running without another
  thread of the process using the same table in between.
\<close>

section \<open>State\<close>

abbreviation (input) FD_TABLE_BUCKETS :: nat where "FD_TABLE_BUCKETS \<equiv> 32"
abbreviation (input) FD_TABLE_SLOTS :: nat where "FD_TABLE_SLOTS \<equiv> 512"
abbreviation (input) FD_TABLE_MAX :: int where "FD_TABLE_MAX \<equiv> 16384"
abbreviation (input) vnode_file_ops :: nat where "vnode_file_ops \<equiv> 1"

record file_descriptor =
  in_use :: bool
  fops :: nat
  fpriv :: nat
  fvn :: nat
  position :: u64
  writable :: int
  readable :: int
  nonblock :: int

record fd_bucket =
  slots :: "(nat \<Rightarrow> file_descriptor) option"
  slot_count :: int

datatype event = File_Dup file_descriptor | File_Close file_descriptor
  | Epoll_Forget int | Flock_Release nat

record fd_table =
  buckets :: "nat \<Rightarrow> fd_bucket"
  outcomes :: "bool list"
  events :: "event list"

definition fd_bucket_of :: "int \<Rightarrow> nat" where
  "fd_bucket_of fd = nat fd div FD_TABLE_SLOTS"

definition fd_slot :: "int \<Rightarrow> nat" where
  "fd_slot fd = nat fd mod FD_TABLE_SLOTS"

definition valid_fd :: "int \<Rightarrow> bool" where
  "valid_fd fd \<longleftrightarrow> \<not> (fd < 0 \<or> FD_TABLE_MAX \<le> fd)"

definition slot_reset :: file_descriptor where
  "slot_reset = \<lparr>in_use = False, fops = vnode_file_ops, fpriv = 0, fvn = 0, position = 0,
     writable = 0, readable = 1, nonblock = 0\<rparr>"

definition slots_clear :: "nat \<Rightarrow> file_descriptor" where
  "slots_clear = (\<lambda>i. slot_reset)"

definition emit :: "event list \<Rightarrow> fd_table \<Rightarrow> fd_table" where
  "emit es t = t\<lparr>events := events t @ es\<rparr>"

definition set_bucket :: "nat \<Rightarrow> fd_bucket \<Rightarrow> fd_table \<Rightarrow> fd_table" where
  "set_bucket b x t = t\<lparr>buckets := (buckets t)(b := x)\<rparr>"

definition bucket_slots :: "nat \<Rightarrow> fd_table \<Rightarrow> (nat \<Rightarrow> file_descriptor) option \<times> fd_table" where
  "bucket_slots b t =
     (case slots (buckets t b) of
        Some sl \<Rightarrow> (Some sl, t)
      | None \<Rightarrow>
          (case outcomes t of
             True # os \<Rightarrow> (Some slots_clear, set_bucket b ((buckets t b)\<lparr>slots := Some slots_clear\<rparr>) (t\<lparr>outcomes := os\<rparr>))
           | False # os \<Rightarrow> (None, t\<lparr>outcomes := os\<rparr>)
           | [] \<Rightarrow> (None, t)))"

definition fd_table_init :: "fd_table \<Rightarrow> fd_table" where
  "fd_table_init t = t\<lparr>buckets := (\<lambda>i. if i < FD_TABLE_BUCKETS then \<lparr>slots = None, slot_count = 0\<rparr> else buckets t i)\<rparr>"

section \<open>Lookup\<close>

definition fd_table_get :: "fd_table \<Rightarrow> int \<Rightarrow> file_descriptor option" where
  "fd_table_get t fd =
     (if \<not> valid_fd fd then None
      else case slots (buckets t (fd_bucket_of fd)) of
          None \<Rightarrow> None
        | Some sl \<Rightarrow> let f = sl (fd_slot fd) in if in_use f then Some f else None)"

section \<open>Allocation\<close>

text \<open>Writes a slot of a bucket and adds to its count.\<close>

definition put_slot :: "nat \<Rightarrow> nat \<Rightarrow> file_descriptor \<Rightarrow> int \<Rightarrow> fd_table \<Rightarrow> fd_table" where
  "put_slot b i f d t = set_bucket b ((buckets t b)\<lparr>
     slots := map_option (\<lambda>sl. sl(i := f)) (slots (buckets t b)),
     slot_count := slot_count (buckets t b) + d\<rparr>) t"

fun scan_slots :: "(nat \<Rightarrow> file_descriptor) \<Rightarrow> nat list \<Rightarrow> nat option" where
  "scan_slots sl [] = None"
| "scan_slots sl (i # is) = (if in_use (sl i) then scan_slots sl is else Some i)"

fun alloc_buckets :: "nat \<Rightarrow> nat list \<Rightarrow> fd_table \<Rightarrow> int \<times> fd_table" where
  "alloc_buckets from [] t = (- EMFILE, t)"
| "alloc_buckets from (b # bs) t =
     (if int FD_TABLE_SLOTS \<le> slot_count (buckets t b) then alloc_buckets from bs t
      else case bucket_slots b t of
          (None, t) \<Rightarrow> (- EMFILE, t)
        | (Some sl, t) \<Rightarrow>
            let first_slot = (if from div FD_TABLE_SLOTS = b then from mod FD_TABLE_SLOTS else 0)
            in case scan_slots sl [first_slot..<FD_TABLE_SLOTS] of
                 None \<Rightarrow> alloc_buckets from bs t
               | Some i \<Rightarrow> (int (b * FD_TABLE_SLOTS + i), put_slot b i (slot_reset\<lparr>in_use := True\<rparr>) 1 t))"

definition fd_table_alloc_from :: "int \<Rightarrow> fd_table \<Rightarrow> int \<times> fd_table" where
  "fd_table_alloc_from from t =
     (let from = nat (if from < 0 then 0 else from)
      in alloc_buckets from [from div FD_TABLE_SLOTS..<FD_TABLE_BUCKETS] t)"

definition fd_table_alloc :: "fd_table \<Rightarrow> int \<times> fd_table" where
  "fd_table_alloc t = fd_table_alloc_from 0 t"

section \<open>Closing and installing\<close>

text \<open>What dropping a descriptor does once its slot is clear; \<open>has_proc\<close> says that there is a
  current process.\<close>

definition drop_events :: "bool \<Rightarrow> int \<Rightarrow> file_descriptor \<Rightarrow> event list" where
  "drop_events has_proc fd f =
     Epoll_Forget fd # (if fvn f \<noteq> 0 \<and> has_proc then [Flock_Release (fvn f)] else []) @ [File_Close f]"

definition fd_table_close :: "bool \<Rightarrow> int \<Rightarrow> fd_table \<Rightarrow> fd_table" where
  "fd_table_close has_proc fd t =
     (if \<not> valid_fd fd then t
      else case slots (buckets t (fd_bucket_of fd)) of
          None \<Rightarrow> t
        | Some sl \<Rightarrow>
            let f = sl (fd_slot fd)
            in if in_use f
               then emit (drop_events has_proc fd f) (put_slot (fd_bucket_of fd) (fd_slot fd) slot_reset (- 1) t)
               else t)"

text \<open>The operations that a device vnode brings with it, \<open>file_bind_vnode_ops\<close>, are a parameter.\<close>

definition fd_table_put :: "(nat \<Rightarrow> nat) \<Rightarrow> int \<Rightarrow> nat \<Rightarrow> int \<Rightarrow> fd_table \<Rightarrow> int \<times> fd_table" where
  "fd_table_put bind_ops fd vn wr t =
     (if \<not> valid_fd fd \<or> vn = 0 then (0, t)
      else case bucket_slots (fd_bucket_of fd) t of
          (None, t) \<Rightarrow> (0, t)
        | (Some sl, t) \<Rightarrow>
            if in_use (sl (fd_slot fd)) then (0, t)
            else (1, put_slot (fd_bucket_of fd) (fd_slot fd)
                       (slot_reset\<lparr>in_use := True, fvn := vn, writable := wr, fops := bind_ops vn\<rparr>) 1 t))"

definition fd_table_dup2 :: "bool \<Rightarrow> int \<Rightarrow> int \<Rightarrow> fd_table \<Rightarrow> int \<times> fd_table" where
  "fd_table_dup2 has_proc oldfd newfd t =
     (if \<not> valid_fd oldfd \<or> \<not> valid_fd newfd then (- EBADF, t)
      else case bucket_slots (fd_bucket_of oldfd) t of
          (None, t) \<Rightarrow> (- EBADF, t)
        | (Some os, t) \<Rightarrow>
            let src = os (fd_slot oldfd) in
            if \<not> in_use src then (- EBADF, t)
            else if oldfd = newfd then (newfd, t)
            else case bucket_slots (fd_bucket_of newfd) t of
                (None, t) \<Rightarrow> (- EMFILE, t)
              | (Some ns, t) \<Rightarrow>
                  let closing = ns (fd_slot newfd);
                      had = in_use closing;
                      t = (if had then put_slot (fd_bucket_of newfd) (fd_slot newfd) slot_reset (- 1) t else t);
                      t = put_slot (fd_bucket_of newfd) (fd_slot newfd) (src\<lparr>in_use := True\<rparr>) 1 t
                  in (newfd, emit (File_Dup src # (if had then drop_events has_proc newfd closing else [])) t))"

section \<open>Whole tables\<close>

definition free_bucket :: "nat \<Rightarrow> fd_table \<Rightarrow> fd_table" where
  "free_bucket b t =
     (let t' = set_bucket b \<lparr>slots = None, slot_count = 0\<rparr> t in
      case slots (buckets t b) of None \<Rightarrow> t'
      | Some sl \<Rightarrow> emit (map File_Close (filter in_use (map sl [0..<FD_TABLE_SLOTS]))) t')"

definition fd_table_free :: "fd_table \<Rightarrow> fd_table" where
  "fd_table_free t = fold free_bucket [0..<FD_TABLE_BUCKETS] t"

text \<open>The copy of one bucket for fork: the child's slots and count, then a reference for each.\<close>

definition dup_bucket :: "fd_table \<Rightarrow> nat \<Rightarrow> fd_table \<Rightarrow> bool \<times> fd_table" where
  "dup_bucket src b dst =
     (case slots (buckets src b) of None \<Rightarrow> (True, dst)
      | Some ss \<Rightarrow>
          (case bucket_slots b dst of
             (None, dst) \<Rightarrow> (False, dst)
           | (Some ds, dst) \<Rightarrow>
               let ds' = (\<lambda>i. if i < FD_TABLE_SLOTS \<and> in_use (ss i) then ss i else ds i);
                   n = int (length (filter (\<lambda>i. in_use (ss i)) [0..<FD_TABLE_SLOTS]));
                   dst = set_bucket b ((buckets dst b)\<lparr>slots := Some ds', slot_count := slot_count (buckets dst b) + n\<rparr>) dst
               in (True, emit (map File_Dup (filter in_use (map ds' [0..<FD_TABLE_SLOTS]))) dst)))"

fun dup_buckets :: "fd_table \<Rightarrow> nat list \<Rightarrow> fd_table \<Rightarrow> bool \<times> fd_table" where
  "dup_buckets src [] dst = (True, dst)"
| "dup_buckets src (b # bs) dst =
     (case dup_bucket src b dst of (ok, dst) \<Rightarrow> if ok then dup_buckets src bs dst else (False, dst))"

definition fd_table_dup :: "fd_table \<Rightarrow> fd_table \<Rightarrow> bool \<times> fd_table" where
  "fd_table_dup src dst = dup_buckets src [0..<FD_TABLE_BUCKETS] dst"

end
