(* ===== verification/Fd_Correct.thy ===== *)
theory Fd_Correct
  imports Fd_Table
begin

text \<open>The descriptor table as a partial function from descriptors, and what the operations do to it.\<close>

section \<open>Invariant and view\<close>

definition used_slots :: "(nat \<Rightarrow> file_descriptor) \<Rightarrow> nat set" where
  "used_slots sl = {i. i < FD_TABLE_SLOTS \<and> in_use (sl i)}"

definition bucket_ok :: "fd_bucket \<Rightarrow> bool" where
  "bucket_ok b \<longleftrightarrow> slot_count b = (case slots b of None \<Rightarrow> 0 | Some sl \<Rightarrow> int (card (used_slots sl)))"

definition table_ok :: "fd_table \<Rightarrow> bool" where
  "table_ok t \<longleftrightarrow> (\<forall>b < FD_TABLE_BUCKETS. bucket_ok (buckets t b))"

lemma used_finite [simp]: "finite (used_slots sl)"
  by (simp add: used_slots_def)

lemma used_update:
  "i < FD_TABLE_SLOTS \<Longrightarrow> used_slots (sl(i := f)) = (if in_use f then insert i (used_slots sl) else used_slots sl - {i})"
  by (auto simp: used_slots_def)

lemma used_full: "512 \<le> card (used_slots sl) \<Longrightarrow> i < FD_TABLE_SLOTS \<Longrightarrow> in_use (sl i)"
proof -
  assume c: "512 \<le> card (used_slots sl)" and i: "i < FD_TABLE_SLOTS"
  have "used_slots sl \<subseteq> {..<512}" by (auto simp: used_slots_def)
  then have "used_slots sl = {..<512}" using c by (intro card_seteq) auto
  then show ?thesis using i by (auto simp: used_slots_def)
qed

text \<open>Descriptor numbers as pairs of bucket and slot.\<close>

lemma fd_split:
  assumes "valid_fd fd"
  shows "fd_bucket_of fd < FD_TABLE_BUCKETS" "fd_slot fd < FD_TABLE_SLOTS"
    "fd = int (fd_bucket_of fd * FD_TABLE_SLOTS + fd_slot fd)"
proof -
  have "0 \<le> fd" "fd < 16384" using assms by (simp_all add: valid_fd_def)
  then show "fd_bucket_of fd < FD_TABLE_BUCKETS" "fd_slot fd < FD_TABLE_SLOTS"
    "fd = int (fd_bucket_of fd * FD_TABLE_SLOTS + fd_slot fd)"
    unfolding fd_bucket_of_def fd_slot_def by (auto simp: less_mult_imp_div_less nat_less_iff)
qed

lemma fd_join:
  assumes "b < FD_TABLE_BUCKETS" and "i < FD_TABLE_SLOTS"
  shows "valid_fd (int (b * FD_TABLE_SLOTS + i))" "fd_bucket_of (int (b * FD_TABLE_SLOTS + i)) = b"
    "fd_slot (int (b * FD_TABLE_SLOTS + i)) = i"
  using assms unfolding valid_fd_def fd_bucket_of_def fd_slot_def nat_int by auto

lemma get_at:
  "b < FD_TABLE_BUCKETS \<Longrightarrow> i < FD_TABLE_SLOTS \<Longrightarrow> fd_table_get t (int (b * FD_TABLE_SLOTS + i))
   = (case slots (buckets t b) of None \<Rightarrow> None | Some sl \<Rightarrow> if in_use (sl i) then Some (sl i) else None)"
  unfolding fd_table_get_def by (simp add: fd_join del: of_nat_add of_nat_mult split: option.split)

lemma get_cong: "buckets t' = buckets t \<Longrightarrow> fd_table_get t' = fd_table_get t"
  by (simp add: fd_table_get_def fun_eq_iff)

lemma emit_simps [simp]:
  "buckets (emit es t) = buckets t" "fd_table_get (emit es t) = fd_table_get t" "table_ok (emit es t) = table_ok t"
  "events (emit es t) = events t @ es"
  by (simp_all add: emit_def fd_table_get_def fun_eq_iff table_ok_def)

lemma bucket_slots_ok:
  assumes "table_ok t" and "b < FD_TABLE_BUCKETS" and "bucket_slots b t = (r, t')"
  shows "fd_table_get t' = fd_table_get t \<and> table_ok t' \<and> events t' = events t
    \<and> (case r of None \<Rightarrow> slots (buckets t b) = None | Some sl \<Rightarrow> slots (buckets t' b) = Some sl)
    \<and> (slots (buckets t b) \<noteq> None \<longrightarrow> t' = t) \<and> (\<forall>c. slots (buckets t c) \<noteq> None \<longrightarrow> slots (buckets t' c) \<noteq> None)"
proof (cases "slots (buckets t b)")
  case (Some sl)
  then have "r = Some sl" "t' = t" using assms(3) by (simp_all add: bucket_slots_def)
  then show ?thesis using assms(1) Some by simp
next
  case None
  have "used_slots slots_clear = {}" by (simp add: used_slots_def slots_clear_def slot_reset_def)
  moreover have "slot_count (buckets t b) = 0" using assms(1,2) None by (simp add: table_ok_def bucket_ok_def)
  ultimately show ?thesis
    using assms None
    by (auto simp: bucket_slots_def fd_table_get_def fun_eq_iff table_ok_def bucket_ok_def set_bucket_def slots_clear_def
        slot_reset_def split: list.splits bool.splits)
qed

lemma put_slot_get:
  assumes "slots (buckets t b) = Some sl" and "b < FD_TABLE_BUCKETS" and "i < FD_TABLE_SLOTS"
  shows "fd_table_get (put_slot b i f d t) fd
    = (if fd = int (b * FD_TABLE_SLOTS + i) then if in_use f then Some f else None else fd_table_get t fd)"
proof (cases "valid_fd fd")
  case False
  then show ?thesis using fd_join(1) [OF assms(2,3)] by (auto simp: fd_table_get_def)
next
  case True
  note sp = fd_split [OF True]
  define c j where "c = fd_bucket_of fd" "j = fd_slot fd"
  then have fd: "fd = int (c * FD_TABLE_SLOTS + j)" "c < FD_TABLE_BUCKETS" "j < FD_TABLE_SLOTS" using sp by simp_all
  have "fd = int (b * FD_TABLE_SLOTS + i) \<longleftrightarrow> c = b \<and> j = i"
    using fd fd_join(2,3) [OF assms(2,3)] fd_join(2,3) [OF fd(2,3)] by metis
  then show ?thesis
    using assms(1) unfolding fd(1) get_at [OF fd(2,3)] by (auto simp: put_slot_def set_bucket_def)
qed

lemma put_slot_ok:
  assumes "table_ok t" and "slots (buckets t b) = Some sl" and "b < FD_TABLE_BUCKETS" and "i < FD_TABLE_SLOTS"
    and "d = of_bool (in_use f) - of_bool (in_use (sl i))"
  shows "table_ok (put_slot b i f d t)"
proof -
  have "slot_count (buckets t b) = int (card (used_slots sl))"
    using assms(1-3) by (simp add: table_ok_def bucket_ok_def)
  moreover have "in_use (sl i) \<Longrightarrow> i \<in> used_slots sl \<and> 0 < card (used_slots sl)"
    using assms(4) card_gt_0_iff by (fastforce simp: used_slots_def)
  moreover have "\<not> in_use (sl i) \<Longrightarrow> i \<notin> used_slots sl" by (simp add: used_slots_def)
  ultimately show ?thesis
    using assms by (auto simp: table_ok_def bucket_ok_def put_slot_def set_bucket_def used_update insert_absorb of_nat_diff)
qed

lemma put_slot_fields [simp]:
  "events (put_slot b i f d t) = events t"
  "slots (buckets (put_slot b i f d t) c) = (if c = b then map_option (\<lambda>sl. sl(i := f)) (slots (buckets t b)) else slots (buckets t c))"
  by (simp_all add: put_slot_def set_bucket_def)

section \<open>The lowest free descriptor\<close>

lemma scan_slots_none: "scan_slots sl xs = None \<longleftrightarrow> (\<forall>i \<in> set xs. in_use (sl i))"
  by (induction xs) auto

lemma scan_slots_some:
  "scan_slots sl [a..<n] = Some i \<Longrightarrow> a \<le> i \<and> i < n \<and> \<not> in_use (sl i) \<and> (\<forall>j. a \<le> j \<and> j < i \<longrightarrow> in_use (sl j))"
proof (induction "n - a" arbitrary: a)
  case (Suc d)
  then have "[a..<n] = a # [Suc a..<n]" by (simp add: upt_rec)
  note eq = this
  show ?case
  proof (cases "in_use (sl a)")
    case True
    then have "Suc a \<le> i \<and> i < n \<and> \<not> in_use (sl i) \<and> (\<forall>j. Suc a \<le> j \<and> j < i \<longrightarrow> in_use (sl j))"
      using Suc.prems Suc.hyps(2) eq by (intro Suc.hyps(1)) simp_all
    moreover have "in_use (sl j)" if "a \<le> j" "j < i" for j
      using True calculation that by (cases "j = a") simp_all
    ultimately show ?thesis by simp
  next
    case False
    then have "i = a" using Suc.prems eq by simp
    moreover have "a < n" using Suc.hyps(2) by simp
    ultimately show ?thesis using False by auto
  qed
qed simp

text \<open>The first descriptor the scan of bucket \<open>k\<close> considers.\<close>

definition scan_from :: "nat \<Rightarrow> nat \<Rightarrow> nat" where
  "scan_from from k = max from (k * FD_TABLE_SLOTS)"

definition first_slot :: "nat \<Rightarrow> nat \<Rightarrow> nat" where
  "first_slot from k = (if from div FD_TABLE_SLOTS = k then from mod FD_TABLE_SLOTS else 0)"

lemma scan_from_slot:
  assumes "from div FD_TABLE_SLOTS \<le> k"
  shows "scan_from from k = k * FD_TABLE_SLOTS + first_slot from k" "first_slot from k < FD_TABLE_SLOTS"
    "scan_from from (Suc k) = Suc k * FD_TABLE_SLOTS"
  using assms div_mult_mod_eq [of "from" 512] by (auto simp: scan_from_def first_slot_def)

text \<open>The lowest descriptor from \<open>m\<close> on that is not open, and the condition under which its slot
  cannot be had: its bucket has no slot array yet and the allocation of one fails.\<close>

definition lowest_free :: "int \<Rightarrow> fd_table \<Rightarrow> int \<Rightarrow> bool" where
  "lowest_free m t fd \<longleftrightarrow> m \<le> fd \<and> fd < FD_TABLE_MAX \<and> fd_table_get t fd = None
     \<and> (\<forall>x. m \<le> x \<and> x < fd \<longrightarrow> fd_table_get t x \<noteq> None)"

definition no_slots :: "fd_table \<Rightarrow> int \<Rightarrow> bool" where
  "no_slots t fd \<longleftrightarrow> slots (buckets t (fd_bucket_of fd)) = None \<and> (outcomes t = [] \<or> \<not> hd (outcomes t))"

definition alloc_result :: "int \<Rightarrow> fd_table \<Rightarrow> int \<Rightarrow> fd_table \<Rightarrow> bool" where
  "alloc_result m t r t' \<longleftrightarrow> table_ok t' \<and> events t' = events t
     \<and> (if 0 \<le> r
        then lowest_free m t r \<and> \<not> no_slots t r \<and> fd_table_get t' = (fd_table_get t)(r \<mapsto> slot_reset\<lparr>in_use := True\<rparr>)
        else r = - EMFILE \<and> fd_table_get t' = fd_table_get t
          \<and> ((\<forall>fd. m \<le> fd \<and> fd < FD_TABLE_MAX \<longrightarrow> fd_table_get t fd \<noteq> None)
             \<or> (\<exists>fd. lowest_free m t fd \<and> no_slots t fd)))"

lemma lowest_free_earlier:
  assumes "\<forall>x. m \<le> x \<and> x < n \<longrightarrow> fd_table_get t x \<noteq> None" and "m \<le> n" and "lowest_free n t fd"
  shows "lowest_free m t fd"
  using assms unfolding lowest_free_def by (meson linorder_not_less order_trans)

text \<open>A bucket with nothing free from its first candidate on sends the search to the next bucket.\<close>

lemma alloc_result_next:
  assumes le: "from div FD_TABLE_SLOTS \<le> k"
    and full: "\<forall>j. first_slot from k \<le> j \<and> j < FD_TABLE_SLOTS \<longrightarrow> fd_table_get t (int (k * FD_TABLE_SLOTS + j)) \<noteq> None"
    and r: "alloc_result (int (scan_from from (Suc k))) t r t'"
  shows "alloc_result (int (scan_from from k)) t r t'"
proof -
  define m n where "m = int (scan_from from k)" and "n = int (scan_from from (Suc k))"
  have gap: "\<forall>fd. m \<le> fd \<and> fd < n \<longrightarrow> fd_table_get t fd \<noteq> None"
  proof (intro allI impI)
    fix fd assume "m \<le> fd \<and> fd < n"
    then have fd: "m \<le> fd" "fd < n" by simp_all
    define j where "j = nat fd - k * FD_TABLE_SLOTS"
    have "fd = int (k * FD_TABLE_SLOTS + j)" "first_slot from k \<le> j" "j < FD_TABLE_SLOTS"
      using fd scan_from_slot [OF le] by (simp_all add: j_def m_def n_def)
    then show "fd_table_get t fd \<noteq> None" using full by blast
  qed
  have mn: "m \<le> n" using scan_from_slot [OF le] by (simp add: m_def n_def)
  have low: "lowest_free m t fd" if "lowest_free n t fd" for fd using lowest_free_earlier [OF gap mn that] .
  have all: "\<forall>fd. m \<le> fd \<and> fd < FD_TABLE_MAX \<longrightarrow> fd_table_get t fd \<noteq> None"
    if "\<forall>fd. n \<le> fd \<and> fd < FD_TABLE_MAX \<longrightarrow> fd_table_get t fd \<noteq> None"
    using that gap by (meson linorder_not_less)
  have "alloc_result n t r t'" using r by (simp add: n_def)
  then have "alloc_result m t r t'" unfolding alloc_result_def using low all by (auto split: if_splits simp del: fun_upd_apply)
  then show ?thesis by (simp add: m_def)
qed

text \<open>The search in the bucket it ends in: the array is there or has just been allocated, and slot
  \<open>i\<close> is the first free one.\<close>

lemma alloc_result_here:
  assumes ok: "table_ok t" and k: "from div FD_TABLE_SLOTS \<le> k" "k < FD_TABLE_BUCKETS"
    and x: "bucket_slots k t = (Some sl, u)" and i: "scan_slots sl [first_slot from k..<FD_TABLE_SLOTS] = Some i"
  shows "alloc_result (int (scan_from from k)) t (int (k * FD_TABLE_SLOTS + i)) (put_slot k i (slot_reset\<lparr>in_use := True\<rparr>) 1 u)"
proof -
  define r t' where "r = int (k * FD_TABLE_SLOTS + i)" and "t' = put_slot k i (slot_reset\<lparr>in_use := True\<rparr>) 1 u"
  note b = bucket_slots_ok [OF ok k(2) x] and sc = scan_slots_some [OF i]
  have sl: "slots (buckets u k) = Some sl" using b by simp
  have free: "fd_table_get u r = None" using sc sl get_at [OF k(2), of i] unfolding r_def by simp
  have get: "fd_table_get t' = (fd_table_get u)(r \<mapsto> slot_reset\<lparr>in_use := True\<rparr>)"
    using put_slot_get [OF sl k(2), of i] sc unfolding r_def t'_def fun_eq_iff by simp
  have ok': "table_ok t'"
    unfolding t'_def by (rule put_slot_ok [OF _ sl k(2)]) (use b sc in simp_all)
  have low: "fd_table_get u fd \<noteq> None" if "int (scan_from from k) \<le> fd" "fd < r" for fd
  proof -
    define j where "j = nat fd - k * FD_TABLE_SLOTS"
    have j: "fd = int (k * FD_TABLE_SLOTS + j)" "first_slot from k \<le> j" "j < i"
      using that scan_from_slot [OF k(1)] unfolding r_def by (simp_all add: j_def)
    then show ?thesis using sc sl get_at [OF k(2), of j] by simp
  qed
  have "fd_bucket_of r = k" unfolding r_def using fd_join(2) [OF k(2)] sc by blast
  then have avail: "\<not> no_slots t r" using x by (auto simp: no_slots_def bucket_slots_def split: option.splits list.splits bool.splits)
  have "int (scan_from from k) \<le> r" "r < FD_TABLE_MAX" "0 \<le> r"
    using sc scan_from_slot(1) [OF k(1)] k(2) unfolding r_def by simp_all
  then have "alloc_result (int (scan_from from k)) t r t'"
    using free get ok' low b avail unfolding alloc_result_def lowest_free_def by (simp add: t'_def)
  then show ?thesis by (simp only: r_def t'_def)
qed

text \<open>The search where the array cannot be allocated: nothing in the bucket is open.\<close>

lemma alloc_result_refused:
  assumes ok: "table_ok t" and k: "from div FD_TABLE_SLOTS \<le> k" "k < FD_TABLE_BUCKETS"
    and x: "bucket_slots k t = (None, u)"
  shows "alloc_result (int (scan_from from k)) t (- EMFILE) u"
proof -
  note b = bucket_slots_ok [OF ok k(2) x]
  define j where "j = first_slot from k"
  have j: "j < FD_TABLE_SLOTS" "scan_from from k = k * FD_TABLE_SLOTS + j" using scan_from_slot [OF k(1)] by (simp_all add: j_def)
  have "fd_table_get t (int (scan_from from k)) = None" using b get_at [OF k(2) j(1), of t] unfolding j(2) by simp
  moreover have "int (scan_from from k) < FD_TABLE_MAX" using j k(2) by simp
  ultimately have "lowest_free (int (scan_from from k)) t (int (scan_from from k))" by (auto simp: lowest_free_def)
  moreover have "no_slots t (int (scan_from from k))"
    using x fd_join(2) [OF k(2) j(1)] unfolding no_slots_def j(2)
    by (auto simp: bucket_slots_def split: list.splits bool.splits option.splits)
  ultimately show ?thesis using b unfolding alloc_result_def by auto
qed

lemma alloc_buckets_ok:
  "table_ok t \<Longrightarrow> from div FD_TABLE_SLOTS \<le> k \<Longrightarrow>
   alloc_buckets from [k..<FD_TABLE_BUCKETS] t = (r, t') \<Longrightarrow> alloc_result (int (scan_from from k)) t r t'"
proof (induction "FD_TABLE_BUCKETS - k" arbitrary: k)
  case 0
  then have "FD_TABLE_MAX \<le> int (scan_from from k)" by (simp add: scan_from_def le_max_iff_disj)
  then show ?case using 0 by (auto simp: alloc_result_def)
next
  case (Suc d)
  then have k: "k < FD_TABLE_BUCKETS" "[k..<FD_TABLE_BUCKETS] = k # [Suc k..<FD_TABLE_BUCKETS]" by (simp_all add: upt_rec)
  note step = Suc.prems(3) [unfolded k(2)]
  have IH: "alloc_result (int (scan_from from (Suc k))) t r t'" if "alloc_buckets from [Suc k..<FD_TABLE_BUCKETS] t = (r, t')"
    using Suc.hyps(1) [of "Suc k"] Suc.hyps(2) Suc.prems(1,2) that k(1) by simp
  show ?case
  proof (cases "int FD_TABLE_SLOTS \<le> slot_count (buckets t k)")
    case True
    then obtain sl where sl: "slots (buckets t k) = Some sl" "512 \<le> card (used_slots sl)"
      using Suc.prems(1) k(1) by (auto simp: table_ok_def bucket_ok_def split: option.splits)
    have "\<forall>j. first_slot from k \<le> j \<and> j < FD_TABLE_SLOTS \<longrightarrow> fd_table_get t (int (k * FD_TABLE_SLOTS + j)) \<noteq> None"
      using used_full [OF sl(2)] sl(1) get_at [OF k(1)] by (auto simp del: of_nat_add of_nat_mult)
    then show ?thesis using True step IH alloc_result_next [OF Suc.prems(2)] by simp
  next
    case notfull: False
    obtain x u where x: "bucket_slots k t = (x, u)" by fastforce
    show ?thesis
    proof (cases x)
      case None
      then show ?thesis using step notfull x alloc_result_refused [OF Suc.prems(1,2) k(1)] by auto
    next
      case (Some sl)
      show ?thesis
      proof (cases "scan_slots sl [first_slot from k..<FD_TABLE_SLOTS]")
        case None
        have "\<not> in_use (slots_clear j)" for j by (simp add: slots_clear_def slot_reset_def)
        then have "sl \<noteq> slots_clear" using None scan_from_slot(2) [OF Suc.prems(2)] by (fastforce simp: scan_slots_none)
        then have u: "u = t" "slots (buckets t k) = Some sl"
          using x Some by (auto simp: bucket_slots_def split: option.splits list.splits bool.splits)
        then have "\<forall>j. first_slot from k \<le> j \<and> j < FD_TABLE_SLOTS \<longrightarrow> fd_table_get t (int (k * FD_TABLE_SLOTS + j)) \<noteq> None"
          using None get_at [OF k(1)] by (auto simp: scan_slots_none simp del: of_nat_add of_nat_mult)
        moreover have "alloc_buckets from [Suc k..<FD_TABLE_BUCKETS] t = (r, t')"
          using step notfull x Some None u(1) by (simp add: first_slot_def)
        ultimately show ?thesis using alloc_result_next [OF Suc.prems(2)] IH by simp
      next
        case i: (Some i)
        then have "r = int (k * FD_TABLE_SLOTS + i)" "t' = put_slot k i (slot_reset\<lparr>in_use := True\<rparr>) 1 u"
          using step notfull x Some by (auto simp: first_slot_def)
        then show ?thesis using alloc_result_here [OF Suc.prems(1,2) k(1) x [unfolded Some] i] by simp
      qed
    qed
  qed
qed

text \<open>C32: \<open>fd_table_alloc_from\<close> returns the lowest descriptor that is not below the floor and not
  open, marks exactly this one open and leaves every other descriptor alone. It fails, with
  \<open>EMFILE\<close> and no descriptor changed, in exactly two cases: every descriptor from the floor on is
  open, or the lowest one that is not lies in a bucket without a slot array and the allocation
  of the array fails. The counts of the buckets stay exact.\<close>

theorem fd_alloc_lowest:
  assumes "table_ok t" and "fd_table_alloc_from from t = (r, t')"
  shows "table_ok t' \<and>
    (if 0 \<le> r
     then lowest_free (max 0 from) t r \<and> \<not> no_slots t r
        \<and> fd_table_get t' = (fd_table_get t)(r \<mapsto> slot_reset\<lparr>in_use := True\<rparr>)
     else r = - EMFILE \<and> fd_table_get t' = fd_table_get t
        \<and> ((\<forall>fd. max 0 from \<le> fd \<and> fd < FD_TABLE_MAX \<longrightarrow> fd_table_get t fd \<noteq> None)
           \<or> (\<exists>fd. lowest_free (max 0 from) t fd \<and> no_slots t fd)))"
proof -
  define n where "n = nat (if from < 0 then 0 else from)"
  have n: "int n = max 0 from" by (simp add: n_def)
  have "alloc_buckets n [n div FD_TABLE_SLOTS..<FD_TABLE_BUCKETS] t = (r, t')"
    using assms(2) by (simp only: fd_table_alloc_from_def Let_def n_def)
  then have "alloc_result (int (scan_from n (n div FD_TABLE_SLOTS))) t r t'" by (intro alloc_buckets_ok [OF assms(1)]) simp_all
  moreover have "int (scan_from n (n div FD_TABLE_SLOTS)) = max 0 from" unfolding n [symmetric] by (simp add: scan_from_def)
  ultimately have "alloc_result (max 0 from) t r t'" by (simp only:)
  then show ?thesis unfolding alloc_result_def by blast
qed

definition empty_table :: fd_table where
  "empty_table = fd_table_init \<lparr>buckets = (\<lambda>_. \<lparr>slots = None, slot_count = 0\<rparr>), outcomes = [True, True], events = []\<rparr>"

lemma empty_table_ok: "table_ok empty_table"
  by (simp add: empty_table_def table_ok_def fd_table_init_def bucket_ok_def)

theorem fd_alloc_lowest_witness:
  "fst (fd_table_alloc_from 7 empty_table) = 7 \<and> fd_table_get (snd (fd_table_alloc_from 7 empty_table)) 7 \<noteq> None"
proof -
  have r: "fst (fd_table_alloc_from 7 empty_table) = 7" by code_simp
  then have "fd_table_alloc_from 7 empty_table = (7, snd (fd_table_alloc_from 7 empty_table))" by (metis prod.collapse)
  from fd_alloc_lowest [OF empty_table_ok this] r show ?thesis by simp
qed

section \<open>Closing\<close>

lemma fd_close_ok:
  assumes "table_ok t"
  shows "table_ok (fd_table_close p fd t) \<and> fd_table_get (fd_table_close p fd t) = (fd_table_get t)(fd := None)
    \<and> events (fd_table_close p fd t) = events t @ (case fd_table_get t fd of None \<Rightarrow> [] | Some f \<Rightarrow> drop_events p fd f)"
proof (cases "fd_table_get t fd")
  case None
  then have "fd_table_close p fd t = t"
    by (auto simp: fd_table_close_def fd_table_get_def Let_def split: option.splits if_splits)
  then show ?thesis using assms None by (auto simp: fun_eq_iff)
next
  case (Some f)
  then have v: "valid_fd fd" by (auto simp: fd_table_get_def split: if_splits)
  obtain sl where sl: "slots (buckets t (fd_bucket_of fd)) = Some sl" "sl (fd_slot fd) = f" "in_use f"
    using Some v by (auto simp: fd_table_get_def Let_def split: option.splits if_splits)
  note sp = fd_split [OF v]
  have "fd_table_close p fd t = emit (drop_events p fd f) (put_slot (fd_bucket_of fd) (fd_slot fd) slot_reset (- 1) t)"
    using v sl by (simp add: fd_table_close_def)
  moreover have "table_ok (put_slot (fd_bucket_of fd) (fd_slot fd) slot_reset (- 1) t)"
    by (rule put_slot_ok [OF assms sl(1) sp(1,2)]) (simp add: sl slot_reset_def)
  moreover have "fd_table_get (put_slot (fd_bucket_of fd) (fd_slot fd) slot_reset (- 1) t) = (fd_table_get t)(fd := None)"
    using put_slot_get [OF sl(1) sp(1,2), folded sp(3)] by (auto simp: fun_eq_iff slot_reset_def)
  ultimately show ?thesis using Some by simp
qed

section \<open>Holders of descriptors\<close>

definition open_fds :: "fd_table \<Rightarrow> int set" where
  "open_fds t = {fd. fd_table_get t fd \<noteq> None}"

definition fd_take :: "fd_table \<Rightarrow> (int \<times> fd_table) option" where
  "fd_take t = (case fd_table_alloc t of (r, t') \<Rightarrow> if r < 0 then None else Some (r, t'))"

lemma fd_take_gives:
  assumes "table_ok t" and "fd_take t = Some (r, t')"
  shows "table_ok t' \<and> fd_table_get t r = None \<and> fd_table_get t' = (fd_table_get t)(r \<mapsto> slot_reset\<lparr>in_use := True\<rparr>)"
proof -
  have r: "fd_table_alloc_from 0 t = (r, t')" "0 \<le> r"
    using assms(2) by (auto simp: fd_take_def fd_table_alloc_def split: prod.splits if_splits)
  have "alloc_result (int (scan_from 0 0)) t r t'"
    using r(1) by (intro alloc_buckets_ok [OF assms(1)]) (simp_all add: fd_table_alloc_from_def)
  then show ?thesis using r(2) by (auto simp: alloc_result_def lowest_free_def scan_from_def simp del: fun_upd_apply split: if_splits)
qed

interpretation fds: id_allocator table_ok open_fds fd_take "fd_table_close True"
proof
  fix t r t' assume ok: "table_ok t" and a: "fd_take t = Some (r, t')"
  note g = fd_take_gives [OF ok a]
  show "table_ok t'" using g by simp
  show "r \<notin> open_fds t" using g by (simp add: open_fds_def)
  show "open_fds t' = insert r (open_fds t)" using g by (auto simp: open_fds_def)
next
  fix t fd assume ok: "table_ok t" and "fd \<in> open_fds t"
  then show "table_ok (fd_table_close True fd t)" "open_fds (fd_table_close True fd t) = open_fds t - {fd}"
    using fd_close_ok [OF ok, of True fd] by (auto simp: open_fds_def)
qed

section \<open>Duplicating\<close>

text \<open>Clearing a slot that is in use and filling it again.\<close>

lemma dup2_install:
  assumes ok: "table_ok w" and ns: "fd_bucket_of fd < FD_TABLE_BUCKETS" "fd_slot fd < FD_TABLE_SLOTS"
      "fd = int (fd_bucket_of fd * FD_TABLE_SLOTS + fd_slot fd)"
    and sl: "slots (buckets w (fd_bucket_of fd)) = Some nsl" and f: "in_use f"
  defines "w1 \<equiv> (if in_use (nsl (fd_slot fd)) then put_slot (fd_bucket_of fd) (fd_slot fd) slot_reset (- 1) w else w)"
  shows "table_ok (put_slot (fd_bucket_of fd) (fd_slot fd) f 1 w1)
    \<and> fd_table_get (put_slot (fd_bucket_of fd) (fd_slot fd) f 1 w1) = (fd_table_get w)(fd \<mapsto> f)
    \<and> events (put_slot (fd_bucket_of fd) (fd_slot fd) f 1 w1) = events w
    \<and> fd_table_get w fd = (if in_use (nsl (fd_slot fd)) then Some (nsl (fd_slot fd)) else None)"
proof -
  let ?b = "fd_bucket_of fd" and ?i = "fd_slot fd"
  define msl where "msl = (if in_use (nsl ?i) then nsl(?i := slot_reset) else nsl)"
  have sl1: "slots (buckets w1 ?b) = Some msl" using sl by (simp add: w1_def msl_def)
  have ok1: "table_ok w1"
    using ok put_slot_ok [OF ok sl ns(1,2), of "- 1" slot_reset] by (simp add: w1_def slot_reset_def)
  have free: "\<not> in_use (msl ?i)" by (simp add: msl_def slot_reset_def)
  have g1: "fd_table_get w1 x = (if x = fd then None else fd_table_get w x)" if "x \<noteq> fd \<or> in_use (nsl ?i)" for x
    using put_slot_get [OF sl ns(1,2), folded ns(3), of slot_reset "- 1" x] that by (auto simp: w1_def slot_reset_def)
  have "table_ok (put_slot ?b ?i f 1 w1)" by (rule put_slot_ok [OF ok1 sl1 ns(1,2)]) (simp add: f free)
  moreover have "fd_table_get (put_slot ?b ?i f 1 w1) x = ((fd_table_get w)(fd \<mapsto> f)) x" for x
    using put_slot_get [OF sl1 ns(1,2), folded ns(3), of f 1 x] g1 f by (cases "x = fd") auto
  moreover have "fd_table_get w fd = (if in_use (nsl ?i) then Some (nsl ?i) else None)"
    using get_at [OF ns(1,2), folded ns(3), of w] sl by simp
  ultimately show ?thesis by (simp add: w1_def fun_eq_iff)
qed

text \<open>C33: \<open>dup2\<close> makes the new descriptor name the object of the old one and touches no other
  descriptor. It takes one reference on the object and then drops, with epoll and lock state,
  exactly what the new descriptor held before; duplicating a descriptor onto itself does
  nothing. On failure no descriptor changes and no reference is taken or dropped.\<close>

theorem fd_dup2_correct:
  assumes "table_ok t" and "fd_table_dup2 p oldfd newfd t = (r, t')"
  shows "table_ok t' \<and>
    (if 0 \<le> r
     then \<exists>f. fd_table_get t oldfd = Some f \<and> r = newfd \<and> fd_table_get t' = (fd_table_get t)(newfd \<mapsto> f)
        \<and> events t' = events t @ (if oldfd = newfd then []
             else File_Dup f # (case fd_table_get t newfd of None \<Rightarrow> [] | Some g \<Rightarrow> drop_events p newfd g))
     else fd_table_get t' = fd_table_get t \<and> events t' = events t)"
proof (cases "valid_fd oldfd \<and> valid_fd newfd")
  case False
  then show ?thesis using assms by (auto simp: fd_table_dup2_def)
next
  case True
  note os = fd_split [OF conjunct1 [OF True]] and ns = fd_split [OF conjunct2 [OF True]]
  obtain x u where x: "bucket_slots (fd_bucket_of oldfd) t = (x, u)" by fastforce
  note bu = bucket_slots_ok [OF assms(1) os(1) x]
  obtain y w where y: "bucket_slots (fd_bucket_of newfd) u = (y, w)" by fastforce
  note bw = bucket_slots_ok [OF _ ns(1) y]
  note step = assms(2) [unfolded fd_table_dup2_def, simplified True x]
  have key: "fd_table_get t oldfd = (case x of None \<Rightarrow> None
      | Some sl \<Rightarrow> if in_use (sl (fd_slot oldfd)) then Some (sl (fd_slot oldfd)) else None)"
    using bu get_at [OF os(1,2), folded os(3), of u] get_at [OF os(1,2), folded os(3), of t] by (cases x) simp_all
  show ?thesis
  proof (cases "fd_table_get t oldfd")
    case None
    then have "r = - EBADF \<and> t' = u" using step key by (cases x) (simp_all split: if_splits)
    then show ?thesis using bu by simp
  next
    case (Some f)
    then obtain sl where sl: "x = Some sl" "sl (fd_slot oldfd) = f" "in_use f"
      using key by (cases x) (simp_all split: if_splits)
    show ?thesis
    proof (cases "oldfd = newfd")
      case True
      then have "r = newfd" "t' = u" using step sl by simp_all
      moreover have "0 \<le> newfd" using \<open>valid_fd oldfd \<and> valid_fd newfd\<close> by (simp add: valid_fd_def)
      ultimately show ?thesis using True bu Some by (auto simp: fun_eq_iff)
    next
      case ne: False
      show ?thesis
      proof (cases y)
        case None
        then have "r = - EMFILE" "t' = w" using step sl ne y by simp_all
        then show ?thesis using bu bw by simp
      next
        case (Some nsl)
        have w: "table_ok w" "slots (buckets w (fd_bucket_of newfd)) = Some nsl" "fd_table_get w = fd_table_get t"
            "events w = events t" using bu bw Some by simp_all
        have "0 \<le> newfd" using True by (simp add: valid_fd_def)
        moreover have fid: "f\<lparr>in_use := True\<rparr> = f" using sl(3) by simp
        define w1 where "w1 = (if in_use (nsl (fd_slot newfd))
          then put_slot (fd_bucket_of newfd) (fd_slot newfd) slot_reset (- 1) w else w)"
        have "r = newfd" "t' = emit (File_Dup f # (if in_use (nsl (fd_slot newfd)) then drop_events p newfd (nsl (fd_slot newfd)) else []))
            (put_slot (fd_bucket_of newfd) (fd_slot newfd) f 1 w1)"
          using step ne y unfolding sl(1) Some w1_def by (auto simp: sl(2,3) fid Let_def)
        moreover note dup2_install [OF w(1) ns w(2) sl(3), folded w1_def]
        ultimately show ?thesis using ne \<open>fd_table_get t oldfd = Some f\<close> w(3,4) by (simp add: fun_eq_iff)
      qed
    qed
  qed
qed

definition one_open :: fd_table where
  "one_open = snd (fd_table_put (\<lambda>_. 1) 0 5 1 empty_table)"

lemma one_open_ok: "table_ok one_open" "fd_table_get one_open 0 = Some (slot_reset\<lparr>in_use := True, fvn := 5, writable := 1\<rparr>)"
  by (simp_all add: one_open_def fd_table_put_def valid_fd_def bucket_slots_def empty_table_def fd_table_init_def set_bucket_def
      slots_clear_def slot_reset_def put_slot_def fd_table_get_def fd_bucket_of_def fd_slot_def table_ok_def bucket_ok_def
      used_slots_def cong: conj_cong)

theorem fd_dup2_correct_witness:
  "fst (fd_table_dup2 True 0 600 one_open) = 600
   \<and> fd_table_get (snd (fd_table_dup2 True 0 600 one_open)) 600 = fd_table_get one_open 0"
proof -
  have r: "fst (fd_table_dup2 True 0 600 one_open) = 600" by code_simp
  then have "fd_table_dup2 True 0 600 one_open = (600, snd (fd_table_dup2 True 0 600 one_open))" by (metis prod.collapse)
  from fd_dup2_correct [OF one_open_ok(1) this] r show ?thesis by auto
qed

text \<open>No descriptor is handed out twice. Whatever sequence of allocations, and of closes of
  descriptors that are held, starts from a sound table, the descriptors held are distinct, were
  not open at the start, and are exactly the ones opened since.\<close>

theorem fd_holders_distinct:
  assumes "owns fd_take (fd_table_close True) t0 t held" and "table_ok t0"
  shows "distinct held \<and> open_fds t0 \<inter> set held = {} \<and> open_fds t = open_fds t0 \<union> set held"
  using fds.owns_invariant [OF assms] by blast

theorem fd_holders_distinct_witness:
  "\<exists>t. owns fd_take (fd_table_close True) empty_table t [0] \<and> 0 \<in> open_fds t"
proof -
  have "map_option fst (fd_take empty_table) = Some 0" by code_simp
  then obtain t where "fd_take empty_table = Some (0, t)" by auto
  then have "owns fd_take (fd_table_close True) empty_table t [0]" by (rule owns_alloc [OF owns_init])
  with fd_holders_distinct [OF this empty_table_ok] show ?thesis by auto
qed

end
