(* ===== verification/Wheel.thy ===== *)
theory Wheel
  imports Prelude
begin

text \<open>
  The hierarchical timer wheel, \<open>src/kernel/time/wheel.c\<close>: four levels of 64 buckets with slots of
  1, 8, 64 and 512 jiffies.

  A bucket and the due list are lists of timers, head first; a timer is its identity and its
  expiry, and it is pending while it is on some list. Jiffies are \<open>nat\<close>. An expiry may be any 64-bit
  number, so the sums of \<open>enqueue_locked\<close> wrap around; the clock counts milliseconds from boot and its
  own increments do not. The time of the hrtimer that wakes \<open>ktimerd\<close> is \<open>armed\<close>. The wheel lock
  makes an operation atomic; \<open>mod_timer\<close> sets the hrtimer just after dropping it, here in the same
  step.
\<close>

section \<open>State\<close>

abbreviation (input) LVL_SIZE :: nat where "LVL_SIZE \<equiv> 64"
abbreviation (input) LEVELS :: nat where "LEVELS \<equiv> 4"
abbreviation (input) JIFFY_NS :: nat where "JIFFY_NS \<equiv> 1000000"

record timer_list =
  tid :: nat
  expires :: nat

record wheel_base =
  buckets :: "nat \<Rightarrow> nat \<Rightarrow> timer_list list"
  due :: "timer_list list"
  clk :: nat
  armed :: "nat option"

definition gran :: "nat \<Rightarrow> nat" where
  "gran l = 2 ^ (3 * l)"

definition level_for :: "nat \<Rightarrow> nat" where
  "level_for delta = (if delta < LVL_SIZE * gran 0 then 0 else if delta < LVL_SIZE * gran 1 then 1
     else if delta < LVL_SIZE * gran 2 then 2 else 3)"

section \<open>Filing and removing a timer\<close>

definition round_up :: "nat \<Rightarrow> nat \<Rightarrow> nat" where
  "round_up g x = (x + g - 1) mod 2 ^ 64 div g * g"

definition slot_time :: "nat \<Rightarrow> nat \<Rightarrow> nat" where
  "slot_time c e =
     (let exp = max e c;
          l = level_for (exp - c);
          g = gran l;
          st = round_up g exp;
          mx = (c + (LVL_SIZE - 1) * g) mod 2 ^ 64
      in if mx < st then mx div g * g else st)"

definition enqueue_locked :: "timer_list \<Rightarrow> wheel_base \<Rightarrow> wheel_base" where
  "enqueue_locked t b =
     (let exp = max (expires t) (clk b);
          l = level_for (exp - clk b);
          idx = slot_time (clk b) (expires t) div gran l mod LVL_SIZE
      in b\<lparr>buckets := (buckets b)(l := (buckets b l)(idx := t # buckets b l idx))\<rparr>)"

definition timer_pending :: "nat \<Rightarrow> wheel_base \<Rightarrow> bool" where
  "timer_pending i b \<longleftrightarrow> (\<exists>t \<in> set (due b). tid t = i)
     \<or> (\<exists>l \<in> {..<LEVELS}. \<exists>k \<in> {..<LVL_SIZE}. \<exists>t \<in> set (buckets b l k). tid t = i)"

definition detach_locked :: "nat \<Rightarrow> wheel_base \<Rightarrow> wheel_base" where
  "detach_locked i b = b\<lparr>buckets := (\<lambda>l k. filter (\<lambda>t. tid t \<noteq> i) (buckets b l k)),
                         due := filter (\<lambda>t. tid t \<noteq> i) (due b)\<rparr>"

section \<open>The next wake-up\<close>

definition level_slots :: "wheel_base \<Rightarrow> nat \<Rightarrow> nat list" where
  "level_slots b l =
     (let g = gran l;
          base = round_up g (clk b);
          base_idx = base div g mod LVL_SIZE
      in map (\<lambda>i. base + (i + LVL_SIZE - base_idx) mod LVL_SIZE * g) (filter (\<lambda>i. buckets b l i \<noteq> []) [0..<LVL_SIZE]))"

text \<open>\<open>None\<close> stands for \<open>UINT64_MAX\<close>: nothing is pending.\<close>

definition next_expiry_locked :: "wheel_base \<Rightarrow> nat option" where
  "next_expiry_locked b =
     (if due b \<noteq> [] then Some (clk b)
      else case concat (map (level_slots b) [0..<LEVELS]) of
          [] \<Rightarrow> None
        | x # xs \<Rightarrow> Some (fold min xs x))"

definition arm_for :: "nat option \<Rightarrow> wheel_base \<Rightarrow> wheel_base" where
  "arm_for nx b = b\<lparr>armed := map_option (\<lambda>j. j * JIFFY_NS) nx\<rparr>"

section \<open>Advancing the clock\<close>

text \<open>A timer of a bucket that is emptied: due, or filed again more finely.\<close>

definition refile :: "timer_list \<Rightarrow> wheel_base \<Rightarrow> wheel_base" where
  "refile t b = (if expires t \<le> clk b then b\<lparr>due := t # due b\<rparr> else enqueue_locked t b)"

definition empty_bucket :: "nat \<Rightarrow> wheel_base \<Rightarrow> wheel_base" where
  "empty_bucket l b =
     (if clk b mod gran l \<noteq> 0 then b
      else let idx = clk b div gran l mod LVL_SIZE;
               ts = buckets b l idx
           in fold refile ts (b\<lparr>buckets := (buckets b)(l := (buckets b l)(idx := []))\<rparr>))"

definition tick :: "wheel_base \<Rightarrow> wheel_base" where
  "tick b = (let b = fold empty_bucket [3, 2, 1, 0] b in b\<lparr>clk := clk b + 1\<rparr>)"

lemma enqueue_clk [simp]: "clk (enqueue_locked t b) = clk b"
  by (simp add: enqueue_locked_def Let_def)

lemma refile_clk [simp]: "clk (refile t b) = clk b" "clk (fold refile ts b) = clk b"
proof -
  show *: "clk (refile t b) = clk b" for t b by (simp add: refile_def)
  show "clk (fold refile ts b) = clk b" by (induction ts arbitrary: b) (simp_all add: *)
qed

lemma empty_bucket_clk [simp]: "clk (empty_bucket l b) = clk b"
  by (simp add: empty_bucket_def Let_def)

lemma tick_clk [simp]: "clk (tick b) = clk b + 1"
  by (simp add: tick_def Let_def)

function collect_expired_locked :: "nat \<Rightarrow> wheel_base \<Rightarrow> wheel_base" where
  "collect_expired_locked now b = (if clk b \<le> now then collect_expired_locked now (tick b) else b)"
  by pat_completeness auto

termination collect_expired_locked
  by (relation "measure (\<lambda>(now, b). now + 1 - clk b)") auto

definition forward_locked :: "nat \<Rightarrow> wheel_base \<Rightarrow> wheel_base" where
  "forward_locked now b =
     (if now < clk b then b
      else if next_expiry_locked b = None then b\<lparr>clk := now\<rparr>
      else collect_expired_locked now b)"

section \<open>The interface\<close>

definition arm_timer :: "nat \<Rightarrow> nat \<Rightarrow> nat \<Rightarrow> wheel_base \<Rightarrow> wheel_base" where
  "arm_timer now i ex b =
     (let b = (if timer_pending i b then detach_locked i b else b);
          b = forward_locked now b;
          b = enqueue_locked \<lparr>tid = i, expires = ex\<rparr> b
      in arm_for (next_expiry_locked b) b)"

definition mod_timer :: "nat \<Rightarrow> nat \<Rightarrow> nat \<Rightarrow> wheel_base \<Rightarrow> wheel_base" where
  "mod_timer now i ex b = arm_timer now i ex b"

text \<open>\<open>old\<close> is the expiry the timer was last armed with.\<close>

definition timer_reduce :: "nat \<Rightarrow> nat \<Rightarrow> nat \<Rightarrow> nat \<Rightarrow> wheel_base \<Rightarrow> wheel_base" where
  "timer_reduce now i old ex b = (if timer_pending i b \<and> old \<le> ex then b else arm_timer now i ex b)"

definition del_timer :: "nat \<Rightarrow> wheel_base \<Rightarrow> bool \<times> wheel_base" where
  "del_timer i b = (let was = timer_pending i b in (was, if was then detach_locked i b else b))"

text \<open>One pass of \<open>ktimerd\<close>: it collects, then takes the due timers one at a time; the callback
  of a timer runs with the lock dropped, so it may change the wheel in between.\<close>

definition ktimerd_collect :: "nat \<Rightarrow> wheel_base \<Rightarrow> wheel_base" where
  "ktimerd_collect now b = collect_expired_locked now b"

definition ktimerd_take :: "wheel_base \<Rightarrow> (timer_list \<times> wheel_base) option" where
  "ktimerd_take b = (case due b of [] \<Rightarrow> None | t # ts \<Rightarrow> Some (t, detach_locked (tid t) b))"

definition wheel_init :: "nat \<Rightarrow> wheel_base" where
  "wheel_init now = \<lparr>buckets = (\<lambda>l k. []), due = [], clk = now, armed = None\<rparr>"

end
