(* ===== verification/Wheel_Correct.thy ===== *)
theory Wheel_Correct
  imports Wheel
begin

text \<open>A timer on the wheel comes due in the window its level promises: never before its jiffy, and
  less than one slot of the level it was filed at after it.\<close>

declare collect_expired_locked.simps [simp del]

section \<open>Slot times\<close>

lemma gran_pos [simp]: "0 < gran l"
  by (simp add: gran_def)

lemma gran_mono: "l \<le> m \<Longrightarrow> gran l \<le> gran m"
  by (simp add: gran_def)

lemma gran_small: "l < 4 \<Longrightarrow> gran l \<le> 512"
  using gran_mono [of l 3] by (simp add: gran_def)

lemma round_up_bounds:
  assumes "0 < g" and "x + g \<le> 2 ^ 64"
  shows "round_up g x mod g = 0" "x \<le> round_up g x" "round_up g x < x + g"
proof -
  show "round_up g x mod g = 0" by (simp add: round_up_def)
  define m where "m = (x + g - 1) mod g"
  have "(x + g - 1) mod 2 ^ 64 = x + g - 1" using assms by (intro mod_less) linarith
  then have "round_up g x + m = x + g - 1" unfolding round_up_def m_def by (simp only: div_mult_mod_eq)
  moreover have "m < g" using assms by (simp add: m_def)
  ultimately show "x \<le> round_up g x" "round_up g x < x + g" using assms by linarith+
qed

lemma level_for_less [simp]: "level_for d < 4"
  by (simp add: level_for_def)

lemma slot_time_bounds:
  assumes "c \<le> e" and "e + 63 * 512 < 2 ^ 64"
  defines "g \<equiv> gran (level_for (e - c))"
  shows "slot_time c e mod g = 0" "c < e \<Longrightarrow> c < slot_time c e" "slot_time c e < e + g" "c \<le> slot_time c e"
proof -
  have g: "0 < g" "g \<le> 512" using gran_small by (simp_all add: g_def)
  define mx where "mx = c + 63 * g"
  have "mx mod 2 ^ 64 = mx" using g assms(1,2) unfolding mx_def by (intro mod_less) linarith
  then have st: "slot_time c e = (if mx < round_up g e then mx div g * g else round_up g e)"
    using assms(1) by (simp add: slot_time_def Let_def g_def mx_def max_absorb1)
  have fl: "mx div g * g \<le> mx" "mx < mx div g * g + g"
    using g by (simp, metis add.commute dividend_less_div_times)
  have "e + g \<le> 2 ^ 64" using g assms(2) by linarith
  note ru = round_up_bounds [OF g(1) this]
  show "slot_time c e mod g = 0" using ru by (simp add: st)
  show "c < slot_time c e" if "c < e" using ru fl g that by (auto simp: st mx_def)
  show "slot_time c e < e + g" "c \<le> slot_time c e"
    using ru fl g assms(1) by (auto simp: st mx_def)
qed

lemma slot_time_late: "slot_time c e = slot_time c (max e c)"
  by (simp add: slot_time_def)

lemma level_for_mono: "d \<le> d' \<Longrightarrow> level_for d \<le> level_for d'"
  by (auto simp: level_for_def)

section \<open>Following one timer\<close>

text \<open>The slot a timer is filed in lies less than one slot of level \<open>L\<close> past \<open>D\<close>, the later of the
  timer's expiry and the clock when it was armed.\<close>

definition filed :: "nat \<Rightarrow> nat \<Rightarrow> timer_list \<Rightarrow> wheel_base \<Rightarrow> nat \<Rightarrow> nat \<Rightarrow> bool" where
  "filed L D t b l st \<longleftrightarrow> l \<le> L \<and> l < 4 \<and> t \<in> set (buckets b l (st div gran l mod 64)) \<and> st mod gran l = 0
     \<and> clk b \<le> st \<and> st < D + gran L"

text \<open>While the clock stands at a jiffy the levels from \<open>k\<close> upwards have been emptied for it.\<close>

definition tracked :: "nat \<Rightarrow> nat \<Rightarrow> timer_list \<Rightarrow> nat \<Rightarrow> wheel_base \<Rightarrow> bool" where
  "tracked L D t k b \<longleftrightarrow> t \<in> set (due b)
     \<or> level_for (expires t - clk b) \<le> L \<and> (\<exists>l st. filed L D t b l st \<and> (st = clk b \<longrightarrow> l < k))"

text \<open>The bounds that keep the sums for the timer from wrapping around.\<close>

definition fits :: "nat \<Rightarrow> timer_list \<Rightarrow> bool" where
  "fits D t \<longleftrightarrow> expires t \<le> D \<and> D + 63 * 512 < 2 ^ 64"

lemma enqueue_keeps: "t \<in> set (buckets b l i) \<Longrightarrow> t \<in> set (buckets (enqueue_locked u b) l i)"
  by (auto simp: enqueue_locked_def Let_def)

lemma enqueue_due [simp]: "due (enqueue_locked u b) = due b"
  by (simp add: enqueue_locked_def Let_def)

lemma refile_keeps:
  "t \<in> set (buckets b l i) \<Longrightarrow> t \<in> set (buckets (refile u b) l i)"
  "t \<in> set (due b) \<Longrightarrow> t \<in> set (due (refile u b))"
  by (auto simp: refile_def enqueue_keeps)

lemma tracked_refile: "tracked L D t k b \<Longrightarrow> tracked L D t k (refile u b)"
  unfolding tracked_def filed_def using refile_keeps by (metis refile_clk(1))

lemma tracked_refiles: "tracked L D t k b \<Longrightarrow> tracked L D t k (fold refile us b)"
  by (induction us arbitrary: b) (simp_all add: tracked_refile)

lemma enqueue_filed:
  assumes late: "clk b < expires t \<or> clk b \<le> D \<and> 0 < k" and L: "level_for (expires t - clk b) \<le> L" and f: "fits D t"
  shows "tracked L D t k (enqueue_locked t b)"
proof -
  let ?e = "max (expires t) (clk b)"
  let ?l = "level_for (expires t - clk b)" and ?st = "slot_time (clk b) ?e"
  have le: "clk b \<le> ?e" and D: "?e \<le> D" using late f by (auto simp: fits_def)
  have lv: "level_for (?e - clk b) = ?l" by (rule arg_cong [of _ _ level_for]) simp
  have "?e + 63 * 512 < 2 ^ 64" using D f by (simp add: fits_def)
  note st = slot_time_bounds [OF le this, unfolded lv]
  have "t \<in> set (buckets (enqueue_locked t b) ?l (?st div gran ?l mod 64))"
    using lv slot_time_late [of "clk b" "expires t"] by (simp add: enqueue_locked_def Let_def)
  moreover have "?st < D + gran L" using st(3) D gran_mono [OF L] by linarith
  ultimately have "filed L D t (enqueue_locked t b) ?l ?st" using st(1,4) L by (simp add: filed_def)
  moreover have "?st = clk b \<longrightarrow> ?l < k"
  proof (cases "clk b < expires t")
    case True
    then show ?thesis using st(2) by simp
  next
    case False
    then show ?thesis using late by (simp add: level_for_def)
  qed
  ultimately show ?thesis using L unfolding tracked_def by auto
qed

lemma refiled: "t \<in> set ts \<Longrightarrow> level_for (expires t - clk b) \<le> L \<Longrightarrow> fits D t \<Longrightarrow> tracked L D t 0 (fold refile ts b)"
proof (induction ts arbitrary: b)
  case (Cons u ts)
  show ?case
  proof (cases "u = t")
    case True
    have "tracked L D t 0 (refile t b)"
      using enqueue_filed [of b t D 0 L] Cons.prems(2,3) by (auto simp: refile_def tracked_def)
    then show ?thesis using True tracked_refiles by simp
  next
    case False
    then show ?thesis using Cons by simp
  qed
qed simp

lemma empty_bucket_tracked:
  assumes "tracked L D t (Suc k) b" and f: "fits D t"
  shows "tracked L D t k (empty_bucket k b)"
proof (cases "clk b mod gran k = 0")
  case False
  then have "empty_bucket k b = b" by (simp add: empty_bucket_def)
  moreover have "tracked L D t k b"
    using assms(1) False unfolding tracked_def filed_def by (metis less_SucE)
  ultimately show ?thesis by simp
next
  case True
  define i where "i = clk b div gran k mod 64"
  define b0 where "b0 = b\<lparr>buckets := (buckets b)(k := (buckets b k)(i := []))\<rparr>"
  have eb: "empty_bucket k b = fold refile (buckets b k i) b0"
    using True by (simp add: empty_bucket_def Let_def i_def b0_def)
  have clk: "clk b0 = clk b" by (simp add: b0_def)
  from assms(1) consider "t \<in> set (due b)"
    | (fl) l st where "level_for (expires t - clk b) \<le> L" "filed L D t b l st" "st = clk b \<longrightarrow> l < Suc k"
    unfolding tracked_def by blast
  then show ?thesis
  proof cases
    case 1
    then have "tracked L D t k b0" by (simp add: tracked_def b0_def)
    then show ?thesis unfolding eb by (rule tracked_refiles)
  next
    case fl
    show ?thesis
    proof (cases "l = k \<and> st div gran l mod 64 = i")
      case True
      then have "t \<in> set (buckets b k i)" using fl(2) unfolding filed_def by metis
      then have "tracked L D t 0 (empty_bucket k b)" unfolding eb using refiled [OF _ _ f] fl(1) clk by simp
      then show ?thesis unfolding tracked_def by blast
    next
      case stays: False
      have "st \<noteq> clk b \<or> l < k" using stays fl(3) by (auto simp: i_def less_Suc_eq)
      moreover have "filed L D t b0 l st" using fl(2) stays by (auto simp: filed_def b0_def)
      ultimately have "tracked L D t k b0" using fl(1) clk unfolding tracked_def by (metis clk)
      then show ?thesis unfolding eb by (rule tracked_refiles)
    qed
  qed
qed

lemma tick_tracked:
  assumes "tracked L D t 4 b" and f: "fits D t"
  shows "tracked L D t 4 (tick b)"
proof -
  let ?b = "fold empty_bucket [3, 2, 1, 0] b"
  have "tracked L D t 0 ?b"
    using empty_bucket_tracked [of L D t 0] empty_bucket_tracked [of L D t 1] empty_bucket_tracked [of L D t 2]
      empty_bucket_tracked [of L D t 3 b] assms by (simp add: numeral_eq_Suc)
  moreover have "tracked L D t 4 (?b\<lparr>clk := clk ?b + 1\<rparr>)" if "tracked L D t 0 ?b"
  proof -
    have lv: "level_for (expires t - (clk ?b + 1)) \<le> level_for (expires t - clk ?b)" by (rule level_for_mono) simp
    from that consider "t \<in> set (due ?b)"
      | (fl) l st where "level_for (expires t - clk ?b) \<le> L" "filed L D t ?b l st" "st \<noteq> clk ?b"
      unfolding tracked_def by blast
    then show ?thesis
    proof cases
      case 1
      then show ?thesis by (simp add: tracked_def)
    next
      case fl
      then have "filed L D t (?b\<lparr>clk := clk ?b + 1\<rparr>) l st" "l < 4" by (auto simp: filed_def)
      moreover have "level_for (expires t - (clk ?b + 1)) \<le> L" using lv fl(1) by (rule le_trans)
      ultimately show ?thesis unfolding tracked_def by auto
    qed
  qed
  ultimately show ?thesis by (simp add: tick_def Let_def)
qed

lemma collect_tracked: "tracked L D t 4 b \<Longrightarrow> fits D t \<Longrightarrow> tracked L D t 4 (collect_expired_locked now b)"
proof (induction now b rule: collect_expired_locked.induct)
  case (1 now b)
  then show ?case
    using tick_tracked [OF 1(2,3)] by (subst collect_expired_locked.simps) auto
qed

lemma collect_clk: "clk (collect_expired_locked now b) = max (clk b) (now + 1)"
proof (induction now b rule: collect_expired_locked.induct)
  case (1 now b)
  then show ?case by (subst collect_expired_locked.simps) (auto simp: max_def)
qed

lemma tracked_due:
  assumes "tracked L D t k b" and "D + gran L \<le> clk b"
  shows "t \<in> set (due b)"
  using assms by (auto simp: tracked_def filed_def)

section \<open>No timer is early\<close>

definition due_ok :: "wheel_base \<Rightarrow> bool" where
  "due_ok b \<longleftrightarrow> (\<forall>t \<in> set (due b). expires t \<le> clk b)"

lemma due_ok_enqueue [simp]: "due_ok (enqueue_locked t b) = due_ok b"
  by (simp add: due_ok_def enqueue_locked_def Let_def)

lemma due_ok_refile: "due_ok b \<Longrightarrow> due_ok (refile t b)"
  by (simp add: refile_def) (simp add: due_ok_def)

lemma due_ok_refiles: "due_ok b \<Longrightarrow> due_ok (fold refile ts b)"
  by (induction ts arbitrary: b) (simp_all add: due_ok_refile)

lemma due_ok_empty: "due_ok b \<Longrightarrow> due_ok (empty_bucket l b)"
  by (auto simp: empty_bucket_def Let_def intro!: due_ok_refiles) (simp add: due_ok_def)

text \<open>The last jiffy that was collected is the one before the clock: a due timer expired by then.\<close>

definition due_by :: "nat \<Rightarrow> wheel_base \<Rightarrow> bool" where
  "due_by now b \<longleftrightarrow> (\<forall>t \<in> set (due b). expires t \<le> now)"

lemma tick_due_by: "due_ok b \<Longrightarrow> due_ok (tick b) \<and> due_by (clk b) (tick b)"
proof -
  assume "due_ok b"
  then have "due_ok (fold empty_bucket [3, 2, 1, 0] b)" by (simp add: due_ok_empty)
  then show ?thesis by (auto simp: tick_def Let_def due_ok_def due_by_def)
qed

lemma collect_due_by:
  "due_ok b \<Longrightarrow> due_by now b \<Longrightarrow> due_by now (collect_expired_locked now b)"
proof (induction now b rule: collect_expired_locked.induct)
  case (1 now b)
  show ?case
  proof (cases "clk b \<le> now")
    case True
    have "due_by now (tick b)" using tick_due_by [OF 1(2)] True by (auto simp: due_by_def)
    then show ?thesis
      using 1(1) [OF True] tick_due_by [OF 1(2)] True by (subst collect_expired_locked.simps) simp
  next
    case False
    then show ?thesis using 1(3) by (subst collect_expired_locked.simps) simp
  qed
qed

section \<open>Other operations on the wheel\<close>

lemma detach_keeps: "tid t \<noteq> i \<Longrightarrow> tracked L D t k b \<Longrightarrow> tracked L D t k (detach_locked i b)"
  by (auto simp: tracked_def filed_def detach_locked_def)

lemma tracked_enqueue: "tracked L D t k b \<Longrightarrow> tracked L D t k (enqueue_locked u b)"
  unfolding tracked_def filed_def using enqueue_keeps enqueue_due by (metis enqueue_clk)

lemma tracked_armed [simp]: "tracked L D t k (arm_for n b) = tracked L D t k b"
  by (simp add: tracked_def filed_def arm_for_def)

text \<open>A wheel that holds a timer has a next expiry, so its clock never jumps past the timer.\<close>

lemma bucket_next_expiry:
  assumes "l < 4" and "i < 64" and "buckets b l i \<noteq> []"
  shows "next_expiry_locked b \<noteq> None"
proof -
  have "level_slots b l \<noteq> []" using assms(2,3) by (auto simp: level_slots_def Let_def filter_empty_conv)
  then have "concat (map (level_slots b) [0..<4]) \<noteq> []" using assms(1) by auto
  then show ?thesis unfolding next_expiry_locked_def by (auto split: list.split)
qed

lemma tracked_next_expiry: "tracked L D t k b \<Longrightarrow> next_expiry_locked b \<noteq> None"
  unfolding tracked_def filed_def
proof (elim disjE exE conjE)
  assume "t \<in> set (due b)"
  then show ?thesis by (auto simp: next_expiry_locked_def)
next
  fix l st
  assume "l < 4" "t \<in> set (buckets b l (st div gran l mod 64))"
  then show ?thesis by (intro bucket_next_expiry [of l "st div gran l mod 64"]) auto
qed

lemma tracked_forward: "tracked L D t 4 b \<Longrightarrow> fits D t \<Longrightarrow> tracked L D t 4 (forward_locked now b)"
  using tracked_next_expiry [of L D t 4 b] by (auto simp: forward_locked_def collect_tracked)

lemma tracked_arm_timer: "tid t \<noteq> i \<Longrightarrow> tracked L D t 4 b \<Longrightarrow> fits D t \<Longrightarrow> tracked L D t 4 (arm_timer now i ex b)"
  by (simp add: arm_timer_def Let_def tracked_enqueue tracked_forward detach_keeps)

text \<open>What the rest of the kernel and \<open>ktimerd\<close> may do to the wheel while timer \<open>i\<close> is neither armed
  again, cancelled nor run. A call of \<open>timer_reduce\<close> that finds the timer pending for an earlier
  jiffy does not arm it again.\<close>

inductive wheel_steps :: "nat \<Rightarrow> wheel_base \<Rightarrow> wheel_base \<Rightarrow> bool" for i :: nat and b :: wheel_base where
  idle: "wheel_steps i b b"
| arm: "wheel_steps i b b' \<Longrightarrow> j \<noteq> i \<Longrightarrow> wheel_steps i b (mod_timer now j ex b')"
| reduce: "wheel_steps i b b' \<Longrightarrow> j \<noteq> i \<Longrightarrow> wheel_steps i b (timer_reduce now j old ex b')"
| later: "wheel_steps i b b' \<Longrightarrow> timer_pending i b' \<Longrightarrow> old \<le> ex \<Longrightarrow> wheel_steps i b (timer_reduce now i old ex b')"
| cancel: "wheel_steps i b b' \<Longrightarrow> j \<noteq> i \<Longrightarrow> wheel_steps i b (snd (del_timer j b'))"
| pass: "wheel_steps i b b' \<Longrightarrow> wheel_steps i b (ktimerd_collect now b')"
| run: "wheel_steps i b b' \<Longrightarrow> ktimerd_take b' = Some (u, b'') \<Longrightarrow> tid u \<noteq> i \<Longrightarrow> wheel_steps i b b''"

lemma wheel_steps_tracked:
  "wheel_steps (tid t) b b' \<Longrightarrow> tracked L D t 4 b \<Longrightarrow> fits D t \<Longrightarrow> tracked L D t 4 b'"
proof (induction rule: wheel_steps.induct)
  case (run b' u b'')
  then show ?case by (auto simp: ktimerd_take_def detach_keeps split: list.splits)
qed (simp_all add: mod_timer_def timer_reduce_def del_timer_def Let_def ktimerd_collect_def
       tracked_arm_timer detach_keeps collect_tracked)

section \<open>Properties\<close>

lemma arm_timer_tracked:
  fixes now i ex :: nat and b :: wheel_base
  defines "b1 \<equiv> arm_timer now i ex b"
  defines "D \<equiv> max ex (clk b1)"
  assumes "D + 63 * 512 < 2 ^ 64"
  shows "tracked (level_for (ex - clk b1)) D \<lparr>tid = i, expires = ex\<rparr> 4 b1"
proof -
  let ?t = "\<lparr>tid = i, expires = ex\<rparr>"
  define f where "f = forward_locked now (if timer_pending i b then detach_locked i b else b)"
  have b: "b1 = arm_for (next_expiry_locked (enqueue_locked ?t f)) (enqueue_locked ?t f)"
    by (simp add: b1_def arm_timer_def Let_def f_def)
  have clk: "clk b1 = clk f" by (simp add: b arm_for_def)
  have "tracked (level_for (ex - clk f)) D ?t 4 (enqueue_locked ?t f)"
    by (rule enqueue_filed) (use assms(3) clk in \<open>auto simp: D_def fits_def\<close>)
  then show ?thesis unfolding clk by (simp add: b)
qed

text \<open>C34: a timer armed for jiffy \<open>ex\<close>, by \<open>mod_timer\<close> or by a \<open>timer_reduce\<close> that does not find it
  pending for an earlier jiffy, is ready to run after the first pass of \<open>ktimerd\<close> that is at least one
  slot of the level it was filed on after the later of \<open>ex\<close> and the wheel's clock once it is armed (at
  that jiffy itself for the finest level, so a timer whose expiry has passed is ready after the first
  pass that reaches the clock), whatever other timers were armed, reduced, cancelled, collected or run in the meantime: it is never
  lost in a cascade and never skipped by a clock that jumps. The jiffies are those of a clock that
  stays half a minute away from \<open>2 ^ 64\<close>.\<close>

theorem wheel_timely:
  assumes "b1 = mod_timer now0 i ex b \<or> b1 = timer_reduce now0 i old ex b \<and> \<not> (timer_pending i b \<and> old \<le> ex)"
    and "wheel_steps i b1 b'" and "now + 63 * 512 < 2 ^ 64"
    and "max ex (clk b1) + gran (level_for (ex - clk b1)) \<le> now + 1"
  shows "\<lparr>tid = i, expires = ex\<rparr> \<in> set (due (ktimerd_collect now b'))"
proof -
  let ?t = "\<lparr>tid = i, expires = ex\<rparr>" and ?L = "level_for (ex - clk b1)" and ?D = "max ex (clk b1)"
  have b1: "b1 = arm_timer now0 i ex b" using assms(1) by (auto simp: mod_timer_def timer_reduce_def)
  have "0 < gran ?L" by simp
  then have "?D + 63 * 512 < 2 ^ 64" using assms(3,4) by linarith
  then have "fits ?D ?t" "tracked ?L ?D ?t 4 b1" using arm_timer_tracked [of ex now0 i b] by (simp_all add: fits_def b1)
  moreover have "tracked ?L ?D ?t 4 b'" using wheel_steps_tracked [of ?t b1 b' ?L ?D] assms(2) calculation by simp
  ultimately have "tracked ?L ?D ?t 4 (collect_expired_locked now b')" using collect_tracked by blast
  then show ?thesis
    unfolding ktimerd_collect_def by (rule tracked_due) (use assms(4) in \<open>simp add: collect_clk\<close>)
qed

lemma next_expiry_init: "next_expiry_locked (wheel_init n) = None"
proof -
  have "level_slots (wheel_init n) = (\<lambda>l. [])" by (simp add: fun_eq_iff level_slots_def wheel_init_def Let_def)
  then have "concat (map (level_slots (wheel_init n)) [0..<4]) = []" by simp
  then show ?thesis unfolding next_expiry_locked_def by (simp only: list.case) (simp add: wheel_init_def)
qed

lemma first_timer: "clk (mod_timer n i ex (wheel_init n)) = n" "due (mod_timer n i ex (wheel_init n)) = []"
proof -
  have "\<not> timer_pending i (wheel_init n)" by (simp add: timer_pending_def wheel_init_def)
  moreover have "clk (wheel_init n) = n" "due (wheel_init n) = []" by (simp_all add: wheel_init_def)
  ultimately show "clk (mod_timer n i ex (wheel_init n)) = n" "due (mod_timer n i ex (wheel_init n)) = []"
    by (simp_all add: mod_timer_def arm_timer_def Let_def arm_for_def forward_locked_def next_expiry_init)
qed

theorem wheel_timely_witness:
  "\<lparr>tid = 7, expires = 200\<rparr> \<in> set (due (ktimerd_collect 207
     (mod_timer 101 8 150 (mod_timer 100 7 200 (wheel_init 100)))))"
proof (rule wheel_timely)
  show "mod_timer 100 7 200 (wheel_init 100) = mod_timer 100 7 200 (wheel_init 100)
    \<or> mod_timer 100 7 200 (wheel_init 100) = timer_reduce 100 7 0 200 (wheel_init 100)
      \<and> \<not> (timer_pending 7 (wheel_init 100) \<and> (0 :: nat) \<le> 200)" by simp
  show "max 200 (clk (mod_timer 100 7 200 (wheel_init 100)))
      + gran (level_for (200 - clk (mod_timer 100 7 200 (wheel_init 100)))) \<le> 207 + 1"
    by (simp add: first_timer level_for_def gran_def)
  show "wheel_steps 7 (mod_timer 100 7 200 (wheel_init 100)) (mod_timer 101 8 150 (mod_timer 100 7 200 (wheel_init 100)))"
    by (intro wheel_steps.intros) simp
qed simp

text \<open>No timer is early: every timer a pass of \<open>ktimerd\<close> at jiffy \<open>now\<close> leaves on the due list has an
  expiry no later than \<open>now\<close>, given that this held of the timers left over from earlier passes.\<close>

theorem wheel_never_early:
  assumes "\<forall>u \<in> set (due b). expires u \<le> clk b \<and> expires u \<le> now"
  shows "\<forall>u \<in> set (due (ktimerd_collect now b)). expires u \<le> now"
  using collect_due_by [of b now] assms by (auto simp: due_ok_def due_by_def ktimerd_collect_def)

theorem wheel_never_early_witness:
  "list_all (\<lambda>u. expires u \<le> 150) (due (ktimerd_collect 150 (mod_timer 100 7 200 (wheel_init 100))))"
  using wheel_never_early [of "mod_timer 100 7 200 (wheel_init 100)" 150] by (simp add: first_timer list_all_iff)

end
