(* ===== verification/Heap.thy ===== *)
theory Heap
  imports Pmm
begin

text \<open>
  The kernel heap, \<open>src/kernel/mm/heap.c\<close>, in the build without \<open>NEOOS_DEBUG_HEAP\<close>: pages cut into
  slots of one of eight sizes, and blocks of whole frames for larger requests.

  A page header and the links of the free slots lie in physical memory, where the C code reaches
  them through the physical map; an address here is the physical one, and 0 is the null pointer. The
  header is 64 bytes: \<open>next\<close> at offset 0, \<open>free_list\<close> at 8, and the 32-bit fields \<open>size_class\<close> and
  \<open>meta\<close> share the cell at 16. The heap lock makes an operation atomic.
\<close>

section \<open>State\<close>

abbreviation (input) HEADER :: nat where "HEADER \<equiv> 64"
abbreviation (input) HEAP_LARGE_MARKER :: u32 where "HEAP_LARGE_MARKER \<equiv> 0xFFFFFFFF"

record heap =
  hmem :: kmem
  class_pages :: "nat \<Rightarrow> nat"

definition heap_size_classes :: "nat list" where
  "heap_size_classes = [16, 32, 64, 128, 256, 512, 1024, 2048]"

definition put_cell :: "nat \<Rightarrow> u64 \<Rightarrow> kmem \<Rightarrow> kmem" where
  "put_cell a v m = m\<lparr>pmem := (pmem m)(a := v)\<rparr>"

definition page_next :: "kmem \<Rightarrow> nat \<Rightarrow> nat" where
  "page_next m p = unat (pmem m p)"

definition page_free_list :: "kmem \<Rightarrow> nat \<Rightarrow> nat" where
  "page_free_list m p = unat (pmem m (p + 8))"

definition page_size_class :: "kmem \<Rightarrow> nat \<Rightarrow> u32" where
  "page_size_class m p = ucast (pmem m (p + 16))"

definition page_meta :: "kmem \<Rightarrow> nat \<Rightarrow> u32" where
  "page_meta m p = ucast (drop_bit 32 (pmem m (p + 16)))"

definition set_page_next :: "nat \<Rightarrow> nat \<Rightarrow> kmem \<Rightarrow> kmem" where
  "set_page_next p n = put_cell p (of_nat n)"

definition set_free_list :: "nat \<Rightarrow> nat \<Rightarrow> kmem \<Rightarrow> kmem" where
  "set_free_list p n = put_cell (p + 8) (of_nat n)"

definition set_size_class :: "nat \<Rightarrow> u32 \<Rightarrow> kmem \<Rightarrow> kmem" where
  "set_size_class p c m = put_cell (p + 16) (ucast c OR push_bit 32 (ucast (page_meta m p))) m"

definition set_meta :: "nat \<Rightarrow> u32 \<Rightarrow> kmem \<Rightarrow> kmem" where
  "set_meta p v m = put_cell (p + 16) (ucast (page_size_class m p) OR push_bit 32 (ucast v)) m"

definition slot_next :: "kmem \<Rightarrow> nat \<Rightarrow> nat" where
  "slot_next m a = unat (pmem m a)"

definition set_slot_next :: "nat \<Rightarrow> nat \<Rightarrow> kmem \<Rightarrow> kmem" where
  "set_slot_next a n = put_cell a (of_nat n)"

section \<open>Size classes and new pages\<close>

fun class_from :: "nat list \<Rightarrow> nat \<Rightarrow> nat \<Rightarrow> nat option" where
  "class_from [] i sz = None"
| "class_from (c # cs) i sz = (if sz \<le> c then Some i else class_from cs (Suc i) sz)"

definition size_class_for :: "nat \<Rightarrow> nat option" where
  "size_class_for sz = class_from heap_size_classes 0 sz"

definition push_slot :: "nat \<Rightarrow> nat \<Rightarrow> kmem \<Rightarrow> kmem" where
  "push_slot p a m = set_free_list p a (set_slot_next a (page_free_list m p) m)"

definition heap_new_page :: "nat \<Rightarrow> kmem \<Rightarrow> nat \<times> kmem" where
  "heap_new_page sc m =
     (case pmm_alloc 0 m of (phys, m) \<Rightarrow>
        if phys = 0 then (0, m)
        else let m = set_size_class phys (of_nat sc) m;
                 m = set_free_list phys 0 m;
                 m = set_page_next phys 0 m;
                 slot_count = (PMM_FRAME_SIZE - HEADER) div sc;
                 m = fold (\<lambda>i. push_slot phys (phys + HEADER + i * sc)) [0..<slot_count] m
             in (phys, set_meta phys (of_nat slot_count) m))"

definition heap_init :: "kmem \<Rightarrow> heap" where
  "heap_init m = \<lparr>hmem = m, class_pages = (\<lambda>_. 0)\<rparr>"

section \<open>Allocation\<close>

text \<open>The first page of a class with a free slot; 0 when there is none.\<close>

partial_function (option) find_page :: "kmem \<Rightarrow> nat \<Rightarrow> nat option" where
  [code]: "find_page m p =
     (if p \<noteq> 0 \<and> page_free_list m p = 0 then find_page m (page_next m p) else Some p)"

definition take_slot :: "nat \<Rightarrow> kmem \<Rightarrow> nat \<times> kmem" where
  "take_slot p m =
     (let slot = page_free_list m p;
          m = set_free_list p (slot_next m slot) m
      in (slot, set_meta p (page_meta m p - 1) m))"

definition class_alloc :: "nat \<Rightarrow> heap \<Rightarrow> (nat \<times> heap) option" where
  "class_alloc k s = do {
     p \<leftarrow> find_page (hmem s) (class_pages s k);
     if p \<noteq> 0
     then case take_slot p (hmem s) of (slot, m) \<Rightarrow> Some (slot, s\<lparr>hmem := m\<rparr>)
     else case heap_new_page (heap_size_classes ! k) (hmem s) of (p, m) \<Rightarrow>
       if p = 0 then Some (0, s\<lparr>hmem := m\<rparr>)
       else case take_slot p (set_page_next p (class_pages s k) m) of (slot, m) \<Rightarrow>
         Some (slot, s\<lparr>class_pages := (class_pages s)(k := p), hmem := m\<rparr>)
   }"

text \<open>The smallest order whose blocks hold that many frames; the request is below \<open>2 ^ 64\<close>, so
  orders up to 52 are tried.\<close>

definition order_for :: "nat \<Rightarrow> nat" where
  "order_for frames = length (takeWhile (\<lambda>k. 2 ^ k < frames) [0..<53])"

definition large_alloc :: "u64 \<Rightarrow> kmem \<Rightarrow> nat \<times> kmem" where
  "large_alloc sz m =
     (let needed = sz + 64;
          frames_needed = (needed + 4096 - 1) div 4096;
          order = order_for (unat frames_needed)
      in case pmm_alloc order m of (phys, m) \<Rightarrow>
        if phys = 0 then (0, m)
        else let m = set_size_class phys HEAP_LARGE_MARKER m;
                 m = set_meta phys (of_nat order) m;
                 m = set_free_list phys 0 m;
                 m = set_page_next phys 0 m
             in (phys + HEADER, m))"

definition kmalloc :: "u64 \<Rightarrow> heap \<Rightarrow> (nat \<times> heap) option" where
  "kmalloc sz s =
     (if sz = 0 then Some (0, s)
      else let sz = (if sz < 8 then 8 else sz) in
        case size_class_for (unat sz) of
          Some k \<Rightarrow> class_alloc k s
        | None \<Rightarrow> (case large_alloc sz (hmem s) of (p, m) \<Rightarrow> Some (p, s\<lparr>hmem := m\<rparr>)))"

section \<open>Freeing\<close>

definition kfree :: "nat \<Rightarrow> heap \<Rightarrow> heap" where
  "kfree ptr s =
     (if ptr = 0 then s
      else let m = hmem s; page = ptr div PMM_FRAME_SIZE * PMM_FRAME_SIZE in
        if page_size_class m page = HEAP_LARGE_MARKER
        then s\<lparr>hmem := pmm_free page (unat (page_meta m page)) m\<rparr>
        else let m = push_slot page ptr m
             in s\<lparr>hmem := set_meta page (page_meta m page + 1) m\<rparr>)"

end
