(* ===== verification/Heap_Pages.thy ===== *)
theory Heap_Pages
  imports Heap Pmm_Correct
begin

text \<open>
  One page of the heap: its header, the chain of its free slots, and what carving a new page,
  taking a slot and giving one back do to them. Writes are confined to sets of cells, so that
  what lies in other frames, the links of the frame allocator included, is kept.
\<close>

section \<open>Confined writes\<close>

definition wrote :: "nat set \<Rightarrow> kmem \<Rightarrow> kmem \<Rightarrow> bool" where
  "wrote A m m' \<longleftrightarrow> m' = m\<lparr>pmem := pmem m'\<rparr> \<and> (\<forall>x. x \<notin> A \<longrightarrow> pmem m' x = pmem m x)"

lemma wrote_refl [simp]: "wrote A m m"
  by (simp add: wrote_def)

lemma wrote_trans:
  assumes "wrote A m m'" and "wrote A m' m''"
  shows "wrote A m m''"
proof -
  have "m'' = (m\<lparr>pmem := pmem m'\<rparr>)\<lparr>pmem := pmem m''\<rparr>" using assms unfolding wrote_def by metis
  then show ?thesis using assms by (simp add: wrote_def)
qed

lemma wrote_mono: "wrote A m m' \<Longrightarrow> A \<subseteq> B \<Longrightarrow> wrote B m m'"
  by (auto simp: wrote_def)

lemma put_cell_wrote: "a \<in> A \<Longrightarrow> wrote A m (put_cell a v m)"
  by (simp add: wrote_def put_cell_def)

lemma pmem_put_cell [simp]: "pmem (put_cell a v m) x = (if x = a then v else pmem m x)"
  by (simp add: put_cell_def)

lemma wrote_frees:
  assumes "wrote A m m'"
  shows "heads m' = heads m" "range_of m' = range_of m" "free_frames m' = free_frames m"
    "frame_refcount m' = frame_refcount m" "frame_order m' = frame_order m"
    "free_lists m' = free_lists m" "total_free_frames m' = total_free_frames m"
proof -
  from assms have "m' = m\<lparr>pmem := pmem m'\<rparr>" by (simp add: wrote_def)
  then obtain g where m': "m' = m\<lparr>pmem := g\<rparr>" by blast
  show "heads m' = heads m" "range_of m' = range_of m" "free_frames m' = free_frames m"
    "frame_refcount m' = frame_refcount m" "frame_order m' = frame_order m"
    "free_lists m' = free_lists m" "total_free_frames m' = total_free_frames m"
    by (simp_all add: m' heads_def range_of_def [abs_def] free_frames_def)
qed

text \<open>Writes outside the free frames do not disturb the frame allocator.\<close>

lemma wrote_pmm_inv:
  assumes w: "wrote A m m'" and inv: "pmm_inv m" and out: "\<And>x. x \<in> A \<Longrightarrow> x div 4096 \<notin> free_frames m"
  shows "pmm_inv m'"
proof -
  note fr = wrote_frees [OF w]
  obtain ls where ls: "lists_ok m ls" using inv by (auto simp: pmm_inv_def buddy_inv_def)
  have "dls (pmem m') 0 (ls k) 0 = dls (pmem m) 0 (ls k) 0" if k: "k \<le> PMM_MAX_ORDER" for k
  proof (rule dls_cong)
    fix f assume "f \<in> set (ls k)"
    then have "frame_order m f = k" using ls k by (auto simp: lists_ok_def)
    then have "f \<in> free_frames m" using k range_nonempty [of f m] by (auto simp: free_frames_def heads_def)
    then have "addr_of f \<notin> A" "addr_of f + 8 \<notin> A" using out [of "addr_of f"] out [of "addr_of f + 8"] by auto
    then show "pmem m' (addr_of f) = pmem m (addr_of f) \<and> pmem m' (addr_of f + 8) = pmem m (addr_of f + 8)"
      using w by (simp add: wrote_def)
  qed
  then have "lists_ok m' ls" using ls by (simp add: lists_ok_def fr)
  then show ?thesis
    using inv by (auto simp: pmm_inv_def buddy_inv_def blocks_ok_def coalesced_def fr)
qed

section \<open>The header\<close>

lemma header_word:
  fixes c v :: u32
  shows "(ucast (ucast c OR push_bit 32 (ucast v) :: u64) :: u32) = c"
    and "(ucast (drop_bit 32 (ucast c OR push_bit 32 (ucast v) :: u64)) :: u32) = v"
  by (rule bit_word_eqI; auto simp: bit_simps dest: bit_imp_le_length)+

lemma set_meta_reads [simp]:
  "page_meta (set_meta p v m) p = v" "page_size_class (set_meta p v m) p = page_size_class m p"
  "x \<noteq> p + 16 \<Longrightarrow> pmem (set_meta p v m) x = pmem m x"
  by (simp_all add: page_meta_def page_size_class_def set_meta_def header_word del: drop_bit_or)

lemma set_size_class_reads [simp]:
  "page_size_class (set_size_class p c m) p = c"
  "x \<noteq> p + 16 \<Longrightarrow> pmem (set_size_class p c m) x = pmem m x"
  by (simp_all add: page_size_class_def set_size_class_def header_word)

section \<open>The chain of free slots\<close>

fun slot_chain :: "kmem \<Rightarrow> nat list \<Rightarrow> nat \<Rightarrow> bool" where
  "slot_chain m [] a \<longleftrightarrow> a = 0"
| "slot_chain m (x # xs) a \<longleftrightarrow> a = x \<and> x \<noteq> 0 \<and> slot_chain m xs (slot_next m x)"

lemma slot_chain_cong:
  "(\<And>x. x \<in> set xs \<Longrightarrow> pmem m' x = pmem m x) \<Longrightarrow> slot_chain m' xs a = slot_chain m xs a"
  by (induction xs arbitrary: a) (simp_all add: slot_next_def)

lemma set_meta_chain:
  assumes "slot_chain m fs (page_free_list m p)" and "p + 16 \<notin> set fs"
  shows "slot_chain (set_meta p v m) fs (page_free_list (set_meta p v m) p)"
proof -
  have "page_free_list (set_meta p v m) p = page_free_list m p" by (simp add: page_free_list_def)
  moreover have "slot_chain (set_meta p v m) fs a = slot_chain m fs a" for a
    by (rule slot_chain_cong) (use assms(2) in \<open>auto intro!: set_meta_reads(3)\<close>)
  ultimately show ?thesis using assms(1) by simp
qed

definition slots :: "nat \<Rightarrow> nat \<Rightarrow> nat set" where
  "slots p sc = (\<lambda>i. p + HEADER + i * sc) ` {..<(PMM_FRAME_SIZE - HEADER) div sc}"

lemma slot_bounds:
  assumes "a \<in> slots p sc"
  shows "p + 64 \<le> a" "a + sc \<le> p + 4096" "0 < sc"
proof -
  from assms obtain i where a: "a = p + 64 + i * sc" and i: "i < 4032 div sc" by (auto simp: slots_def)
  show "p + 64 \<le> a" by (simp add: a)
  show "0 < sc" using i by (cases sc) auto
  have "Suc i * sc \<le> 4032 div sc * sc" using i by (intro mult_le_mono) auto
  also have "\<dots> \<le> 4032" by simp
  finally show "a + sc \<le> p + 4096" by (simp add: a)
qed

lemma slot_page: "a \<in> slots (addr_of f) sc \<Longrightarrow> a div 4096 = f"
  using slot_bounds [of a "addr_of f" sc] by (intro div_nat_eqI) auto

lemma slots_apart:
  assumes "a \<in> slots p sc" and "b \<in> slots p sc" and "a \<noteq> b"
  shows "a + sc \<le> b \<or> b + sc \<le> a"
proof -
  obtain i j where i: "a = p + 64 + i * sc" and j: "b = p + 64 + j * sc" using assms by (auto simp: slots_def)
  consider "Suc i \<le> j" | "Suc j \<le> i" using assms(3) i j by (metis not_less_eq_eq order_antisym)
  then show ?thesis
  proof cases
    case 1
    from mult_le_mono1 [OF this, of sc] show ?thesis by (simp add: i j)
  next
    case 2
    from mult_le_mono1 [OF this, of sc] show ?thesis by (simp add: i j)
  qed
qed

section \<open>A page and its free slots\<close>

definition page_ok :: "kmem \<Rightarrow> nat \<Rightarrow> nat \<Rightarrow> nat list \<Rightarrow> bool" where
  "page_ok m p sc fs \<longleftrightarrow> page_size_class m p = of_nat sc \<and> page_meta m p = of_nat (length fs)
     \<and> slot_chain m fs (page_free_list m p) \<and> distinct fs \<and> set fs \<subseteq> slots p sc"

definition page_cells :: "nat \<Rightarrow> nat \<Rightarrow> nat set" where
  "page_cells p sc = {p + 8, p + 16} \<union> slots p sc"

lemma page_ok_cong:
  assumes "\<And>x. x \<in> page_cells p sc \<Longrightarrow> pmem m' x = pmem m x"
  shows "page_ok m' p sc fs = page_ok m p sc fs"
proof -
  have "slot_chain m' fs a = slot_chain m fs a" if "set fs \<subseteq> slots p sc" for a
    by (rule slot_chain_cong) (use assms that in \<open>auto simp: page_cells_def\<close>)
  then show ?thesis
    using assms by (auto simp: page_ok_def page_size_class_def page_meta_def page_free_list_def page_cells_def)
qed

lemma page_ok_empty: "page_ok m p sc fs \<Longrightarrow> page_free_list m p = 0 \<longleftrightarrow> fs = []"
  by (cases fs) (auto simp: page_ok_def)

text \<open>Pushing a slot of the page that is not free: the step of the carving loop and of \<open>kfree\<close>.\<close>

lemma push_slot_chain:
  assumes "slot_chain m fs (page_free_list m p)" and "set fs \<subseteq> slots p sc" and "a \<in> slots p sc" and "a \<notin> set fs"
    and "p + 4096 \<le> 2 ^ 64"
  shows "slot_chain (push_slot p a m) (a # fs) (page_free_list (push_slot p a m) p)"
    and "wrote (page_cells p sc) m (push_slot p a m)"
    and "pmem (push_slot p a m) (p + 16) = pmem m (p + 16)"
proof -
  note b = slot_bounds [OF assms(3)]
  have ne: "p + 8 \<notin> set fs" "p + 16 \<notin> set fs" using assms(2) slot_bounds(1) [of _ p sc] by force+
  have un: "unat (of_nat a :: u64) = a" using b assms(5) by (simp add: unat_of_nat)
  let ?m = "push_slot p a m"
  have mem: "pmem ?m x = (if x = p + 8 then of_nat a else if x = a then pmem m (p + 8) else pmem m x)" for x
    by (simp add: push_slot_def set_free_list_def set_slot_next_def page_free_list_def)
  have "slot_chain ?m fs (page_free_list m p) = slot_chain m fs (page_free_list m p)"
    by (rule slot_chain_cong) (use assms(4) ne in \<open>auto simp: mem\<close>)
  moreover have "slot_next ?m a = page_free_list m p" using b by (simp add: slot_next_def mem page_free_list_def)
  moreover have "page_free_list ?m p = a" by (simp add: page_free_list_def mem un)
  ultimately show "slot_chain ?m (a # fs) (page_free_list ?m p)" using assms(1) b by simp
  show "wrote (page_cells p sc) m ?m"
    using assms(3) unfolding push_slot_def set_free_list_def set_slot_next_def
    by (intro wrote_trans [OF put_cell_wrote put_cell_wrote]) (auto simp: page_cells_def)
  show "pmem ?m (p + 16) = pmem m (p + 16)" using b by (simp add: mem)
qed

lemma push_slot_ok:
  assumes "page_ok m p sc fs" and "a \<in> slots p sc" and "a \<notin> set fs" and "p + 4096 \<le> 2 ^ 64"
  defines "m' \<equiv> set_meta p (page_meta (push_slot p a m) p + 1) (push_slot p a m)"
  shows "page_ok m' p sc (a # fs) \<and> wrote (page_cells p sc) m m'"
proof -
  have ch: "slot_chain m fs (page_free_list m p)" "set fs \<subseteq> slots p sc" using assms(1) by (simp_all add: page_ok_def)
  note push = push_slot_chain [OF ch assms(2,3,4)]
  let ?n = "push_slot p a m"
  have ne: "p + 16 \<notin> set (a # fs)" using ch(2) assms(2) slot_bounds(1) [of _ p sc] by force
  have "slot_chain m' (a # fs) (page_free_list m' p)"
    using push(1) unfolding m'_def by (rule set_meta_chain [OF _ ne])
  moreover have "page_size_class m' p = of_nat sc" "page_meta m' p = of_nat (length (a # fs))"
    using assms(1) push(3) by (simp_all add: m'_def page_ok_def page_size_class_def [of ?n] page_size_class_def [of m]
        page_meta_def [of ?n] page_meta_def [of m])
  moreover have "wrote (page_cells p sc) ?n m'"
    unfolding m'_def set_meta_def by (rule put_cell_wrote) (simp add: page_cells_def)
  ultimately show ?thesis using wrote_trans [OF push(2)] assms(1,2,3) by (simp add: page_ok_def)
qed

lemma take_slot_ok:
  assumes "page_ok m p sc (a # fs)"
  shows "\<exists>m'. take_slot p m = (a, m') \<and> page_ok m' p sc fs \<and> wrote (page_cells p sc) m m'"
proof -
  have ch: "page_free_list m p = a" "slot_chain m fs (slot_next m a)" "set (a # fs) \<subseteq> slots p sc"
    using assms by (simp_all add: page_ok_def)
  have ne: "p + 8 \<notin> set fs" "p + 16 \<notin> set fs" using ch(3) slot_bounds(1) [of _ p sc] by force+
  define n where "n = set_free_list p (slot_next m a) m"
  define m' where "m' = set_meta p (page_meta n p - 1) n"
  have n: "pmem n x = (if x = p + 8 then pmem m a else pmem m x)" for x
    by (simp add: n_def set_free_list_def slot_next_def)
  have "take_slot p m = (a, m')" by (simp add: take_slot_def Let_def ch(1) m'_def n_def)
  moreover have "slot_chain n fs (page_free_list n p)"
  proof -
    have "page_free_list n p = slot_next m a" by (simp add: page_free_list_def n slot_next_def)
    moreover have "slot_chain n fs (slot_next m a) = slot_chain m fs (slot_next m a)"
      by (rule slot_chain_cong) (use ne(1) in \<open>auto simp: n\<close>)
    ultimately show ?thesis using ch(2) by simp
  qed
  then have "slot_chain m' fs (page_free_list m' p)" unfolding m'_def by (rule set_meta_chain [OF _ ne(2)])
  moreover have "page_size_class m' p = of_nat sc" "page_meta m' p = of_nat (length fs)"
    using assms by (simp_all add: m'_def page_ok_def page_size_class_def [of n] page_size_class_def [of m]
        page_meta_def [of n] page_meta_def [of m] n)
  moreover have "wrote (page_cells p sc) m n" "wrote (page_cells p sc) n m'"
    unfolding n_def m'_def set_meta_def set_free_list_def by (rule put_cell_wrote; simp add: page_cells_def)+
  ultimately show ?thesis using wrote_trans assms by (auto simp: page_ok_def)
qed

section \<open>Carving a page\<close>

lemma carve:
  assumes "page_free_list m p = 0" and "n \<le> 4032 div sc" and "p + 4096 \<le> 2 ^ 64"
  defines "m' \<equiv> fold (\<lambda>i. push_slot p (p + HEADER + i * sc)) [0..<n] m"
  shows "slot_chain m' (rev (map (\<lambda>i. p + 64 + i * sc) [0..<n])) (page_free_list m' p)
    \<and> wrote (page_cells p sc) m m' \<and> pmem m' (p + 16) = pmem m (p + 16)"
  using assms(2) unfolding m'_def
proof (induction n)
  case 0
  then show ?case using assms(1) by simp
next
  case (Suc n)
  let ?m = "fold (\<lambda>i. push_slot p (p + HEADER + i * sc)) [0..<n] m"
  let ?fs = "rev (map (\<lambda>i. p + 64 + i * sc) [0..<n])"
  have IH: "slot_chain ?m ?fs (page_free_list ?m p)" "wrote (page_cells p sc) m ?m" "pmem ?m (p + 16) = pmem m (p + 16)"
    using Suc by simp_all
  have sc: "0 < sc" using Suc.prems by (cases sc) auto
  have sub: "set ?fs \<subseteq> slots p sc" "p + 64 + n * sc \<in> slots p sc" "p + 64 + n * sc \<notin> set ?fs"
    using Suc.prems sc by (auto simp: slots_def)
  note push = push_slot_chain [OF IH(1) sub assms(3)]
  show ?case using push IH(3) wrote_trans [OF IH(2) push(2)] by simp
qed

lemma heap_new_page_ok:
  assumes "pmm_alloc 0 m0 = (p, m)" and "p \<noteq> 0" and "0 < sc" and "p + 4096 \<le> 2 ^ 64"
  shows "\<exists>m' fs. heap_new_page sc m0 = (p, m') \<and> page_ok m' p sc fs \<and> set fs = slots p sc
    \<and> wrote (insert p (page_cells p sc)) m m'"
proof -
  define m1 where "m1 = set_page_next p 0 (set_free_list p 0 (set_size_class p (of_nat sc) m))"
  define n where "n = 4032 div sc"
  define m2 where "m2 = fold (\<lambda>i. push_slot p (p + HEADER + i * sc)) [0..<n] m1"
  define m' where "m' = set_meta p (of_nat n) m2"
  let ?fs = "rev (map (\<lambda>i. p + 64 + i * sc) [0..<n])" and ?A = "insert p (page_cells p sc)"
  have eq: "heap_new_page sc m0 = (p, m')"
    using assms(1,2) by (simp add: heap_new_page_def Let_def m'_def m2_def m1_def n_def)
  have f0: "page_free_list m1 p = 0" "pmem m1 (p + 16) = pmem (set_size_class p (of_nat sc) m) (p + 16)"
    by (simp_all add: m1_def set_page_next_def set_free_list_def page_free_list_def)
  have c: "slot_chain m2 ?fs (page_free_list m2 p)" "wrote (page_cells p sc) m1 m2" "pmem m2 (p + 16) = pmem m1 (p + 16)"
    using carve [OF f0(1), of n sc] assms(4) by (simp_all add: m2_def n_def)
  have sl: "set ?fs = slots p sc" by (auto simp: slots_def n_def)
  have ne: "p + 16 \<notin> set ?fs" unfolding sl using slot_bounds(1) [of "p + 16" p sc] by auto
  have "slot_chain m' ?fs (page_free_list m' p)"
    using c(1) unfolding m'_def by (rule set_meta_chain [OF _ ne])
  moreover have "page_size_class m2 p = of_nat sc"
    using set_size_class_reads(1) [of p "of_nat sc" m] c(3) f0(2) by (simp add: page_size_class_def)
  moreover have "distinct ?fs" using assms(3) by (simp add: distinct_map inj_on_def)
  ultimately have "page_ok m' p sc ?fs" using sl by (simp add: page_ok_def m'_def)
  moreover have "wrote ?A m m1"
    unfolding m1_def set_page_next_def set_free_list_def set_size_class_def
    by (intro wrote_trans [OF wrote_trans [OF put_cell_wrote put_cell_wrote] put_cell_wrote]) (simp_all add: page_cells_def)
  moreover have "wrote ?A m1 m2" by (rule wrote_mono [OF c(2)]) auto
  moreover have "wrote ?A m2 m'" unfolding m'_def set_meta_def by (rule put_cell_wrote) (simp add: page_cells_def)
  ultimately show ?thesis using eq sl wrote_trans by blast
qed

end
