(* ===== verification/Heap_Correct.thy ===== *)
theory Heap_Correct
  imports Heap_Pages
begin

text \<open>
  The heap as a whole: the pages of every size class with their free slots, over a sound frame
  allocator. The blocks in use are the slots of heap pages that are on no free list; \<open>kmalloc\<close> adds
  one that overlaps no other, \<open>kfree\<close> removes exactly the one it is given.
\<close>

section \<open>The invariant\<close>

type_synonym pages = "nat \<Rightarrow> (nat \<times> nat list) list"

abbreviation cls :: "nat \<Rightarrow> nat" where
  "cls k \<equiv> heap_size_classes ! k"

fun page_chain :: "kmem \<Rightarrow> nat \<Rightarrow> (nat \<times> nat list) list \<Rightarrow> bool" where
  "page_chain m a [] \<longleftrightarrow> a = 0"
| "page_chain m a (x # ps) \<longleftrightarrow> a = addr_of (fst x) \<and> page_chain m (page_next m a) ps"

text \<open>\<open>pg k\<close> lists the pages of class \<open>k\<close>: the frame of each and its free slots.\<close>

definition heap_ok :: "heap \<Rightarrow> pages \<Rightarrow> bool" where
  "heap_ok s pg \<longleftrightarrow> pmm_inv (hmem s)
     \<and> (\<forall>k < 8. page_chain (hmem s) (class_pages s k) (pg k) \<and> distinct (map fst (pg k))
          \<and> (\<forall>x \<in> set (pg k). page_ok (hmem s) (addr_of (fst x)) (cls k) (snd x)
               \<and> fst x \<notin> free_frames (hmem s) \<and> 0 < fst x \<and> fst x < PMM_MAX_FRAMES))
     \<and> (\<forall>k < 8. \<forall>j < 8. k \<noteq> j \<longrightarrow> fst ` set (pg k) \<inter> fst ` set (pg j) = {})"

definition page_use :: "nat \<Rightarrow> nat \<times> nat list \<Rightarrow> (nat \<times> nat) set" where
  "page_use k x = (\<lambda>a. (a, cls k)) ` (slots (addr_of (fst x)) (cls k) - set (snd x))"

text \<open>The blocks in use, by address and size.\<close>

definition in_use :: "pages \<Rightarrow> (nat \<times> nat) set" where
  "in_use pg = (\<Union>k \<in> {..<8}. \<Union>x \<in> set (pg k). page_use k x)"

lemma cls_pos: "k < 8 \<Longrightarrow> 16 \<le> cls k \<and> cls k \<le> 2048 \<and> 16 dvd cls k"
proof -
  assume "k < 8"
  then have "cls k \<in> set heap_size_classes" by (intro nth_mem) (simp add: heap_size_classes_def)
  moreover have "\<forall>c \<in> set heap_size_classes. 16 \<le> c \<and> c \<le> 2048 \<and> 16 dvd c" by (simp add: heap_size_classes_def)
  ultimately show ?thesis by blast
qed

lemma page_chain_cong:
  "\<forall>x \<in> set ps. pmem m' (addr_of (fst x)) = pmem m (addr_of (fst x)) \<Longrightarrow>
     page_chain m' a ps = page_chain m a ps"
  by (induction ps arbitrary: a) (auto simp: page_next_def)

lemma page_chain_split:
  "page_chain m a (us @ (f, fs) # vs) = page_chain m a (us @ (f, fs') # vs)"
  by (induction us arbitrary: a) simp_all

lemma page_cells_frame: "x \<in> page_cells (addr_of f) sc \<Longrightarrow> x div 4096 = f \<and> x \<noteq> addr_of g"
proof -
  assume x: "x \<in> page_cells (addr_of f) sc"
  then have b: "addr_of f < x" "x < addr_of f + 4096"
    using slot_bounds [of x "addr_of f" sc] by (auto simp: page_cells_def)
  then have "x div 4096 = f" by (intro div_nat_eqI) auto
  then show ?thesis using b by auto
qed

section \<open>Changing the free slots of one page\<close>

lemma heap_ok_upd:
  assumes ok: "heap_ok s pg" and k: "k < 8" and pg: "pg k = us @ (f, fs) # vs"
    and w: "wrote (page_cells (addr_of f) (cls k)) (hmem s) m'" and p: "page_ok m' (addr_of f) (cls k) fs'"
  shows "heap_ok (s\<lparr>hmem := m'\<rparr>) (pg(k := us @ (f, fs') # vs))"
proof -
  let ?pg = "pg(k := us @ (f, fs') # vs)" and ?m = "hmem s"
  have same: "pmem m' x = pmem ?m x" if "x \<notin> page_cells (addr_of f) (cls k)" for x
    using w that by (simp add: wrote_def)
  have fr: "fst ` set (?pg j) = fst ` set (pg j)" "map fst (?pg j) = map fst (pg j)" for j by (simp_all add: pg)
  have f: "f \<notin> free_frames ?m" "0 < f" "f < PMM_MAX_FRAMES" using ok k pg by (auto simp: heap_ok_def)
  have inv: "pmm_inv m'"
    by (rule wrote_pmm_inv [OF w]) (use ok f(1) in \<open>auto simp: heap_ok_def dest!: page_cells_frame\<close>)
  note free = wrote_frees(3) [OF w]
  have chain: "page_chain m' (class_pages s j) (?pg j)" if "j < 8" for j
  proof -
    have "page_chain m' (class_pages s j) (pg j) = page_chain ?m (class_pages s j) (pg j)"
      by (rule page_chain_cong) (use same page_cells_frame in blast)
    then show ?thesis using ok that k pg page_chain_split [of m' _ us f fs vs fs'] by (auto simp: heap_ok_def)
  qed
  have page: "page_ok m' (addr_of (fst x)) (cls j) (snd x) \<and> fst x \<notin> free_frames m' \<and> 0 < fst x \<and> fst x < PMM_MAX_FRAMES"
    if j: "j < 8" and x: "x \<in> set (?pg j)" for j x
  proof (cases "fst x = f")
    case True
    have "f \<in> fst ` set (pg j)" "f \<in> fst ` set (pg k)" using x True fr(1) [of j] pg by force+
    moreover have "j \<noteq> k \<longrightarrow> fst ` set (pg j) \<inter> fst ` set (pg k) = {}" using ok j k unfolding heap_ok_def by blast
    ultimately have "j = k" by blast
    have "distinct (map fst (pg k))" using ok k unfolding heap_ok_def by blast
    then have "f \<notin> fst ` set us" "f \<notin> fst ` set vs" by (simp_all add: pg)
    then have "x = (f, fs')" using x True \<open>j = k\<close> by (auto intro: rev_image_eqI)
    then show ?thesis using p f free \<open>j = k\<close> by simp
  next
    case False
    then have x': "x \<in> set (pg j)" using x pg by (auto split: if_splits)
    have out: "y \<notin> page_cells (addr_of f) (cls k)" if "y \<in> page_cells (addr_of (fst x)) (cls j)" for y
      using page_cells_frame [OF that] page_cells_frame [of y f "cls k"] False by auto
    have "page_ok m' (addr_of (fst x)) (cls j) (snd x) = page_ok ?m (addr_of (fst x)) (cls j) (snd x)"
      by (rule page_ok_cong, rule same, rule out)
    moreover have "page_ok ?m (addr_of (fst x)) (cls j) (snd x) \<and> fst x \<notin> free_frames ?m \<and> 0 < fst x
        \<and> fst x < PMM_MAX_FRAMES" using ok j x' unfolding heap_ok_def by blast
    ultimately show ?thesis using free by simp
  qed
  show ?thesis unfolding heap_ok_def using inv chain page ok fr by (simp add: heap_ok_def)
qed

section \<open>Adding a page\<close>

lemma heap_ok_new:
  assumes ok: "heap_ok s pg" and k: "k < 8" and inv: "pmm_inv m'"
    and f: "f \<in> free_frames (hmem s)" "free_frames m' = free_frames (hmem s) - {f}"
    and same: "\<And>x. x div 4096 \<notin> free_frames (hmem s) \<Longrightarrow> pmem m' x = pmem (hmem s) x"
    and p: "page_ok m' (addr_of f) (cls k) fs" and nx: "page_next m' (addr_of f) = class_pages s k"
  shows "heap_ok (s\<lparr>hmem := m', class_pages := (class_pages s)(k := addr_of f)\<rparr>) (pg(k := (f, fs) # pg k))"
proof -
  let ?m = "hmem s"
  have bi: "0 < f" "f < PMM_MAX_FRAMES" using f(1) ok free_bound [of ?m] by (auto simp: heap_ok_def pmm_inv_def)
  have held: "fst x \<notin> free_frames ?m" "0 < fst x" "fst x < PMM_MAX_FRAMES"
      "page_ok ?m (addr_of (fst x)) (cls j) (snd x)" if "j < 8" "x \<in> set (pg j)" for j x
    using ok that by (auto simp: heap_ok_def)
  have chain: "page_chain m' (class_pages s j) (pg j)" if "j < 8" for j
  proof -
    have "page_chain m' (class_pages s j) (pg j) = page_chain ?m (class_pages s j) (pg j)"
      by (rule page_chain_cong) (use same held(1) that in auto)
    then show ?thesis using ok that by (simp add: heap_ok_def)
  qed
  have page: "page_ok m' (addr_of (fst x)) (cls j) (snd x)" if "j < 8" "x \<in> set (pg j)" for j x
  proof -
    have "page_ok m' (addr_of (fst x)) (cls j) (snd x) = page_ok ?m (addr_of (fst x)) (cls j) (snd x)"
      by (rule page_ok_cong) (use same held(1) [OF that] page_cells_frame in metis)
    then show ?thesis using held(4) [OF that] by simp
  qed
  have new: "f \<notin> fst ` set (pg j)" if "j < 8" for j using held(1) [OF that] f(1) by auto
  show ?thesis
    unfolding heap_ok_def
  proof (intro conjI allI impI)
    show "pmm_inv (hmem (s\<lparr>hmem := m', class_pages := (class_pages s)(k := addr_of f)\<rparr>))" using inv by simp
  next
    fix j assume j: "j < (8 :: nat)"
    let ?s = "s\<lparr>hmem := m', class_pages := (class_pages s)(k := addr_of f)\<rparr>" and ?pg = "pg(k := (f, fs) # pg k)"
    show "page_chain (hmem ?s) (class_pages ?s j) (?pg j)" using chain [OF j] chain [OF k] nx by simp
    show "distinct (map fst (?pg j))" using ok j new [OF k] by (simp add: heap_ok_def)
    show "\<forall>x \<in> set (?pg j). page_ok (hmem ?s) (addr_of (fst x)) (cls j) (snd x) \<and> fst x \<notin> free_frames (hmem ?s)
        \<and> 0 < fst x \<and> fst x < PMM_MAX_FRAMES"
      using page [OF j] held [OF j] p f(2) bi by auto
  next
    fix i j assume "i < (8 :: nat)" "j < (8 :: nat)" "i \<noteq> j"
    then show "fst ` set ((pg(k := (f, fs) # pg k)) i) \<inter> fst ` set ((pg(k := (f, fs) # pg k)) j) = {}"
      using ok new by (auto simp: heap_ok_def)
  qed
qed

section \<open>Allocating from a class\<close>

lemma find_page_ok:
  assumes "page_chain m a ps" and "\<And>x. x \<in> set ps \<Longrightarrow> page_ok m (addr_of (fst x)) sc (snd x) \<and> 0 < fst x"
  shows "find_page m a = Some (case find (\<lambda>x. snd x \<noteq> []) ps of None \<Rightarrow> 0 | Some x \<Rightarrow> addr_of (fst x))"
  using assms
proof (induction ps arbitrary: a)
  case Nil
  then show ?case by (subst find_page.simps) simp
next
  case (Cons x ps)
  have "page_free_list m a = 0 \<longleftrightarrow> snd x = []" "a \<noteq> 0"
    using Cons.prems page_ok_empty [of m a sc "snd x"] by auto
  moreover have "find_page m (page_next m a)
      = Some (case find (\<lambda>x. snd x \<noteq> []) ps of None \<Rightarrow> 0 | Some x \<Rightarrow> addr_of (fst x))"
    by (rule Cons.IH) (use Cons.prems in auto)
  ultimately show ?case using Cons.prems(1) by (subst find_page.simps) simp
qed

text \<open>Giving the slot \<open>a\<close> of class \<open>k\<close> out: the invariant holds of pages in which \<open>a\<close> is the only
  slot that left the free lists.\<close>

definition gives :: "nat \<Rightarrow> nat \<Rightarrow> heap \<Rightarrow> pages \<Rightarrow> pages \<Rightarrow> bool" where
  "gives k a s' pg pg' \<longleftrightarrow> heap_ok s' pg' \<and> (a, cls k) \<notin> in_use pg \<and> in_use pg' = insert (a, cls k) (in_use pg)
     \<and> a \<noteq> 0"

lemma slot_owner:
  assumes ok: "heap_ok s pg" and k: "k < 8" "x \<in> set (pg k)" "a \<in> slots (addr_of (fst x)) (cls k)"
    and j: "j < 8" "y \<in> set (pg j)" "a \<in> slots (addr_of (fst y)) (cls j)"
  shows "j = k \<and> y = x"
proof -
  have f: "fst x = fst y" using slot_page [OF k(3)] slot_page [OF j(3)] by simp
  have "j \<noteq> k \<longrightarrow> fst ` set (pg j) \<inter> fst ` set (pg k) = {}" using ok j(1) k(1) unfolding heap_ok_def by blast
  then have "j = k" using f k(2) j(2) by (metis IntI empty_iff image_eqI)
  moreover have "distinct (map fst (pg k))" using ok k(1) unfolding heap_ok_def by blast
  ultimately show ?thesis using f k(2) j(2) by (metis eq_key_imp_eq_value prod.collapse)
qed

lemma in_use_iff:
  assumes ok: "heap_ok s pg" and k: "k < 8" "x \<in> set (pg k)" "a \<in> slots (addr_of (fst x)) (cls k)"
  shows "(a, n) \<in> in_use pg \<longleftrightarrow> n = cls k \<and> a \<notin> set (snd x)"
proof
  assume "(a, n) \<in> in_use pg"
  then obtain j y where j: "j < 8" "y \<in> set (pg j)" "a \<in> slots (addr_of (fst y)) (cls j)" "n = cls j" "a \<notin> set (snd y)"
    by (auto simp: in_use_def page_use_def)
  then show "n = cls k \<and> a \<notin> set (snd x)" using slot_owner [OF ok k j(1-3)] by simp
next
  assume "n = cls k \<and> a \<notin> set (snd x)"
  then show "(a, n) \<in> in_use pg" using k by (force simp: in_use_def page_use_def)
qed

lemma in_use_upd:
  assumes "k < 8"
  shows "in_use (pg(k := ps)) = (\<Union>x \<in> set ps. page_use k x) \<union> (\<Union>j \<in> {..<8} - {k}. \<Union>x \<in> set (pg j). page_use j x)"
proof -
  let ?u = "\<lambda>j. \<Union>x \<in> set ((pg(k := ps)) j). page_use j x"
  have "{..<8} = insert k ({..<8} - {k})" using assms by auto
  then have "in_use (pg(k := ps)) = \<Union> (?u ` insert k ({..<8} - {k}))" unfolding in_use_def by (rule arg_cong)
  also have "\<dots> = ?u k \<union> \<Union> (?u ` ({..<8} - {k}))" by (rule UN_insert)
  also have "\<Union> (?u ` ({..<8} - {k})) = (\<Union>j \<in> {..<8} - {k}. \<Union>x \<in> set (pg j). page_use j x)"
    by (rule SUP_cong) auto
  finally show ?thesis by (simp only: fun_upd_same)
qed

lemma in_use_split: "k < 8 \<Longrightarrow> in_use (pg(k := us @ x # vs)) = page_use k x \<union> in_use (pg(k := us @ vs))"
  by (simp only: in_use_upd) auto

lemma in_use_take:
  assumes "k < 8" and "a \<in> slots (addr_of f) (cls k)" and "a \<notin> set fs"
  shows "in_use (pg(k := us @ (f, fs) # vs)) = insert (a, cls k) (in_use (pg(k := us @ (f, a # fs) # vs)))"
proof -
  have "page_use k (f, fs) = insert (a, cls k) (page_use k (f, a # fs))"
    using assms(2,3) by (auto simp: page_use_def)
  then show ?thesis by (simp add: in_use_split [OF assms(1)])
qed

lemma take_gives:
  assumes ok: "heap_ok s pg" and k: "k < 8" and pg: "pg k = us @ (f, a # fs) # vs"
  shows "\<exists>m' pg'. take_slot (addr_of f) (hmem s) = (a, m') \<and> gives k a (s\<lparr>hmem := m'\<rparr>) pg pg'"
proof -
  have p: "page_ok (hmem s) (addr_of f) (cls k) (a # fs)" "0 < f" using ok k pg by (auto simp: heap_ok_def)
  then have a: "a \<in> slots (addr_of f) (cls k)" "a \<notin> set fs" by (auto simp: page_ok_def)
  obtain m' where m': "take_slot (addr_of f) (hmem s) = (a, m')" "page_ok m' (addr_of f) (cls k) fs"
      "wrote (page_cells (addr_of f) (cls k)) (hmem s) m'"
    using take_slot_ok [OF p(1)] by blast
  let ?pg = "pg(k := us @ (f, fs) # vs)"
  have "heap_ok (s\<lparr>hmem := m'\<rparr>) ?pg" by (rule heap_ok_upd [OF ok k pg m'(3,2)])
  moreover have "in_use ?pg = insert (a, cls k) (in_use pg)"
    using in_use_take [OF k a, of pg us vs] pg by (metis fun_upd_triv)
  moreover have "(a, cls k) \<notin> in_use pg" using in_use_iff [OF ok k, of "(f, a # fs)" a] pg a by simp
  moreover have "a \<noteq> 0" using slot_bounds(1) [OF a(1)] by simp
  ultimately show ?thesis using m'(1) unfolding gives_def by blast
qed

text \<open>A new page at the front of its class.\<close>

lemma class_head_bound: "heap_ok s pg \<Longrightarrow> k < 8 \<Longrightarrow> class_pages s k < 2 ^ 32"
  by (cases "pg k") (auto simp: heap_ok_def)

lemma frame_alloc_cases:
  assumes "pmm_inv m0"
  shows "pmm_alloc 0 m0 = (0, m0) \<and> free_frames m0 = {}
    \<or> (\<exists>f m. pmm_alloc 0 m0 = (addr_of f, m) \<and> pmm_inv m \<and> allocated f 0 m0 m)"
proof (cases "find_order (free_lists m0) 0 \<le> PMM_MAX_ORDER")
  case True
  then show ?thesis using pmm_alloc_gives [OF assms True] by simp
next
  case False
  then have "\<not> (\<exists>r :: nat. 2 ^ 0 dvd r \<and> {r..<r + 2 ^ 0} \<subseteq> free_frames m0)"
    by (intro pmm_alloc_fails [OF assms]) simp_all
  then have "free_frames m0 = {}" by auto
  then show ?thesis using False by (simp add: pmm_alloc_def)
qed

lemma new_page_ok:
  assumes ok: "heap_ok s pg" and k: "k < 8"
    and al: "pmm_alloc 0 (hmem s) = (addr_of f, m1)" "pmm_inv m1" "allocated f 0 (hmem s) m1"
  shows "\<exists>m fs. heap_new_page (cls k) (hmem s) = (addr_of f, m) \<and> set fs = slots (addr_of f) (cls k) \<and> 0 < f
    \<and> heap_ok (s\<lparr>hmem := set_page_next (addr_of f) (class_pages s k) m, class_pages := (class_pages s)(k := addr_of f)\<rparr>)
        (pg(k := (f, fs) # pg k))"
proof -
  let ?p = "addr_of f" and ?m0 = "hmem s"
  let ?A = "insert ?p (page_cells ?p (cls k))"
  have f: "0 < f" "f < PMM_MAX_FRAMES" "f \<in> free_frames ?m0" "free_frames m1 = free_frames ?m0 - {f}"
    using al(3) by (auto simp: allocated_def fits_block_def)
  then have p: "?p \<noteq> 0" "?p + 4096 \<le> 2 ^ 64" by simp_all
  obtain m fs where m: "heap_new_page (cls k) ?m0 = (?p, m)" "page_ok m ?p (cls k) fs" "set fs = slots ?p (cls k)"
      "wrote ?A m1 m"
    using heap_new_page_ok [OF al(1) p(1) _ p(2), of "cls k"] cls_pos [OF k] by auto
  define n where "n = set_page_next ?p (class_pages s k) m"
  have inA: "x div 4096 = f" if "x \<in> ?A" for x using that page_cells_frame [of x f "cls k"] by auto
  have "wrote ?A m n" unfolding n_def set_page_next_def by (rule put_cell_wrote) simp
  then have w: "wrote ?A m1 n" by (rule wrote_trans [OF m(4)])
  have "heap_ok (s\<lparr>hmem := n, class_pages := (class_pages s)(k := ?p)\<rparr>) (pg(k := (f, fs) # pg k))"
  proof (rule heap_ok_new [OF ok k _ f(3)])
    show "pmm_inv n" by (rule wrote_pmm_inv [OF w al(2)]) (use inA f(4) in auto)
    show "free_frames n = free_frames ?m0 - {f}" using wrote_frees(3) [OF w] f(4) by simp
    show "pmem n x = pmem ?m0 x" if x: "x div 4096 \<notin> free_frames ?m0" for x
    proof -
      have "x \<notin> ?A" using inA [of x] x f(3) by (metis (no_types))
      then have "pmem n x = pmem m1 x" using w unfolding wrote_def by blast
      moreover have "x \<notin> link_cells (free_frames ?m0)" using x by (auto simp: link_cells_def)
      ultimately show ?thesis using al(3) by (simp add: allocated_def)
    qed
    have "page_ok n ?p (cls k) fs = page_ok m ?p (cls k) fs"
      by (rule page_ok_cong) (use page_cells_frame in \<open>auto simp: n_def set_page_next_def\<close>)
    then show "page_ok n ?p (cls k) fs" using m(2) by simp
    show "page_next n ?p = class_pages s k"
      using class_head_bound [OF ok k] by (simp add: n_def set_page_next_def page_next_def unat_of_nat)
  qed
  then show ?thesis using m f unfolding n_def by blast
qed

lemma new_page_use:
  "k < 8 \<Longrightarrow> set fs = slots (addr_of f) (cls k) \<Longrightarrow> in_use (pg(k := (f, fs) # pg k)) = in_use pg"
  using in_use_split [of k pg "[]" "(f, fs)" "pg k"] by (simp add: page_use_def)

lemma slots_nonempty: "k < 8 \<Longrightarrow> slots p (cls k) \<noteq> {}"
proof -
  assume "k < 8"
  then have "0 < 4032 div cls k" using cls_pos [of k] by (simp add: div_greater_zero_iff)
  then show ?thesis by (auto simp: slots_def lessThan_empty_iff)
qed

lemma class_alloc_ok:
  assumes ok: "heap_ok s pg" and k: "k < 8"
  shows "\<exists>a s'. class_alloc k s = Some (a, s')
    \<and> (a = 0 \<and> s' = s \<and> free_frames (hmem s) = {} \<or> (\<exists>pg'. gives k a s' pg pg'))"
proof -
  have fp: "find_page (hmem s) (class_pages s k)
      = Some (case find (\<lambda>x. snd x \<noteq> []) (pg k) of None \<Rightarrow> 0 | Some x \<Rightarrow> addr_of (fst x))"
    by (rule find_page_ok [of _ _ _ "cls k"]) (use ok k in \<open>auto simp: heap_ok_def\<close>)
  show ?thesis
  proof (cases "find (\<lambda>x. snd x \<noteq> []) (pg k)")
    case (Some x)
    then obtain i where "i < length (pg k)" "pg k ! i = x" "snd x \<noteq> []" by (auto simp: find_Some_iff)
    then obtain us f a fs vs where pg: "pg k = us @ (f, a # fs) # vs" "x = (f, a # fs)"
      by (metis id_take_nth_drop neq_Nil_conv prod.collapse)
    have "0 < f" using ok k pg by (auto simp: heap_ok_def)
    then show ?thesis using take_gives [OF ok k pg(1)] fp Some pg(2) by (auto simp: class_alloc_def)
  next
    case None
    from ok have "pmm_inv (hmem s)" by (simp add: heap_ok_def)
    from frame_alloc_cases [OF this] show ?thesis
    proof (elim disjE exE conjE)
      assume "pmm_alloc 0 (hmem s) = (0, hmem s)" "free_frames (hmem s) = {}"
      then show ?thesis using fp None by (simp add: class_alloc_def heap_new_page_def)
    next
      fix f m1 assume "pmm_alloc 0 (hmem s) = (addr_of f, m1)" "pmm_inv m1" "allocated f 0 (hmem s) m1"
      from new_page_ok [OF ok k this] obtain m fs where
        m: "heap_new_page (cls k) (hmem s) = (addr_of f, m)" "set fs = slots (addr_of f) (cls k)" "0 < f"
          "heap_ok (s\<lparr>hmem := set_page_next (addr_of f) (class_pages s k) m,
             class_pages := (class_pages s)(k := addr_of f)\<rparr>) (pg(k := (f, fs) # pg k))" by blast
      obtain a fs' where fs: "fs = a # fs'" using slots_nonempty [OF k] m(2) by (cases fs) auto
      from take_gives [OF m(4) k, of "[]" f a fs' "pg k"] fs show ?thesis
        using fp None m(1,3) new_page_use [OF k m(2)] by (auto simp: class_alloc_def gives_def)
    qed
  qed
qed

section \<open>Disjoint blocks\<close>

lemma in_use_apart:
  assumes ok: "heap_ok s pg" and a: "(a, n) \<in> in_use pg" and b: "(b, l) \<in> in_use pg" and ne: "(a, n) \<noteq> (b, l)"
  shows "a + n \<le> b \<or> b + l \<le> a"
proof -
  obtain k x where k: "k < 8" "x \<in> set (pg k)" "a \<in> slots (addr_of (fst x)) (cls k)" "n = cls k"
    using a by (auto simp: in_use_def page_use_def)
  obtain j y where j: "j < 8" "y \<in> set (pg j)" "b \<in> slots (addr_of (fst y)) (cls j)" "l = cls j"
    using b by (auto simp: in_use_def page_use_def)
  show ?thesis
  proof (cases "fst x = fst y")
    case True
    have "j \<noteq> k \<longrightarrow> fst ` set (pg j) \<inter> fst ` set (pg k) = {}" using ok j(1) k(1) unfolding heap_ok_def by blast
    then have "j = k" using True k(2) j(2) by (metis IntI empty_iff image_eqI)
    then show ?thesis using slots_apart [OF k(3)] j(3,4) k(4) True ne by auto
  next
    case False
    then consider "addr_of (fst x) + 4096 \<le> addr_of (fst y)" | "addr_of (fst y) + 4096 \<le> addr_of (fst x)" by linarith
    then show ?thesis using slot_bounds [OF k(3)] slot_bounds [OF j(3)] k(4) j(4) by cases auto
  qed
qed

lemma slot_aligned: "k < 8 \<Longrightarrow> a \<in> slots (addr_of f) (cls k) \<Longrightarrow> 16 dvd a"
  using cls_pos [of k] by (auto simp: slots_def)

lemma size_class_for_fits: "n \<le> 2048 \<Longrightarrow> \<exists>k < 8. size_class_for n = Some k \<and> n \<le> cls k"
  by (simp add: size_class_for_def heap_size_classes_def)

lemma kmalloc_ok:
  assumes ok: "heap_ok s pg" and sz: "0 < sz" "sz \<le> 2048"
  shows "\<exists>a s'. kmalloc sz s = Some (a, s') \<and> (a = 0 \<and> s' = s \<and> free_frames (hmem s) = {}
    \<or> (\<exists>pg' n. heap_ok s' pg' \<and> (a, n) \<notin> in_use pg \<and> in_use pg' = insert (a, n) (in_use pg) \<and> unat sz \<le> n \<and> a \<noteq> 0 \<and> 16 dvd a))"
proof -
  let ?sz = "if sz < 8 then 8 else sz"
  have "unat ?sz \<le> 2048" "unat sz \<le> unat ?sz" using sz(2) by (auto simp: word_le_nat_alt word_less_nat_alt)
  then obtain k where k: "k < 8" "size_class_for (unat ?sz) = Some k" "unat sz \<le> cls k"
    using size_class_for_fits [of "unat ?sz"] le_trans by blast
  have eq: "kmalloc sz s = class_alloc k s" using sz(1) k(2) by (auto simp: kmalloc_def Let_def)
  have al: "16 dvd a" if "gives k a s' pg pg'" for a s' pg'
  proof -
    have "(a, cls k) \<in> in_use pg'" using that by (simp add: gives_def)
    then show ?thesis using slot_aligned by (auto simp: in_use_def page_use_def)
  qed
  show ?thesis unfolding eq using class_alloc_ok [OF ok k(1)] al k(3) unfolding gives_def by blast
qed

section \<open>Properties\<close>

text \<open>C17: a request of at most 2048 bytes either fails, and then leaves the heap alone and no frame is
  free, or returns a 16-byte aligned block at least as large as the request that overlaps no block in
  use; the heap, with the links it keeps in physical memory beside those of the frame allocator, stays
  sound and exactly that block is in use in addition.\<close>

theorem kmalloc_correct:
  assumes "heap_ok s pg" and "0 < sz" and "sz \<le> 2048"
  shows "\<exists>a s'. kmalloc sz s = Some (a, s') \<and> (a = 0 \<and> s' = s \<and> free_frames (hmem s) = {}
    \<or> (\<exists>pg' n. heap_ok s' pg' \<and> in_use pg' = insert (a, n) (in_use pg) \<and> unat sz \<le> n \<and> a \<noteq> 0 \<and> 16 dvd a
         \<and> (\<forall>(b, l) \<in> in_use pg. a + n \<le> b \<or> b + l \<le> a)))"
proof -
  have apart: "\<forall>(b, l) \<in> in_use pg. a + n \<le> b \<or> b + l \<le> a"
    if "heap_ok s' pg'" "in_use pg' = insert (a, n) (in_use pg)" "(a, n) \<notin> in_use pg" for s' pg' a n
    using in_use_apart [OF that(1), of a n] that(2,3) by auto
  show ?thesis using kmalloc_ok [OF assms] apart by blast
qed

lemma small_heap_ok: "heap_ok (heap_init small_mem) (\<lambda>_. [])" "in_use (\<lambda>_. []) = {}"
  using small_mem_ok by (simp_all add: heap_ok_def heap_init_def in_use_def)

theorem kmalloc_correct_witness:
  "\<exists>a s' pg'. kmalloc 40 (heap_init small_mem) = Some (a, s') \<and> a \<noteq> 0 \<and> heap_ok s' pg'"
proof -
  have "free_frames (hmem (heap_init small_mem)) \<noteq> {}" by (simp add: heap_init_def small_mem_ok)
  then show ?thesis using kmalloc_correct [OF small_heap_ok(1), of 40] by auto
qed

text \<open>C18: freeing a block in use keeps the heap sound and takes exactly that block out of use.\<close>

theorem kfree_correct:
  assumes ok: "heap_ok s pg" and a: "(a, n) \<in> in_use pg"
  shows "\<exists>pg'. heap_ok (kfree a s) pg' \<and> in_use pg' = in_use pg - {(a, n)}"
proof -
  obtain k f fs where k: "k < 8" "(f, fs) \<in> set (pg k)" "a \<in> slots (addr_of f) (cls k)" "n = cls k" "a \<notin> set fs"
    using a by (auto simp: in_use_def page_use_def)
  obtain us vs where pg: "pg k = us @ (f, fs) # vs" using k(2) by (auto simp: in_set_conv_decomp)
  have p: "page_ok (hmem s) (addr_of f) (cls k) fs" "f < PMM_MAX_FRAMES" using ok k(1) pg by (auto simp: heap_ok_def)
  define m' where "m' = set_meta (addr_of f) (page_meta (push_slot (addr_of f) a (hmem s)) (addr_of f) + 1)
    (push_slot (addr_of f) a (hmem s))"
  have "(of_nat (cls k) :: u32) \<noteq> 0xFFFFFFFF"
  proof
    assume "(of_nat (cls k) :: u32) = 0xFFFFFFFF"
    then have "unat (of_nat (cls k) :: u32) = unat (0xFFFFFFFF :: u32)" by (rule arg_cong)
    then show False using cls_pos [OF k(1)] by (simp add: unat_of_nat)
  qed
  then have eq: "kfree a s = s\<lparr>hmem := m'\<rparr>"
    using p(1) slot_page [OF k(3)] slot_bounds(1) [OF k(3)] by (simp add: kfree_def Let_def m'_def page_ok_def)
  have push: "page_ok m' (addr_of f) (cls k) (a # fs)" "wrote (page_cells (addr_of f) (cls k)) (hmem s) m'"
    using push_slot_ok [OF p(1) k(3,5)] p(2) unfolding m'_def by simp_all
  let ?pg = "pg(k := us @ (f, a # fs) # vs)"
  have ok': "heap_ok (kfree a s) ?pg" unfolding eq by (rule heap_ok_upd [OF ok k(1) pg push(2,1)])
  have "in_use pg = insert (a, cls k) (in_use ?pg)"
    using in_use_take [OF k(1,3,5), of pg us vs] pg by (metis fun_upd_triv)
  moreover have "(a, cls k) \<notin> in_use ?pg" using in_use_iff [OF ok' k(1), of "(f, a # fs)" a] k(3) by simp
  ultimately show ?thesis using ok' k(4) by blast
qed

theorem kfree_correct_witness:
  "\<exists>a s' pg'. kmalloc 40 (heap_init small_mem) = Some (a, s') \<and> heap_ok (kfree a s') pg' \<and> in_use pg' = {}"
proof -
  have "free_frames (hmem (heap_init small_mem)) \<noteq> {}" by (simp add: heap_init_def small_mem_ok)
  then obtain a s' pg n where "kmalloc 40 (heap_init small_mem) = Some (a, s')" "heap_ok s' pg" "in_use pg = {(a, n)}"
    using kmalloc_ok [OF small_heap_ok(1), of 40] small_heap_ok(2) by auto
  then show ?thesis using kfree_correct [of s' pg a n] by auto
qed

end
