(* ===== verification/Pipe.thy ===== *)
theory Pipe
  imports Prelude
begin

text \<open>
  Pipes, \<open>src/kernel/ipc/pipe.c\<close>: a ring of 4096 bytes with counts of its open ends, and the system
  call loops of \<open>src/kernel/syscall/sys_file.c\<close> that move user data through it.

  A section of \<open>pipe_read_ep\<close> or \<open>pipe_write_ep\<close> between taking and dropping the pipe lock is one
  function. It says what the call does next (return, sleep, go round its loop) and which wake-ups
  it performs once the lock is dropped. Positions and counts stay below the capacity and are \<open>nat\<close>;
  the lengths the code narrows to 32 bits are narrowed here too.
\<close>

section \<open>State\<close>

abbreviation (input) PIPE_CAPACITY :: nat where "PIPE_CAPACITY \<equiv> 4096"
abbreviation (input) ESPIPE :: int where "ESPIPE \<equiv> 29"
abbreviation (input) EFAULT :: int where "EFAULT \<equiv> 14"
abbreviation (input) POLLIN :: nat where "POLLIN \<equiv> 1"
abbreviation (input) POLLOUT :: nat where "POLLOUT \<equiv> 4"
abbreviation (input) POLLHUP :: nat where "POLLHUP \<equiv> 16"

record pipe =
  buf :: "nat \<Rightarrow> u8"
  head :: nat
  count :: nat
  readers_open :: int
  writers_open :: int
  refs :: int

datatype wake = Wake_Readers | Wake_Writers | Poll_Notify | Send_Sigpipe

definition narrow32 :: "nat \<Rightarrow> nat" where
  "narrow32 n = n mod 2 ^ 32"

text \<open>A pipe as \<open>pipe_alloc\<close> leaves it; the buffer holds what the heap left there.\<close>

definition pipe_alloc :: "(nat \<Rightarrow> u8) \<Rightarrow> pipe" where
  "pipe_alloc garbage = \<lparr>buf = garbage, head = 0, count = 0, readers_open = 0, writers_open = 0, refs = 0\<rparr>"

definition pipe_init_ends :: "pipe \<Rightarrow> pipe" where
  "pipe_init_ends p = p\<lparr>refs := 2, readers_open := 1, writers_open := 1\<rparr>"

section \<open>The ring\<close>

definition ring_read :: "nat \<Rightarrow> pipe \<Rightarrow> u8 list \<times> pipe" where
  "ring_read want p =
     (let n = (if want < count p then want else count p);
          out = map (\<lambda>i. buf p ((head p + i) mod PIPE_CAPACITY)) [0..<n]
      in (out, p\<lparr>head := (head p + n) mod PIPE_CAPACITY, count := count p - n\<rparr>))"

definition ring_write :: "u8 list \<Rightarrow> nat \<Rightarrow> pipe \<Rightarrow> nat \<times> pipe" where
  "ring_write xs want p =
     (let space = PIPE_CAPACITY - count p;
          n = (if want < space then want else space);
          tail = (head p + count p) mod PIPE_CAPACITY;
          b = fold (\<lambda>i b. b((tail + i) mod PIPE_CAPACITY := xs ! i)) [0..<n] (buf p)
      in (n, p\<lparr>buf := b, count := count p + n\<rparr>))"

section \<open>Reading\<close>

datatype read_result = Read "u8 list" | Read_Error int | Read_Sleep

text \<open>End of file is \<open>Read []\<close>. A thread that slept runs the section again when it is woken, or
  returns \<open>-EINTR\<close>.\<close>

definition pipe_read_ep :: "bool \<Rightarrow> nat \<Rightarrow> pipe \<Rightarrow> read_result \<times> wake list \<times> pipe" where
  "pipe_read_ep nonblock len p =
     (if len = 0 then (Read [], [], p)
      else if count p = 0
      then if writers_open p = 0 then (Read [], [], p)
           else if nonblock then (Read_Error (- EAGAIN), [], p)
           else (Read_Sleep, [], p)
      else case ring_read (narrow32 len) p of (xs, p) \<Rightarrow> (Read xs, [Wake_Writers, Poll_Notify], p))"

section \<open>Writing\<close>

datatype write_result = Wrote nat | Write_Error int | Write_Full nat

text \<open>One round of the loop, entered with \<open>written\<close> bytes already in the ring. \<open>Write_Full\<close> goes on to
  \<open>pipe_write_wait\<close>, which takes the lock again.\<close>

definition pipe_write_ep :: "bool \<Rightarrow> u8 list \<Rightarrow> nat \<Rightarrow> pipe \<Rightarrow> write_result \<times> wake list \<times> pipe" where
  "pipe_write_ep nonblock xs written p =
     (if written < length xs
      then if readers_open p = 0
           then ((if written \<noteq> 0 then Wrote written else Write_Error (- EPIPE)), [Send_Sigpipe], p)
           else case ring_write (drop written xs) (narrow32 (length xs - written)) p of (n, p) \<Rightarrow>
             let written = written + n in
             if written = length xs then (Wrote written, [Wake_Readers, Poll_Notify], p)
             else if nonblock
             then ((if written \<noteq> 0 then Wrote written else Write_Error (- EAGAIN)), [Wake_Readers, Poll_Notify], p)
             else (Write_Full written, [Wake_Readers, Poll_Notify], p)
      else (Wrote written, if xs = [] then [] else [Wake_Readers, Poll_Notify], p))"

text \<open>Whether the writer sleeps before the next round.\<close>

definition pipe_write_wait :: "pipe \<Rightarrow> bool" where
  "pipe_write_wait p \<longleftrightarrow> count p = PIPE_CAPACITY"

definition pipe_write_interrupted :: "nat \<Rightarrow> write_result" where
  "pipe_write_interrupted written = (if written \<noteq> 0 then Wrote written else Write_Error (- EINTR))"

section \<open>Ends, polling and the fixed answers\<close>

text \<open>\<open>pipe_dup_ep\<close> runs without the pipe lock: its increments are atomic one by one, and other threads may
  come in between.\<close>

definition add_ref :: "pipe \<Rightarrow> pipe" where "add_ref p = p\<lparr>refs := refs p + 1\<rparr>"
definition add_reader :: "pipe \<Rightarrow> pipe" where "add_reader p = p\<lparr>readers_open := readers_open p + 1\<rparr>"
definition add_writer :: "pipe \<Rightarrow> pipe" where "add_writer p = p\<lparr>writers_open := writers_open p + 1\<rparr>"

definition pipe_dup_ep :: "bool \<Rightarrow> bool \<Rightarrow> pipe \<Rightarrow> pipe" where
  "pipe_dup_ep as_reader as_writer p =
     (let p = add_ref p;
          p = (if as_reader then add_reader p else p)
      in if as_writer then add_writer p else p)"

text \<open>\<open>None\<close>: the last reference went away and the pipe is freed.\<close>

definition pipe_close_ep :: "bool \<Rightarrow> bool \<Rightarrow> pipe \<Rightarrow> (wake list \<times> pipe) option" where
  "pipe_close_ep as_reader as_writer p =
     (let p = p\<lparr>readers_open := readers_open p - (if as_reader then 1 else 0),
                writers_open := writers_open p - (if as_writer then 1 else 0),
                refs := refs p - 1\<rparr>;
          no_writers = (writers_open p = 0);
          no_readers = (readers_open p = 0)
      in if refs p = 0 then None
         else Some ((if no_writers then [Wake_Readers] else [])
                    @ (if no_writers \<or> no_readers then [Poll_Notify] else [])
                    @ (if no_readers then [Wake_Writers] else []), p))"

definition pipe_poll_ep :: "bool \<Rightarrow> bool \<Rightarrow> nat \<Rightarrow> pipe \<Rightarrow> nat" where
  "pipe_poll_ep as_reader as_writer events p =
     (let mask = (if as_reader \<and> 0 < count p then POLLIN else 0);
          mask = (if as_writer \<and> count p < PIPE_CAPACITY then mask OR POLLOUT else mask);
          mask = (if as_reader \<and> writers_open p = 0 \<and> count p = 0 then mask OR POLLHUP else mask)
      in mask AND events)"

definition pipe_lseek :: int where
  "pipe_lseek = - ESPIPE"

section \<open>The system call loop over a blocking descriptor\<close>

abbreviation (input) STAGE_MAX :: nat where "STAGE_MAX \<equiv> 4096"

text \<open>\<open>read_to_user\<close> with a pipe behind the descriptor; \<open>missed off n\<close> is what \<open>copy_to_user\<close> leaves
  uncopied of \<open>n\<close> bytes at offset \<open>off\<close>. \<open>Call_Sleeps n\<close>: the call is asleep after it took \<open>n\<close>
  bytes out of the pipe.\<close>

datatype call_result = Call_Returns int | Call_Sleeps nat

function read_to_user :: "(nat \<Rightarrow> nat \<Rightarrow> nat) \<Rightarrow> bool \<Rightarrow> nat \<Rightarrow> nat \<Rightarrow> pipe \<Rightarrow> call_result \<times> pipe" where
  "read_to_user missed nonblock tot remaining p =
     (if remaining = 0 then (Call_Returns (int tot), p)
      else let chunk = (if remaining < STAGE_MAX then remaining else STAGE_MAX) in
        case pipe_read_ep nonblock chunk p of
          (Read_Sleep, ws, p) \<Rightarrow> (Call_Sleeps tot, p)
        | (Read_Error e, ws, p) \<Rightarrow> (Call_Returns (if 0 < tot then int tot else e), p)
        | (Read xs, ws, p) \<Rightarrow>
            if xs = [] then (Call_Returns (int tot), p)
            else let rc = length xs; m = missed tot rc in
              if 0 < m
              then let tot = tot + (rc - m) in (Call_Returns (if 0 < tot then int tot else - EFAULT), p)
              else if rc < chunk then (Call_Returns (int (tot + rc)), p)
              else read_to_user missed nonblock (tot + rc) (remaining - rc) p)"
  by pat_completeness auto

termination read_to_user
  by (relation "measure (\<lambda>(missed, nonblock, tot, remaining, p). remaining)") (auto simp: length_greater_0_conv [symmetric] simp del: length_greater_0_conv)

end
