(* ===== verification/Pipe_Correct.thy ===== *)
theory Pipe_Correct
  imports Pipe
begin

text \<open>
  A pipe is a bounded first-in first-out queue: the ring read from its head is the queue, reads and
  writes refine taking from the front and appending at the back. Threads that use a pipe
  concurrently are a step relation, whose invariant says that no byte is lost or reordered and that
  no sleeper misses the wake-up it needs.
\<close>

section \<open>The ring as a queue\<close>

definition contents :: "pipe \<Rightarrow> u8 list" where
  "contents p = map (\<lambda>i. buf p ((head p + i) mod PIPE_CAPACITY)) [0..<count p]"

definition pipe_ok :: "pipe \<Rightarrow> bool" where
  "pipe_ok p \<longleftrightarrow> head p < PIPE_CAPACITY \<and> count p \<le> PIPE_CAPACITY"

lemma length_contents [simp]: "length (contents p) = count p"
  by (simp add: contents_def)

lemma contents_empty [simp]: "contents p = [] \<longleftrightarrow> count p = 0"
  by (simp add: contents_def)

lemma ring_inj:
  assumes "i < PIPE_CAPACITY" and "j < PIPE_CAPACITY" and "(t + i) mod PIPE_CAPACITY = (t + j) mod PIPE_CAPACITY"
  shows "i = j"
proof -
  have *: "((t + k) mod 4096 + (4096 - t mod 4096)) mod 4096 = k" if "k < 4096" for k
  proof -
    define q r where "q = t div 4096" and "r = t mod 4096"
    have t: "t = 4096 * q + r" and r: "r < 4096" by (simp_all add: q_def r_def)
    have "((t + k) mod 4096 + (4096 - r)) mod 4096 = (t + k + (4096 - r)) mod 4096" by (rule mod_add_left_eq)
    also have "t + k + (4096 - r) = k + (q + 1) * 4096" using r by (simp add: t)
    also have "(k + (q + 1) * 4096) mod 4096 = k" using that by (simp only: mod_mult_self1 mod_less)
    finally show ?thesis by (simp add: r_def)
  qed
  show ?thesis using * [OF assms(1)] * [OF assms(2)] assms(3) by simp
qed

lemma ring_fill:
  fixes xs :: "u8 list" and b :: "nat \<Rightarrow> u8" and t0 :: nat
  assumes "n \<le> PIPE_CAPACITY"
  defines "b' \<equiv> fold (\<lambda>i b. b((t0 + i) mod PIPE_CAPACITY := xs ! i)) [0..<n] b"
  shows "(\<forall>i < n. b' ((t0 + i) mod PIPE_CAPACITY) = xs ! i)
    \<and> (\<forall>x. (\<forall>i < n. x \<noteq> (t0 + i) mod PIPE_CAPACITY) \<longrightarrow> b' x = b x)"
  using assms(1) unfolding b'_def
proof (induction n)
  case (Suc n)
  define g where "g = fold (\<lambda>i b. b((t0 + i) mod PIPE_CAPACITY := xs ! i)) [0..<n] b"
  have IH: "\<forall>i < n. g ((t0 + i) mod PIPE_CAPACITY) = xs ! i"
      "\<forall>x. (\<forall>i < n. x \<noteq> (t0 + i) mod PIPE_CAPACITY) \<longrightarrow> g x = b x"
    using Suc.IH Suc.prems by (simp_all add: g_def del: fun_upd_apply)
  have step: "fold (\<lambda>i b. b((t0 + i) mod PIPE_CAPACITY := xs ! i)) [0..<Suc n] b
      = g((t0 + n) mod PIPE_CAPACITY := xs ! n)" by (simp add: g_def del: fun_upd_apply)
  have "(t0 + i) mod PIPE_CAPACITY \<noteq> (t0 + n) mod PIPE_CAPACITY" if "i < n" for i
    using ring_inj [of i n t0] that Suc.prems by auto
  then show ?case unfolding step using IH by (auto simp: less_Suc_eq)
qed simp

lemma ring_read_ok:
  assumes "pipe_ok p" and "ring_read want p = (xs, p')"
  shows "pipe_ok p' \<and> xs = take want (contents p) \<and> contents p' = drop want (contents p)
    \<and> readers_open p' = readers_open p \<and> writers_open p' = writers_open p \<and> refs p' = refs p"
proof -
  define n where "n = min want (count p)"
  have p': "p' = p\<lparr>head := (head p + n) mod PIPE_CAPACITY, count := count p - n\<rparr>"
    and xs: "xs = map (\<lambda>i. buf p ((head p + i) mod PIPE_CAPACITY)) [0..<n]"
    using assms(2) by (auto simp: ring_read_def Let_def n_def min_def split: if_splits)
  have "xs = take want (contents p)" by (rule nth_equalityI) (auto simp: xs contents_def n_def)
  moreover have "contents p' = drop want (contents p)"
    by (rule nth_equalityI) (auto simp: p' contents_def n_def mod_add_left_eq add.assoc [symmetric])
  ultimately show ?thesis using assms(1) by (auto simp: p' pipe_ok_def)
qed

lemma ring_write_ok:
  assumes ok: "pipe_ok p" and w: "ring_write xs want p = (n, p')" and want: "want \<le> length xs"
  shows "pipe_ok p' \<and> n = min want (PIPE_CAPACITY - count p) \<and> contents p' = contents p @ take n xs
    \<and> count p' = count p + n \<and> readers_open p' = readers_open p \<and> writers_open p' = writers_open p \<and> refs p' = refs p"
proof -
  let ?t = "(head p + count p) mod PIPE_CAPACITY"
  define b where "b = fold (\<lambda>i b. b((?t + i) mod PIPE_CAPACITY := xs ! i)) [0..<n] (buf p)"
  have n: "n = min want (PIPE_CAPACITY - count p)" and p': "p' = p\<lparr>buf := b, count := count p + n\<rparr>"
    using w by (auto simp: ring_write_def Let_def b_def min_def split: if_splits)
  have le: "count p + n \<le> PIPE_CAPACITY" using ok n by (auto simp: pipe_ok_def)
  have fill: "\<forall>i < n. b ((?t + i) mod PIPE_CAPACITY) = xs ! i"
      "\<forall>x. (\<forall>i < n. x \<noteq> (?t + i) mod PIPE_CAPACITY) \<longrightarrow> b x = buf p x"
    using ring_fill [where n = n and xs = xs and ?t0.0 = ?t and b = "buf p"] le unfolding b_def by (simp_all del: fun_upd_apply)
  have old: "b ((head p + j) mod PIPE_CAPACITY) = buf p ((head p + j) mod PIPE_CAPACITY)" if "j < count p" for j
  proof -
    have "(head p + j) mod PIPE_CAPACITY \<noteq> (?t + i) mod PIPE_CAPACITY" if "i < n" for i
      using ring_inj [of j "count p + i" "head p"] that \<open>j < count p\<close> le by (auto simp: mod_add_left_eq add.assoc)
    then show ?thesis using fill(2) by blast
  qed
  have new: "b ((head p + (count p + i)) mod PIPE_CAPACITY) = xs ! i" if "i < n" for i
    using fill(1) that by (simp add: mod_add_left_eq add.assoc)
  have nl: "n \<le> length xs" using n want by simp
  have "contents p' = contents p @ take n xs"
  proof (rule nth_equalityI)
    fix j assume "j < length (contents p')"
    then show "contents p' ! j = (contents p @ take n xs) ! j"
      using old new [of "j - count p"] nl by (auto simp: p' contents_def nth_append)
  qed (use nl in \<open>simp add: p'\<close>)
  then show ?thesis using ok le n by (simp add: p' pipe_ok_def)
qed

section \<open>Reading and writing refine queue operations\<close>

lemma pipe_read_ok:
  assumes "pipe_ok p" and "pipe_read_ep nb len p = (r, ws, p')"
  shows "pipe_ok p' \<and> readers_open p' = readers_open p \<and> writers_open p' = writers_open p \<and> refs p' = refs p
    \<and> (case r of Read xs \<Rightarrow> contents p = xs @ contents p' | _ \<Rightarrow> p' = p \<and> count p = 0 \<and> writers_open p \<noteq> 0)
    \<and> (p' = p \<or> Wake_Writers \<in> set ws) \<and> Wake_Readers \<notin> set ws \<and> count p' \<le> count p"
proof (cases "len = 0 \<or> count p = 0")
  case True
  then show ?thesis using assms by (auto simp: pipe_read_ep_def split: if_splits)
next
  case False
  then obtain xs where r: "ring_read (narrow32 len) p = (xs, p')" "r = Read xs" "ws = [Wake_Writers, Poll_Notify]"
    using assms(2) by (auto simp: pipe_read_ep_def split: prod.splits)
  moreover have "count p' \<le> count p" using ring_read_ok [OF assms(1) r(1)] by (metis diff_le_self length_contents length_drop)
  ultimately show ?thesis using ring_read_ok [OF assms(1) r(1)] by simp
qed

definition accepted :: "write_result \<Rightarrow> nat \<Rightarrow> nat" where
  "accepted r written = (case r of Wrote n \<Rightarrow> n | Write_Full n \<Rightarrow> n | Write_Error e \<Rightarrow> written)"

lemma narrow32_le: "narrow32 n \<le> n"
  by (simp add: narrow32_def)

lemma pipe_write_ok:
  assumes ok: "pipe_ok p" and w: "pipe_write_ep nb xs written p = (r, ws, p')" and le: "written \<le> length xs"
  shows "pipe_ok p' \<and> readers_open p' = readers_open p \<and> writers_open p' = writers_open p \<and> refs p' = refs p
    \<and> written \<le> accepted r written \<and> accepted r written \<le> length xs
    \<and> contents p' = contents p @ take (accepted r written - written) (drop written xs)
    \<and> (contents p' = contents p \<or> Wake_Readers \<in> set ws) \<and> Wake_Writers \<notin> set ws
    \<and> (\<forall>n. r = Write_Full n \<longrightarrow> n < length xs \<and> \<not> nb)"
proof (cases "written < length xs \<and> readers_open p \<noteq> 0")
  case False
  then show ?thesis using w ok le by (auto simp: pipe_write_ep_def accepted_def split: if_splits)
next
  case True
  obtain n q where rw: "ring_write (drop written xs) (narrow32 (length xs - written)) p = (n, q)" by fastforce
  have n: "n \<le> length xs - written" using ring_write_ok [OF ok rw] narrow32_le [of "length xs - written"] by simp
  have q: "p' = q" "Wake_Readers \<in> set ws" "Wake_Writers \<notin> set ws"
    "accepted r written = written + n" "\<forall>n. r = Write_Full n \<longrightarrow> n < length xs \<and> \<not> nb"
    using w True rw n by (auto simp: pipe_write_ep_def accepted_def Let_def split: if_splits)
  moreover have "written + n \<le> length xs" using n True by linarith
  ultimately show ?thesis
    using ring_write_ok [OF ok rw] narrow32_le [of "length xs - written"] unfolding length_drop by (metis add_diff_cancel_left' le_add1)
qed

section \<open>Threads on a pipe\<close>

text \<open>Where a thread is: outside, about to run a section of a read or write, asleep on one of the two
  queues, between the rounds of a write, or performing wake-ups with the lock dropped before it goes
  on.\<close>

datatype at = Idle | Reading bool nat | Sleeping_R bool nat
  | Writing bool "u8 list" nat | Pausing "u8 list" nat | Sleeping_W "u8 list" nat
  | Waking "wake list" at

record system =
  the_pipe :: pipe
  thr :: "nat \<Rightarrow> at"
  sent :: "u8 list"
  received :: "u8 list"

fun woken :: "wake \<Rightarrow> at \<Rightarrow> at" where
  "woken Wake_Readers (Sleeping_R nb len) = Reading nb len"
| "woken Wake_Writers (Sleeping_W xs w) = Writing False xs w"
| "woken w a = a"

definition after_read :: "bool \<Rightarrow> nat \<Rightarrow> read_result \<Rightarrow> wake list \<Rightarrow> at" where
  "after_read nb len r ws = (if r = Read_Sleep then Sleeping_R nb len else Waking ws Idle)"

definition after_write :: "u8 list \<Rightarrow> write_result \<Rightarrow> wake list \<Rightarrow> at" where
  "after_write xs r ws = Waking ws (case r of Write_Full n \<Rightarrow> Pausing xs n | _ \<Rightarrow> Idle)"

inductive pipe_reach :: "system \<Rightarrow> bool" where
  start: "pipe_reach \<lparr>the_pipe = pipe_init_ends (pipe_alloc g), thr = (\<lambda>_. Idle), sent = [], received = []\<rparr>"
| call_read: "pipe_reach s \<Longrightarrow> thr s t = Idle \<Longrightarrow> pipe_reach (s\<lparr>thr := (thr s)(t := Reading nb len)\<rparr>)"
| call_write: "pipe_reach s \<Longrightarrow> thr s t = Idle \<Longrightarrow> pipe_reach (s\<lparr>thr := (thr s)(t := Writing nb xs 0)\<rparr>)"
| do_read: "pipe_reach s \<Longrightarrow> thr s t = Reading nb len \<Longrightarrow> pipe_read_ep nb len (the_pipe s) = (r, ws, p) \<Longrightarrow>
    pipe_reach (s\<lparr>the_pipe := p, thr := (thr s)(t := after_read nb len r ws),
      received := received s @ (case r of Read xs \<Rightarrow> xs | _ \<Rightarrow> [])\<rparr>)"
| do_write: "pipe_reach s \<Longrightarrow> thr s t = Writing nb xs w \<Longrightarrow> pipe_write_ep nb xs w (the_pipe s) = (r, ws, p) \<Longrightarrow>
    pipe_reach (s\<lparr>the_pipe := p, thr := (thr s)(t := after_write xs r ws),
      sent := sent s @ take (accepted r w - w) (drop w xs)\<rparr>)"
| pause: "pipe_reach s \<Longrightarrow> thr s t = Pausing xs w \<Longrightarrow>
    pipe_reach (s\<lparr>thr := (thr s)(t := if pipe_write_wait (the_pipe s) then Sleeping_W xs w else Writing False xs w)\<rparr>)"
| interrupt: "pipe_reach s \<Longrightarrow> thr s t = Sleeping_R nb len \<or> thr s t = Sleeping_W xs w \<Longrightarrow>
    pipe_reach (s\<lparr>thr := (thr s)(t := Idle)\<rparr>)"
| wake: "pipe_reach s \<Longrightarrow> thr s t = Waking (v # ws) k \<Longrightarrow>
    pipe_reach (s\<lparr>thr := (woken v \<circ> thr s)(t := Waking ws k)\<rparr>)"
| woke: "pipe_reach s \<Longrightarrow> thr s t = Waking [] k \<Longrightarrow> pipe_reach (s\<lparr>thr := (thr s)(t := k)\<rparr>)"
| dup: "pipe_reach s \<Longrightarrow> f \<in> {add_ref, add_reader, add_writer, pipe_dup_ep rd wr} \<Longrightarrow>
    pipe_reach (s\<lparr>the_pipe := f (the_pipe s)\<rparr>)"
| close: "pipe_reach s \<Longrightarrow> thr s t = Idle \<Longrightarrow> (rd \<longrightarrow> 0 < readers_open (the_pipe s)) \<Longrightarrow>
    (wr \<longrightarrow> 0 < writers_open (the_pipe s)) \<Longrightarrow> pipe_close_ep rd wr (the_pipe s) = Some (ws, p) \<Longrightarrow>
    pipe_reach (s\<lparr>the_pipe := p, thr := (thr s)(t := Waking ws Idle)\<rparr>)"

text \<open>A wake-up of the kind is still to come from some thread.\<close>

definition due :: "wake \<Rightarrow> (nat \<Rightarrow> at) \<Rightarrow> bool" where
  "due v f \<longleftrightarrow> (\<exists>t ws k. f t = Waking ws k \<and> v \<in> set ws)"

fun steady :: "at \<Rightarrow> bool" where
  "steady (Waking ws k) = (k = Idle \<or> (\<exists>xs w. k = Pausing xs w \<and> w \<le> length xs))"
| "steady (Writing nb xs w) = (w \<le> length xs)"
| "steady (Pausing xs w) = (w \<le> length xs)"
| "steady (Sleeping_W xs w) = (w \<le> length xs)"
| "steady a = True"

definition readers_served :: "pipe \<Rightarrow> (nat \<Rightarrow> at) \<Rightarrow> bool" where
  "readers_served p f \<longleftrightarrow> (\<forall>t nb len. f t = Sleeping_R nb len \<longrightarrow>
     count p = 0 \<and> writers_open p \<noteq> 0 \<or> due Wake_Readers f)"

definition writers_served :: "pipe \<Rightarrow> (nat \<Rightarrow> at) \<Rightarrow> bool" where
  "writers_served p f \<longleftrightarrow> (\<forall>t xs w. f t = Sleeping_W xs w \<longrightarrow> count p = PIPE_CAPACITY \<or> due Wake_Writers f)"

definition system_ok :: "system \<Rightarrow> bool" where
  "system_ok s \<longleftrightarrow> pipe_ok (the_pipe s) \<and> 0 \<le> readers_open (the_pipe s) \<and> 0 \<le> writers_open (the_pipe s)
     \<and> sent s = received s @ contents (the_pipe s) \<and> (\<forall>t. steady (thr s t))
     \<and> readers_served (the_pipe s) (thr s) \<and> writers_served (the_pipe s) (thr s)"

section \<open>The invariant\<close>

lemma due_keep: "due v f \<Longrightarrow> f t = a \<Longrightarrow> (\<And>ws k. a = Waking ws k \<Longrightarrow> v \<notin> set ws) \<Longrightarrow> due v (f(t := b))"
  unfolding due_def by (metis fun_upd_other)

lemma due_now: "v \<in> set ws \<Longrightarrow> due v (f(t := Waking ws k))"
  unfolding due_def by (metis fun_upd_same)

text \<open>A thread moves to a place where it does not sleep, or where it may; the pipe may change, and then
  the wake-ups it calls for are due.\<close>

lemma readers_served_step:
  assumes "readers_served p f" and "f t = a" and "\<And>ws k. a = Waking ws k \<Longrightarrow> Wake_Readers \<notin> set ws"
    and "\<And>nb len. b = Sleeping_R nb len \<Longrightarrow> count p' = 0 \<and> writers_open p' \<noteq> 0"
    and "count p = 0 \<and> writers_open p \<noteq> 0 \<Longrightarrow>
      count p' = 0 \<and> writers_open p' \<noteq> 0 \<or> (\<exists>ws k. b = Waking ws k \<and> Wake_Readers \<in> set ws)"
  shows "readers_served p' (f(t := b))"
  unfolding readers_served_def
proof (intro allI impI)
  fix u nb len assume u: "(f(t := b)) u = Sleeping_R nb len"
  show "count p' = 0 \<and> writers_open p' \<noteq> 0 \<or> due Wake_Readers (f(t := b))"
  proof (cases "u = t")
    case True
    then show ?thesis using u assms(4) by simp
  next
    case False
    then consider "count p = 0 \<and> writers_open p \<noteq> 0" | "due Wake_Readers f"
      using assms(1) u unfolding readers_served_def by auto
    then show ?thesis
    proof cases
      case 1
      then show ?thesis using assms(5) due_now by blast
    next
      case 2
      then show ?thesis using due_keep [of Wake_Readers f t a b] assms(2,3) by blast
    qed
  qed
qed

lemma writers_served_step:
  assumes "writers_served p f" and "f t = a" and "\<And>ws k. a = Waking ws k \<Longrightarrow> Wake_Writers \<notin> set ws"
    and "\<And>xs w. b = Sleeping_W xs w \<Longrightarrow> count p' = PIPE_CAPACITY"
    and "count p = PIPE_CAPACITY \<Longrightarrow> count p' = PIPE_CAPACITY \<or> (\<exists>ws k. b = Waking ws k \<and> Wake_Writers \<in> set ws)"
  shows "writers_served p' (f(t := b))"
  unfolding writers_served_def
proof (intro allI impI)
  fix u xs w assume u: "(f(t := b)) u = Sleeping_W xs w"
  show "count p' = PIPE_CAPACITY \<or> due Wake_Writers (f(t := b))"
  proof (cases "u = t")
    case True
    then show ?thesis using u assms(4) by simp
  next
    case False
    then consider "count p = PIPE_CAPACITY" | "due Wake_Writers f"
      using assms(1) u unfolding writers_served_def by auto
    then show ?thesis
    proof cases
      case 1
      then show ?thesis using assms(5) due_now by blast
    next
      case 2
      then show ?thesis using due_keep [of Wake_Writers f t a b] assms(2,3) by blast
    qed
  qed
qed

lemma woken_waking [simp]: "woken v a = Waking ws k \<longleftrightarrow> a = Waking ws k"
  by (cases "(v, a)" rule: woken.cases) auto

lemma woken_sleeping:
  "woken v a = Sleeping_R nb len \<longleftrightarrow> a = Sleeping_R nb len \<and> v \<noteq> Wake_Readers"
  "woken v a = Sleeping_W xs w \<longleftrightarrow> a = Sleeping_W xs w \<and> v \<noteq> Wake_Writers"
  by (cases "(v, a)" rule: woken.cases; auto)+

lemma steady_woken: "steady a \<Longrightarrow> steady (woken v a)"
  by (cases "(v, a)" rule: woken.cases) auto

lemma due_woken:
  assumes "due x f" and "f t = Waking (v # ws) k" and "x \<noteq> v"
  shows "due x ((woken v \<circ> f)(t := Waking ws k))"
proof -
  obtain u us j where u: "f u = Waking us j" "x \<in> set us" using assms(1) by (auto simp: due_def)
  show ?thesis
  proof (cases "u = t")
    case True
    then have "x \<in> set ws" using u assms(2,3) by (metis at.inject(6) set_ConsD)
    then show ?thesis by (rule due_now)
  next
    case False
    then have "((woken v \<circ> f)(t := Waking ws k)) u = Waking us j" using u by simp
    then show ?thesis using u(2) unfolding due_def by blast
  qed
qed

lemma served_woken:
  assumes "readers_served p f" and "writers_served p f" and t: "f t = Waking (v # ws) k"
  shows "readers_served p ((woken v \<circ> f)(t := Waking ws k))" "writers_served p ((woken v \<circ> f)(t := Waking ws k))"
  using assms due_woken [of _ f t v ws k]
  by (auto simp: readers_served_def writers_served_def woken_sleeping split: if_splits)

lemma dup_fields:
  assumes "f \<in> {add_ref, add_reader, add_writer, pipe_dup_ep rd wr}"
  shows "buf (f p) = buf p \<and> head (f p) = head p \<and> count (f p) = count p
    \<and> readers_open p \<le> readers_open (f p) \<and> writers_open p \<le> writers_open (f p)"
  using assms by (auto simp: pipe_dup_ep_def add_ref_def add_reader_def add_writer_def Let_def)

lemma pipe_close_ok:
  assumes "pipe_close_ep rd wr p = Some (ws, p')"
  shows "contents p' = contents p \<and> pipe_ok p' = pipe_ok p \<and> count p' = count p
    \<and> readers_open p' = readers_open p - (if rd then 1 else 0) \<and> writers_open p' = writers_open p - (if wr then 1 else 0)
    \<and> (Wake_Readers \<in> set ws \<longleftrightarrow> writers_open p' = 0) \<and> (Wake_Writers \<in> set ws \<longleftrightarrow> readers_open p' = 0)"
  using assms by (auto simp: pipe_close_ep_def Let_def contents_def pipe_ok_def split: if_splits)

lemma pipe_reach_ok: "pipe_reach s \<Longrightarrow> system_ok s"
proof (induction rule: pipe_reach.induct)
  case (start g)
  then show ?case
    by (simp add: system_ok_def pipe_ok_def pipe_init_ends_def pipe_alloc_def contents_def readers_served_def writers_served_def)
next
  case (call_read s t nb len)
  then show ?case
    by (auto simp: system_ok_def intro!: readers_served_step [of _ "thr s"] writers_served_step [of _ "thr s"])
next
  case (call_write s t nb xs)
  then show ?case
    by (auto simp: system_ok_def intro!: readers_served_step [of _ "thr s"] writers_served_step [of _ "thr s"])
next
  case (do_read s t nb len r ws p)
  then have ok: "pipe_ok (the_pipe s)" by (simp add: system_ok_def)
  note r = pipe_read_ok [OF ok do_read(3)]
  have "readers_served p ((thr s)(t := after_read nb len r ws))"
    by (rule readers_served_step [of "the_pipe s"])
       (use do_read r in \<open>auto simp: system_ok_def after_read_def split: if_splits read_result.splits\<close>)
  moreover have "writers_served p ((thr s)(t := after_read nb len r ws))"
    by (rule writers_served_step [of "the_pipe s"])
       (use do_read r in \<open>auto simp: system_ok_def after_read_def split: if_splits read_result.splits\<close>)
  ultimately show ?case
    using do_read(4) r by (auto simp: system_ok_def after_read_def split: read_result.splits)
next
  case (do_write s t nb xs w r ws p)
  then have ok: "pipe_ok (the_pipe s)" "w \<le> length xs" by (auto simp: system_ok_def dest: spec [of _ t])
  note r = pipe_write_ok [OF ok(1) do_write(3) ok(2)]
  have cnt: "count p = count (the_pipe s) \<or> Wake_Readers \<in> set ws" "count (the_pipe s) \<le> count p" "count p \<le> PIPE_CAPACITY"
    using r length_contents by (metis, metis le_add1 length_append, simp add: pipe_ok_def)
  have "readers_served p ((thr s)(t := after_write xs r ws))"
    by (rule readers_served_step [of "the_pipe s"]) (use do_write r cnt in \<open>auto simp: system_ok_def after_write_def\<close>)
  moreover have "writers_served p ((thr s)(t := after_write xs r ws))"
    by (rule writers_served_step [of "the_pipe s"]) (use do_write r cnt in \<open>auto simp: system_ok_def after_write_def\<close>)
  moreover have "steady (after_write xs r ws)" using r by (auto simp: after_write_def split: write_result.splits)
  ultimately show ?case using do_write(4) r by (simp add: system_ok_def)
next
  case (pause s t xs w)
  then have "w \<le> length xs" by (auto simp: system_ok_def dest: spec [of _ t])
  then show ?case
    using pause
    by (auto simp: system_ok_def pipe_write_wait_def intro!: readers_served_step [of _ "thr s"] writers_served_step [of _ "thr s"])
next
  case (interrupt s t nb len xs w)
  then show ?case
    by (auto simp: system_ok_def intro!: readers_served_step [of _ "thr s"] writers_served_step [of _ "thr s"])
next
  case (wake s t v ws k)
  have "steady (thr s t)" using wake(3) by (simp add: system_ok_def)
  then have "steady (Waking (v # ws) k)" by (simp only: wake(2))
  then show ?case using wake(3) served_woken [of "the_pipe s" "thr s" t v ws k] wake(2) by (auto simp: system_ok_def steady_woken)
next
  case (woke s t k)
  have "steady (thr s t)" using woke(3) by (simp add: system_ok_def)
  then have "steady (Waking [] k)" by (simp only: woke(2))
  then show ?case
    using woke
    by (auto simp: system_ok_def intro!: readers_served_step [of _ "thr s"] writers_served_step [of _ "thr s"])
next
  case (dup s f rd wr)
  then show ?case
    using dup_fields [OF dup(2), of "the_pipe s"] by (auto simp: system_ok_def pipe_ok_def contents_def readers_served_def writers_served_def)
next
  case (close s t rd wr ws p)
  note p = pipe_close_ok [OF close(5)]
  have "readers_served p ((thr s)(t := Waking ws Idle))"
    by (rule readers_served_step [of "the_pipe s"]) (use close p in \<open>auto simp: system_ok_def\<close>)
  moreover have "writers_served p ((thr s)(t := Waking ws Idle))"
    by (rule writers_served_step [of "the_pipe s"]) (use close p in \<open>auto simp: system_ok_def\<close>)
  ultimately show ?case using close p by (auto simp: system_ok_def)
qed

section \<open>A writer that sleeps for ever\<close>

text \<open>One byte more than fits is written; the writer has dropped the lock to wake the readers when the
  only reader closes.\<close>

definition long_write :: "u8 list" where
  "long_write = replicate 4097 0"

lemma length_long_write [simp]: "length long_write = 4097"
  by (simp add: long_write_def)

definition fresh_pipe :: pipe where
  "fresh_pipe = pipe_init_ends (pipe_alloc (\<lambda>_. 0))"

lemma fresh_pipe_ok: "pipe_ok fresh_pipe" "count fresh_pipe = 0" "readers_open fresh_pipe = 1" "writers_open fresh_pipe = 1"
    "refs fresh_pipe = 2" "contents fresh_pipe = []"
  by (simp_all add: fresh_pipe_def pipe_init_ends_def pipe_alloc_def pipe_ok_def contents_def)

lemma long_write_fills:
  "\<exists>p. pipe_write_ep False long_write 0 fresh_pipe = (Write_Full 4096, [Wake_Readers, Poll_Notify], p)
     \<and> count p = 4096 \<and> readers_open p = 1 \<and> writers_open p = 1 \<and> refs p = 2 \<and> pipe_ok p"
proof -
  obtain n p where w: "ring_write long_write 4097 fresh_pipe = (n, p)" by fastforce
  have n32: "narrow32 4097 = 4097" by (simp add: narrow32_def)
  note r = ring_write_ok [OF fresh_pipe_ok(1) w]
  have "n = 4096" "count p = 4096" using r by (simp_all add: fresh_pipe_ok)
  then show ?thesis using w r by (simp add: pipe_write_ep_def fresh_pipe_ok n32 Let_def)
qed

lemma close_reader:
  "readers_open p = 1 \<Longrightarrow> writers_open p = 1 \<Longrightarrow> refs p = 2 \<Longrightarrow>
     pipe_close_ep True False p = Some ([Poll_Notify, Wake_Writers], p\<lparr>readers_open := 0, refs := 1\<rparr>)"
  by (simp add: pipe_close_ep_def Let_def)

definition two :: "at \<Rightarrow> at \<Rightarrow> nat \<Rightarrow> at" where
  "two a b = (\<lambda>_. Idle)(0 := a, 1 := b)"

lemma two_simps [simp]:
  "two a b 0 = a" "two a b (Suc 0) = b" "(two a b)(0 := c) = two c b" "(two a b)(Suc 0 := c) = two a c"
  "woken v \<circ> two a b = two (woken v a) (woken v b)"
  by (auto simp: two_def fun_eq_iff)

lemma two_Idle: "(\<lambda>_. Idle) = two Idle Idle" "two a Idle = (\<lambda>_. Idle)(0 := a)"
  by (auto simp: two_def)

text \<open>The run, until the writer is back under the lock.\<close>

lemma writer_stuck_reach:
  "\<exists>s. pipe_reach s \<and> thr s = (\<lambda>_. Idle)(0 := Sleeping_W long_write 4096)
     \<and> count (the_pipe s) = 4096 \<and> readers_open (the_pipe s) = 0"
proof -
  obtain p where p: "pipe_write_ep False long_write 0 fresh_pipe = (Write_Full 4096, [Wake_Readers, Poll_Notify], p)"
      "count p = 4096" "readers_open p = 1" "writers_open p = 1" "refs p = 2"
    using long_write_fills by blast
  define q where "q = p\<lparr>readers_open := 0, refs := 1\<rparr>"
  let ?s = "\<lambda>p ss a b. \<lparr>the_pipe = p, thr = two a b, sent = ss, received = []\<rparr>"
  let ?sent = "take 4096 long_write" and ?P = "Pausing long_write 4096"
  have "pipe_reach (?s fresh_pipe [] Idle Idle)"
    unfolding fresh_pipe_def two_Idle(1) [symmetric] by (rule pipe_reach.start)
  from pipe_reach.call_write [OF this, of 0 False long_write] have "pipe_reach (?s fresh_pipe [] (Writing False long_write 0) Idle)" by simp
  from pipe_reach.do_write [OF this, of 0 False long_write 0 _ _ p] p(1)
  have "pipe_reach (?s p ?sent (Waking [Wake_Readers, Poll_Notify] ?P) Idle)" by (simp add: after_write_def accepted_def)
  from pipe_reach.close [OF this, of 1 True False _ q] close_reader [OF p(3,4,5)] p(3)
  have "pipe_reach (?s q ?sent (Waking [Wake_Readers, Poll_Notify] ?P) (Waking [Poll_Notify, Wake_Writers] Idle))"
    by (simp add: q_def)
  from pipe_reach.wake [OF this, of 1] have "pipe_reach (?s q ?sent (Waking [Wake_Readers, Poll_Notify] ?P) (Waking [Wake_Writers] Idle))" by simp
  from pipe_reach.wake [OF this, of 1] have "pipe_reach (?s q ?sent (Waking [Wake_Readers, Poll_Notify] ?P) (Waking [] Idle))" by simp
  from pipe_reach.woke [OF this, of 1] have "pipe_reach (?s q ?sent (Waking [Wake_Readers, Poll_Notify] ?P) Idle)" by simp
  from pipe_reach.wake [OF this, of 0] have "pipe_reach (?s q ?sent (Waking [Poll_Notify] ?P) Idle)" by simp
  from pipe_reach.wake [OF this, of 0] have "pipe_reach (?s q ?sent (Waking [] ?P) Idle)" by simp
  from pipe_reach.woke [OF this, of 0] have "pipe_reach (?s q ?sent ?P Idle)" by simp
  from pipe_reach.pause [OF this, of 0 long_write 4096] p(2) have "pipe_reach (?s q ?sent (Sleeping_W long_write 4096) Idle)"
    by (simp add: q_def pipe_write_wait_def)
  then show ?thesis
    using p(2) by (intro exI [of _ "?s q (take 4096 long_write) (Sleeping_W long_write 4096) Idle"])
      (simp add: two_Idle(2) q_def)
qed

section \<open>Properties\<close>

text \<open>The queue the ring implements.\<close>

definition queue_take :: "nat \<Rightarrow> u8 list \<Rightarrow> u8 list \<times> u8 list" where
  "queue_take n q = (take n q, drop n q)"

definition queue_put :: "u8 list \<Rightarrow> u8 list \<Rightarrow> nat \<times> u8 list" where
  "queue_put xs q = (let n = min (length xs) (PIPE_CAPACITY - length q) in (n, q @ take n xs))"

text \<open>C12: the ring refines a bounded first-in first-out queue: reading takes from the front what is
  there, up to the length asked for, and writing appends as much as fits, wherever the head stands
  and however the bytes wrap around the end of the buffer.\<close>

theorem pipe_refines_queue:
  assumes "pipe_ok p" and "want \<le> length xs"
  shows "(case ring_read n p of (out, p') \<Rightarrow> (out, contents p')) = queue_take n (contents p)
    \<and> (case ring_write xs want p of (m, p') \<Rightarrow> (m, contents p')) = queue_put (take want xs) (contents p)"
proof
  show "(case ring_read n p of (out, p') \<Rightarrow> (out, contents p')) = queue_take n (contents p)"
    using ring_read_ok [OF assms(1), of n] by (auto simp: queue_take_def split: prod.split)
  obtain m p' where w: "ring_write xs want p = (m, p')" by fastforce
  have "m = min (length (take want xs)) (PIPE_CAPACITY - length (contents p))" "contents p' = contents p @ take m (take want xs)"
    using ring_write_ok [OF assms(1) w assms(2)] assms(2) by (auto simp: min_def)
  then show "(case ring_write xs want p of (m, p') \<Rightarrow> (m, contents p')) = queue_put (take want xs) (contents p)"
    by (simp add: w queue_put_def Let_def)
qed

theorem pipe_refines_queue_witness:
  "(case ring_read 2 fresh_pipe of (out, p') \<Rightarrow> (out, contents p')) = ([], [])
    \<and> (case ring_write [7, 8, 9] 2 fresh_pipe of (m, p') \<Rightarrow> (m, contents p')) = (2, [7, 8])"
  using pipe_refines_queue [of fresh_pipe 2 "[7, 8, 9]" 2]
  by (simp add: fresh_pipe_ok queue_take_def queue_put_def)

text \<open>C11: whatever threads do to a pipe, in any interleaving of their locked sections, their wake-ups
  and interruptions, the bytes read are a prefix of the bytes written and the rest is in the ring. A
  reader is asleep with no wake-up to come only while the pipe is empty and a writer is left, and a
  writer only while the ring is full.\<close>

theorem pipe_fifo_and_wakeups:
  assumes "pipe_reach s"
  shows "sent s = received s @ contents (the_pipe s) \<and> count (the_pipe s) \<le> PIPE_CAPACITY
    \<and> (thr s t = Sleeping_R nb len \<and> \<not> due Wake_Readers (thr s) \<longrightarrow>
         count (the_pipe s) = 0 \<and> writers_open (the_pipe s) \<noteq> 0)
    \<and> (thr s t = Sleeping_W xs w \<and> \<not> due Wake_Writers (thr s) \<longrightarrow> count (the_pipe s) = PIPE_CAPACITY)"
  using pipe_reach_ok [OF assms] unfolding system_ok_def readers_served_def writers_served_def pipe_ok_def by blast

theorem pipe_fifo_and_wakeups_witness:
  "\<exists>s :: system. sent s = take 4096 long_write \<and> sent s = received s @ contents (the_pipe s) \<and> count (the_pipe s) \<noteq> 0"
proof -
  obtain p where "pipe_write_ep False long_write 0 fresh_pipe = (Write_Full 4096, [Wake_Readers, Poll_Notify], p)" "count p = 4096"
    using long_write_fills by blast
  with pipe_reach.start [of "\<lambda>_. 0", folded fresh_pipe_def]
  obtain s where s: "pipe_reach s" "sent s = take 4096 long_write" "count (the_pipe s) = 4096"
    using pipe_reach.do_write [OF pipe_reach.call_write [OF pipe_reach.start [of "\<lambda>_. 0", folded fresh_pipe_def], of 0 False long_write], of 0 False long_write 0]
    by (fastforce simp: accepted_def)
  have "sent s = received s @ contents (the_pipe s)" using pipe_fifo_and_wakeups [OF s(1)] by blast
  then show ?thesis using s(2,3) by (metis zero_neq_numeral)
qed

text \<open>C36: a writer can sleep for ever on a pipe that nobody reads. It drops the lock to wake the readers
  and, back under the lock, tests only whether the ring is full: if the last reader closed in
  between, its wake-up has already been spent and no thread has another one to perform.\<close>

theorem pipe_writer_misses_close:
  "\<exists>s xs w. pipe_reach s \<and> thr s = (\<lambda>_. Idle)(0 := Sleeping_W xs w) \<and> readers_open (the_pipe s) = 0
     \<and> \<not> due Wake_Writers (thr s)"
proof -
  obtain s where s: "pipe_reach s" "thr s = (\<lambda>_. Idle)(0 := Sleeping_W long_write 4096)" "readers_open (the_pipe s) = 0"
    using writer_stuck_reach by blast
  then have "\<not> due Wake_Writers (thr s)" by (auto simp: due_def split: if_splits)
  with s show ?thesis by blast
qed

text \<open>C37: a blocking \<open>read\<close> of more than 4096 bytes sleeps although the pipe held data: the system call
  takes a full staging buffer out of the pipe and then asks for more, instead of returning what it
  has.\<close>

theorem read_sleeps_with_data:
  assumes "pipe_ok p" and "count p = PIPE_CAPACITY" and "writers_open p \<noteq> 0" and "missed 0 PIPE_CAPACITY = 0"
    and "PIPE_CAPACITY < len"
  shows "fst (read_to_user missed False 0 len p) = Call_Sleeps PIPE_CAPACITY"
proof -
  have n32: "narrow32 4096 = 4096" by (simp add: narrow32_def)
  obtain xs p' where r: "ring_read 4096 p = (xs, p')" by fastforce
  note rr = ring_read_ok [OF assms(1) r]
  have "contents p' = []" "length xs = 4096" using rr assms(2) by (simp_all flip: length_0_conv)
  then have c: "count p' = 0" "xs \<noteq> []" "length xs = 4096" by auto
  have first: "pipe_read_ep False 4096 p = (Read xs, [Wake_Writers, Poll_Notify], p')"
    using assms(2) r by (simp add: pipe_read_ep_def n32)
  have again: "pipe_read_ep False n p' = (Read_Sleep, [], p')" if "n \<noteq> 0" for n
    using c(1) rr assms(3) that by (simp add: pipe_read_ep_def)
  have "read_to_user missed False 0 len p = read_to_user missed False 4096 (len - 4096) p'"
    using assms(4,5) first c by (subst read_to_user.simps) (simp add: Let_def)
  also have "\<dots> = (Call_Sleeps 4096, p')"
    using assms(5) again by (subst read_to_user.simps) (simp add: Let_def)
  finally show ?thesis by simp
qed

theorem read_sleeps_with_data_witness:
  "\<exists>p. count p = 4096 \<and> fst (read_to_user (\<lambda>_ _. 0) False 0 8192 p) = Call_Sleeps 4096"
proof -
  obtain p where "count p = 4096" "writers_open p = 1" "pipe_ok p" using long_write_fills by blast
  then show ?thesis using read_sleeps_with_data [of p "\<lambda>_ _. 0" 8192] by auto
qed

end
