(* ===== verification/Pipe_Create.thy ===== *)
theory Pipe_Create
  imports Pipe Fd_Correct
begin

text \<open>
  \<open>pipe_create\<close> of \<open>src/kernel/ipc/pipe.c\<close>, where pipes meet the descriptor table: two descriptors are
  allocated and bound to the ends of a new pipe, or everything taken so far is given back.
\<close>

section \<open>Model\<close>

abbreviation (input) pipe_ops :: nat where "pipe_ops \<equiv> 2"
abbreviation (input) ESRCH :: int where "ESRCH \<equiv> 3"

text \<open>The stores into the descriptor \<open>fd\<close> that a caller makes through the pointer \<open>fd_table_get\<close>
  returned.\<close>

definition fd_store :: "int \<Rightarrow> (file_descriptor \<Rightarrow> file_descriptor) \<Rightarrow> fd_table \<Rightarrow> fd_table" where
  "fd_store fd g t = (case fd_table_get t fd of None \<Rightarrow> t | Some f \<Rightarrow> put_slot (fd_bucket_of fd) (fd_slot fd) (g f) 0 t)"

definition bind_end :: "nat \<Rightarrow> int \<Rightarrow> int \<Rightarrow> int \<Rightarrow> file_descriptor \<Rightarrow> file_descriptor" where
  "bind_end p rd wr nb f = f\<lparr>fops := pipe_ops, fpriv := p, readable := rd, writable := wr, nonblock := nb\<rparr>"

text \<open>\<open>p\<close> is what \<open>pipe_alloc\<close> returns, 0 when memory is exhausted, and \<open>has_proc\<close>
  says that there is a current process. The result is the error or the two
  descriptors; \<open>True\<close> in the second place says that the pipe was freed again.\<close>

definition pipe_create :: "bool \<Rightarrow> u32 \<Rightarrow> nat \<Rightarrow> fd_table \<Rightarrow> (int + int \<times> int) \<times> bool \<times> fd_table" where
  "pipe_create has_proc flags p t =
     (if \<not> has_proc then (Inl (- ESRCH), False, t)
      else if flags AND NOT (0x800 OR 0x80000) \<noteq> 0 then (Inl (- EINVAL), False, t)
      else if p = 0 then (Inl (- ENOMEM), False, t)
      else case fd_table_alloc t of (rfd, t) \<Rightarrow>
        if rfd < 0 then (Inl rfd, True, t)
        else case fd_table_alloc t of (wfd, t) \<Rightarrow>
          if wfd < 0 then (Inl wfd, True, fd_table_close has_proc rfd t)
          else if fd_table_get t rfd = None \<or> fd_table_get t wfd = None
          then (Inl (- EBADF), True, fd_table_close has_proc wfd (fd_table_close has_proc rfd t))
          else let nb = (if flags AND 0x800 \<noteq> 0 then 1 else 0);
                   t = fd_store rfd (bind_end p 1 0 nb) t;
                   t = fd_store wfd (bind_end p 0 1 nb) t
               in (Inr (rfd, wfd), False, t))"

section \<open>Correctness\<close>

lemma fd_store_ok:
  assumes ok: "table_ok t" and get: "fd_table_get t fd = Some f" and use: "in_use (g f)"
  shows "table_ok (fd_store fd g t) \<and> fd_table_get (fd_store fd g t) = (fd_table_get t)(fd \<mapsto> g f)"
proof -
  obtain sl where v: "valid_fd fd" "slots (buckets t (fd_bucket_of fd)) = Some sl" "sl (fd_slot fd) = f" "in_use f"
    using get by (auto simp: fd_table_get_def Let_def split: if_splits option.splits)
  note sp = fd_split [OF v(1)]
  have st: "fd_store fd g t = put_slot (fd_bucket_of fd) (fd_slot fd) (g f) 0 t" by (simp add: fd_store_def get)
  have "table_ok (fd_store fd g t)" unfolding st by (rule put_slot_ok [OF ok v(2)]) (use sp v use in simp_all)
  moreover have "fd_table_get (fd_store fd g t) x = ((fd_table_get t)(fd \<mapsto> g f)) x" for x
    unfolding st using put_slot_get [OF v(2), of "fd_slot fd" "g f" 0 x] sp use by auto
  ultimately show ?thesis by blast
qed

abbreviation opened :: file_descriptor where
  "opened \<equiv> slot_reset\<lparr>in_use := True\<rparr>"

lemma fd_alloc_ok:
  assumes "table_ok t" and "fd_table_alloc t = (r, t')"
  shows "table_ok t' \<and> (if r < 0 then fd_table_get t' = fd_table_get t
    else fd_table_get t r = None \<and> (\<forall>fd. 0 \<le> fd \<and> fd < r \<longrightarrow> fd_table_get t fd \<noteq> None)
      \<and> fd_table_get t' = (fd_table_get t)(r \<mapsto> opened))"
proof -
  have "alloc_result (int (scan_from 0 0)) t r t'"
    using assms(2) by (intro alloc_buckets_ok [OF assms(1)]) (simp_all add: fd_table_alloc_def fd_table_alloc_from_def)
  moreover have "int (scan_from 0 0) = 0" by (simp add: scan_from_def)
  ultimately show ?thesis unfolding alloc_result_def lowest_free_def by (auto split: if_splits simp del: fun_upd_apply)
qed

lemma in_use_bound [simp]: "in_use (bind_end p rd wr nb opened)"
  by (simp add: bind_end_def)

text \<open>Both descriptors allocated: what binding them leaves.\<close>

lemma bind_both:
  fixes p :: nat and nb :: int
  assumes "table_ok t2" and "fd_table_get t2 = g(rfd \<mapsto> opened, wfd \<mapsto> opened)" and "rfd \<noteq> wfd"
  defines "t' \<equiv> fd_store wfd (bind_end p 0 1 nb) (fd_store rfd (bind_end p 1 0 nb) t2)"
  shows "table_ok t' \<and> fd_table_get t' = g(rfd \<mapsto> bind_end p 1 0 nb opened, wfd \<mapsto> bind_end p 0 1 nb opened)"
proof -
  let ?t = "fd_store rfd (bind_end p 1 0 nb) t2"
  have "fd_table_get t2 rfd = Some opened" using assms(2,3) by simp
  from fd_store_ok [OF assms(1) this, of "bind_end p 1 0 nb"]
  have t: "table_ok ?t" "fd_table_get ?t = (fd_table_get t2)(rfd \<mapsto> bind_end p 1 0 nb opened)" by simp_all
  have "fd_table_get ?t wfd = Some opened" using t(2) assms(2,3) by simp
  from fd_store_ok [OF t(1) this, of "bind_end p 0 1 nb"] show ?thesis
    unfolding t'_def t(2) assms(2) using assms(3) by (simp add: fun_upd_twist)
qed

text \<open>C35: \<open>pipe2\<close> either fails, and then every descriptor is as it was before the call, none leaked, and a
  pipe that was allocated is freed (none is when there is no current process, the flags are
  invalid or memory is exhausted); or it opens the two lowest free descriptors, the first as the read
  end and the second as the write end of the same new pipe, and changes no other.\<close>

theorem pipe_create_correct:
  assumes "table_ok t" and "pipe_create has_proc flags p t = (r, freed, t')"
  shows "table_ok t' \<and> (case r of
      Inl e \<Rightarrow> fd_table_get t' = fd_table_get t \<and> (freed \<or> p = 0 \<or> e = - EINVAL \<or> \<not> has_proc \<and> e = - ESRCH)
    | Inr (rfd, wfd) \<Rightarrow> \<not> freed \<and> rfd \<noteq> wfd \<and> fd_table_get t rfd = None \<and> fd_table_get t wfd = None
        \<and> (\<forall>fd. 0 \<le> fd \<and> fd < wfd \<and> fd \<noteq> rfd \<longrightarrow> fd_table_get t fd \<noteq> None)
        \<and> (\<exists>nb. fd_table_get t' = (fd_table_get t)
             (rfd \<mapsto> bind_end p 1 0 nb opened, wfd \<mapsto> bind_end p 0 1 nb opened)))"
proof (cases "\<not> has_proc \<or> flags AND NOT (0x800 OR 0x80000) \<noteq> 0 \<or> p = 0")
  case True
  then show ?thesis using assms by (auto simp: pipe_create_def split: if_splits)
next
  case False
  obtain rfd t1 where a1: "fd_table_alloc t = (rfd, t1)" by fastforce
  obtain wfd t2 where a2: "fd_table_alloc t1 = (wfd, t2)" by fastforce
  note r1 = fd_alloc_ok [OF assms(1) a1]
  then have r2: "table_ok t2" "if wfd < 0 then fd_table_get t2 = fd_table_get t1
      else fd_table_get t1 wfd = None \<and> (\<forall>fd. 0 \<le> fd \<and> fd < wfd \<longrightarrow> fd_table_get t1 fd \<noteq> None)
        \<and> fd_table_get t2 = (fd_table_get t1)(wfd \<mapsto> opened)"
    using fd_alloc_ok [OF _ a2] by blast+
  consider "rfd < 0" | "0 \<le> rfd" "wfd < 0" | (both) "0 \<le> rfd" "0 \<le> wfd" by linarith
  then show ?thesis
  proof cases
    case 1
    then show ?thesis using False assms(2) a1 r1 by (auto simp: pipe_create_def)
  next
    case 2
    then have "(fd_table_get t2)(rfd := None) = fd_table_get t" using r1 r2 by (simp add: fun_upd_idem)
    then show ?thesis
      using 2 False assms(2) a1 a2 fd_close_ok [OF r2(1), of has_proc rfd] by (auto simp: pipe_create_def)
  next
    case both
    have g1: "fd_table_get t rfd = None" "\<forall>fd. 0 \<le> fd \<and> fd < rfd \<longrightarrow> fd_table_get t fd \<noteq> None"
        "fd_table_get t1 = (fd_table_get t)(rfd \<mapsto> opened)" using r1 both(1) by simp_all
    have g2: "fd_table_get t1 wfd = None" "\<forall>fd. 0 \<le> fd \<and> fd < wfd \<longrightarrow> fd_table_get t1 fd \<noteq> None"
        "fd_table_get t2 = (fd_table_get t)(rfd \<mapsto> opened, wfd \<mapsto> opened)" using r2(2) both(2) g1(3) by simp_all
    have ne: "rfd \<noteq> wfd" using g1(3) g2(1) by auto
    define nb :: int where "nb = (if flags AND 0x800 \<noteq> 0 then 1 else 0)"
    have "r = Inr (rfd, wfd)" "\<not> freed"
        "t' = fd_store wfd (bind_end p 0 1 nb) (fd_store rfd (bind_end p 1 0 nb) t2)"
      using False assms(2) a1 a2 both g2(3) ne by (simp_all add: pipe_create_def Let_def nb_def)
    moreover note bind_both [OF r2(1) g2(3) ne, where p = p and nb = nb]
    moreover have "fd_table_get t wfd = None" "\<forall>fd. 0 \<le> fd \<and> fd < wfd \<and> fd \<noteq> rfd \<longrightarrow> fd_table_get t fd \<noteq> None"
      using g1(3) g2(1,2) ne by auto
    ultimately show ?thesis using ne g1(1) by auto
  qed
qed

theorem pipe_create_correct_witness:
  "fst (pipe_create True 0 7 empty_table) = Inr (0, 1) \<and> fd_table_get (snd (snd (pipe_create True 0 7 empty_table))) 1 \<noteq> None"
proof -
  have r: "fst (pipe_create True 0 7 empty_table) = Inr (0, 1)" by code_simp
  then have "pipe_create True 0 7 empty_table
      = (Inr (0, 1), fst (snd (pipe_create True 0 7 empty_table)), snd (snd (pipe_create True 0 7 empty_table)))"
    by (metis prod.collapse)
  from pipe_create_correct [OF empty_table_ok this] r show ?thesis by auto
qed

end
