(* ===== verification/Eventfd.thy ===== *)
theory Eventfd
  imports Prelude
begin

text \<open>
  Event counters, \<open>src/kernel/ipc/eventfd.c\<close>: a 64-bit counter that writes add to and reads take
  from. The locked section of an operation is one function; \<open>Ev_Sleep\<close> stands for the call that puts
  the thread to sleep, after which the section runs again or the call returns \<open>-EINTR\<close>.
\<close>

section \<open>Model\<close>

abbreviation (input) EVENTFD_MAX :: u64 where "EVENTFD_MAX \<equiv> 0xFFFFFFFFFFFFFFFE"

record eventfd =
  ev_count :: u64
  semaphore :: bool
  ev_refs :: int

datatype ev_result = Ev_Done | Ev_Value u64 | Ev_Error int | Ev_Sleep

definition eventfd_alloc :: "u32 \<Rightarrow> bool \<Rightarrow> eventfd" where
  "eventfd_alloc initval sem = \<lparr>ev_count = ucast initval, semaphore = sem, ev_refs = 1\<rparr>"

definition eventfd_do_read :: "bool \<Rightarrow> eventfd \<Rightarrow> ev_result \<times> eventfd" where
  "eventfd_do_read nonblock e =
     (if 0 < ev_count e
      then if semaphore e then (Ev_Value 1, e\<lparr>ev_count := ev_count e - 1\<rparr>)
           else (Ev_Value (ev_count e), e\<lparr>ev_count := 0\<rparr>)
      else if nonblock then (Ev_Error (- EAGAIN), e)
      else (Ev_Sleep, e))"

definition eventfd_do_write :: "bool \<Rightarrow> u64 \<Rightarrow> eventfd \<Rightarrow> ev_result \<times> eventfd" where
  "eventfd_do_write nonblock v e =
     (if v = 0xFFFFFFFFFFFFFFFF then (Ev_Error (- EINVAL), e)
      else if ev_count e + v \<le> EVENTFD_MAX then (Ev_Done, e\<lparr>ev_count := ev_count e + v\<rparr>)
      else if nonblock then (Ev_Error (- EAGAIN), e)
      else (Ev_Sleep, e))"

text \<open>The file operations; a request is its length and, for a write, the value at the buffer.\<close>

definition evfd_read :: "bool \<Rightarrow> nat \<Rightarrow> eventfd \<Rightarrow> ev_result \<times> eventfd" where
  "evfd_read nonblock len e = (if len < 8 then (Ev_Error (- EINVAL), e) else eventfd_do_read nonblock e)"

definition evfd_write :: "bool \<Rightarrow> nat \<Rightarrow> u64 \<Rightarrow> eventfd \<Rightarrow> ev_result \<times> eventfd" where
  "evfd_write nonblock len v e = (if len < 8 then (Ev_Error (- EINVAL), e) else eventfd_do_write nonblock v e)"

definition evfd_poll :: "nat \<Rightarrow> eventfd \<Rightarrow> nat" where
  "evfd_poll events e =
     (let mask = (if 0 < ev_count e then 1 else 0);
          mask = (if ev_count e < EVENTFD_MAX then mask OR 4 else mask)
      in mask AND events)"

definition evfd_dup :: "eventfd \<Rightarrow> eventfd" where
  "evfd_dup e = e\<lparr>ev_refs := ev_refs e + 1\<rparr>"

text \<open>\<open>None\<close>: freed.\<close>

definition evfd_close :: "eventfd \<Rightarrow> eventfd option" where
  "evfd_close e = (let e = e\<lparr>ev_refs := ev_refs e - 1\<rparr> in if ev_refs e = 0 then None else Some e)"

section \<open>Properties\<close>

lemma max_values: "unat EVENTFD_MAX = 2 ^ 64 - 2" "unat (0xFFFFFFFFFFFFFFFF :: u64) = 2 ^ 64 - 1"
  by simp_all

text \<open>C39: a non-blocking write of a value other than the reserved one to a counter within its range. If
  the sum stays within the range it is added; if it is one more, the write fails and changes nothing.
  If the sum exceeds 64 bits, the range test is made on the wrapped sum, so the write succeeds and the
  counter becomes smaller than it was: the events counted before are lost.\<close>

theorem eventfd_write_wraps:
  assumes "ev_count e \<le> EVENTFD_MAX" and "v \<noteq> 0xFFFFFFFFFFFFFFFF" and "eventfd_do_write True v e = (r, e')"
  shows "if unat (ev_count e) + unat v \<le> 2 ^ 64 - 2
    then r = Ev_Done \<and> unat (ev_count e') = unat (ev_count e) + unat v
    else if unat (ev_count e) + unat v = 2 ^ 64 - 1 then r = Ev_Error (- EAGAIN) \<and> e' = e
    else r = Ev_Done \<and> ev_count e' < ev_count e"
proof -
  let ?c = "ev_count e" and ?n = "unat (ev_count e) + unat v"
  have "unat v \<noteq> 2 ^ 64 - 1" using assms(2) max_values(2) by (metis unsigned_word_eqI)
  moreover have "unat v < 2 ^ 64" using unsigned_less [of v] by simp
  ultimately have v: "unat v \<le> 2 ^ 64 - 2" by linarith
  have c: "unat ?c \<le> 2 ^ 64 - 2" using assms(1) by (simp add: word_le_nat_alt)
  have add: "unat (?c + v) = ?n mod 2 ^ 64" by (simp add: unat_word_ariths)
  consider "?n \<le> 2 ^ 64 - 2" | "?n = 2 ^ 64 - 1" | "2 ^ 64 \<le> ?n" by linarith
  then show ?thesis
  proof cases
    case 1
    then have "unat (?c + v) = ?n" using add by simp
    then show ?thesis using 1 assms(2,3) by (auto simp: eventfd_do_write_def word_le_nat_alt)
  next
    case 2
    then have "unat (?c + v) = 2 ^ 64 - 1" using add by simp
    then have "\<not> ?c + v \<le> EVENTFD_MAX" by (simp add: word_le_nat_alt)
    then show ?thesis using 2 assms(2,3) by (auto simp: eventfd_do_write_def)
  next
    case 3
    have "?n mod 2 ^ 64 = ?n - 2 ^ 64" using 3 v c by (simp add: mod_if)
    then have "unat (?c + v) < unat ?c" "?c + v \<le> EVENTFD_MAX" using add 3 v c by (simp_all add: word_le_nat_alt)
    then show ?thesis using 3 assms(2,3) by (auto simp: eventfd_do_write_def word_less_nat_alt)
  qed
qed

theorem eventfd_write_wraps_witness:
  "eventfd_do_write True 0xFFFFFFFFFFFFFFFE \<lparr>ev_count = 5, semaphore = False, ev_refs = 1\<rparr>
     = (Ev_Done, \<lparr>ev_count = 3, semaphore = False, ev_refs = 1\<rparr>) \<and> (3 :: u64) < 5"
  using eventfd_write_wraps [of "\<lparr>ev_count = 5, semaphore = False, ev_refs = 1\<rparr>" "0xFFFFFFFFFFFFFFFE" Ev_Done
      "\<lparr>ev_count = 3, semaphore = False, ev_refs = 1\<rparr>"]
  by (simp add: eventfd_do_write_def)

end
