(* ===== verification/Flock.thy ===== *)
theory Flock
  imports Prelude
begin

text \<open>
  Advisory record locks, \<open>src/kernel/fs/flock.c\<close>: a table of 512 records, each a byte range of a file
  that a process holds for reading or writing.

  The table is a list. Byte positions are \<open>nat\<close> below \<open>2 ^ 64\<close>: the code adds or subtracts one only
  where a comparison just made excludes a wrap. The signed 64-bit arithmetic on the request is written
  out with \<open>s64\<close>. \<open>None\<close> is the dereference of a null record. A process that has to wait leaves a
  waiter behind and sleeps on the wait queue \<open>flock_wait\<close>, here the list \<open>asleep\<close> of the waiters whose
  process is queued and has not been woken; back from its sleep it removes the waiter and runs the
  section again. Whoever changes the table wakes the queue only after dropping the table lock:
  \<open>wakes\<close> counts the calls of \<open>waitq_wake_all\<close> that such processes still have to make, and each
  call is a step of its own. A waiter has the fields of a lock record, in another order.
\<close>

section \<open>State\<close>

abbreviation (input) FLOCK_MAX :: nat where "FLOCK_MAX \<equiv> 512"
abbreviation (input) FLOCK_WAITERS :: nat where "FLOCK_WAITERS \<equiv> 64"
abbreviation (input) END_OF_FILE :: nat where "END_OF_FILE \<equiv> 18446744073709551615"
abbreviation (input) ENOLCK :: int where "ENOLCK \<equiv> 37"
abbreviation (input) EDEADLK :: int where "EDEADLK \<equiv> 35"
abbreviation (input) F_RDLCK :: int where "F_RDLCK \<equiv> 0"
abbreviation (input) F_WRLCK :: int where "F_WRLCK \<equiv> 1"
abbreviation (input) F_UNLCK :: int where "F_UNLCK \<equiv> 2"

record lock_rec =
  in_use :: bool
  vn :: nat
  pid :: nat
  type :: int
  start :: nat
  stop :: nat

record flock_table =
  recs :: "lock_rec list"
  waiters :: "lock_rec list"
  asleep :: "nat list"
  wakes :: nat

abbreviation wake_due :: "flock_table \<Rightarrow> flock_table" where
  "wake_due t \<equiv> t\<lparr>wakes := wakes t + 1\<rparr>"

text \<open>The call of \<open>waitq_wake_all\<close> that a process makes after it has dropped the table lock.\<close>

definition flock_wake :: "flock_table \<Rightarrow> flock_table" where
  "flock_wake t = t\<lparr>asleep := [], wakes := wakes t - 1\<rparr>"

definition overlaps :: "nat \<Rightarrow> nat \<Rightarrow> nat \<Rightarrow> nat \<Rightarrow> bool" where
  "overlaps s1 e1 s2 e2 \<longleftrightarrow> s1 \<le> e2 \<and> s2 \<le> e1"

section \<open>Conflicts and free records\<close>

definition conflict_locked :: "lock_rec list \<Rightarrow> nat \<Rightarrow> nat \<Rightarrow> int \<Rightarrow> nat \<Rightarrow> nat \<Rightarrow> lock_rec option" where
  "conflict_locked rs v p ty s e =
     find (\<lambda>r. in_use r \<and> vn r = v \<and> pid r \<noteq> p \<and> overlaps (start r) (stop r) s e \<and> (type r = F_WRLCK \<or> ty = F_WRLCK)) rs"

fun free_index :: "lock_rec list \<Rightarrow> nat option" where
  "free_index [] = None"
| "free_index (r # rs) = (if \<not> in_use r then Some 0 else map_option Suc (free_index rs))"

definition free_recs_locked :: "lock_rec list \<Rightarrow> nat" where
  "free_recs_locked rs = length (filter (\<lambda>r. \<not> in_use r) rs)"

section \<open>Carving a range out\<close>

definition mine :: "nat \<Rightarrow> nat \<Rightarrow> lock_rec \<Rightarrow> bool" where
  "mine v p r \<longleftrightarrow> in_use r \<and> vn r = v \<and> pid r = p"

definition splits :: "nat \<Rightarrow> nat \<Rightarrow> nat \<Rightarrow> nat \<Rightarrow> lock_rec \<Rightarrow> bool" where
  "splits v p s e r \<longleftrightarrow> mine v p r \<and> start r < s \<and> e < stop r"

definition carve_one :: "nat \<Rightarrow> nat \<Rightarrow> nat \<Rightarrow> nat \<Rightarrow> nat \<Rightarrow> lock_rec list \<Rightarrow> lock_rec list option" where
  "carve_one v p s e i rs =
     (let r = rs ! i in
      if \<not> mine v p r \<or> \<not> overlaps (start r) (stop r) s e then Some rs
      else if s \<le> start r \<and> stop r \<le> e then Some (rs[i := r\<lparr>in_use := False\<rparr>])
      else if start r < s \<and> e < stop r
      then case free_index rs of
          None \<Rightarrow> None
        | Some j \<Rightarrow> Some (rs[j := r\<lparr>start := e + 1\<rparr>, i := r\<lparr>stop := s - 1\<rparr>])
      else if start r < s then Some (rs[i := r\<lparr>stop := s - 1\<rparr>])
      else Some (rs[i := r\<lparr>start := e + 1\<rparr>]))"

definition carve_locked :: "nat \<Rightarrow> nat \<Rightarrow> nat \<Rightarrow> nat \<Rightarrow> lock_rec list \<Rightarrow> (int \<times> lock_rec list) option" where
  "carve_locked v p s e rs =
     (if free_recs_locked rs < length (filter (splits v p s e) rs) then Some (- ENOLCK, rs)
      else map_option (\<lambda>rs. (0, rs)) (fold_opt (carve_one v p s e) [0..<length rs] rs))"

section \<open>Merging neighbours\<close>

definition touch :: "lock_rec \<Rightarrow> lock_rec \<Rightarrow> bool" where
  "touch a b \<longleftrightarrow> overlaps (start a) (stop a) (start b) (stop b)
     \<or> stop a \<noteq> END_OF_FILE \<and> stop a + 1 = start b \<or> stop b \<noteq> END_OF_FILE \<and> stop b + 1 = start a"

definition joins :: "nat \<Rightarrow> nat \<Rightarrow> lock_rec list \<Rightarrow> nat \<times> nat \<Rightarrow> bool" where
  "joins v p rs ij = (case ij of (i, j) \<Rightarrow>
     mine v p (rs ! i) \<and> j \<noteq> i \<and> mine v p (rs ! j) \<and> type (rs ! j) = type (rs ! i) \<and> touch (rs ! i) (rs ! j))"

definition join :: "nat \<Rightarrow> nat \<Rightarrow> lock_rec list \<Rightarrow> lock_rec list" where
  "join i j rs =
     (let a = rs ! i; b = rs ! j
      in rs[i := a\<lparr>start := min (start a) (start b), stop := max (stop a) (stop b)\<rparr>, j := b\<lparr>in_use := False\<rparr>])"

definition first_join :: "nat \<Rightarrow> nat \<Rightarrow> lock_rec list \<Rightarrow> (nat \<times> nat) option" where
  "first_join v p rs = find (joins v p rs) (List.product [0..<length rs] [0..<length rs])"

lemma find_SomeD: "find P xs = Some x \<Longrightarrow> P x \<and> x \<in> set xs"
  by (induction xs) (auto split: if_splits)

lemma count_update:
  "i < length xs \<Longrightarrow> length (filter P (xs[i := y])) + of_bool (P (xs ! i)) = length (filter P xs) + of_bool (P y)"
proof (induction xs arbitrary: i)
  case (Cons x xs)
  then show ?case by (cases i) auto
qed simp

lemma first_join_SomeD:
  "first_join v p rs = Some (i, j) \<Longrightarrow> i < length rs \<and> j < length rs \<and> joins v p rs (i, j)"
  unfolding first_join_def by (drule find_SomeD) auto

lemma join_shrinks:
  assumes "i < length rs" and "j < length rs" and "joins v p rs (i, j)"
  shows "length (filter in_use (join i j rs)) < length (filter in_use rs)"
proof -
  define a where "a = (rs ! i)\<lparr>start := min (start (rs ! i)) (start (rs ! j)), stop := max (stop (rs ! i)) (stop (rs ! j))\<rparr>"
  have u: "in_use (rs ! i)" "in_use (rs ! j)" "j \<noteq> i" "in_use a" using assms(3) by (auto simp: joins_def mine_def a_def)
  have "join i j rs = rs[i := a, j := (rs ! j)\<lparr>in_use := False\<rparr>]" by (simp add: join_def Let_def a_def)
  then show ?thesis
    using count_update [OF assms(1), of in_use a] count_update [of j "rs[i := a]" in_use "(rs ! j)\<lparr>in_use := False\<rparr>"]
      u assms(2) by simp
qed

function merge_locked :: "nat \<Rightarrow> nat \<Rightarrow> lock_rec list \<Rightarrow> lock_rec list" where
  "merge_locked v p rs =
     (case first_join v p rs of None \<Rightarrow> rs | Some ij \<Rightarrow> merge_locked v p (join (fst ij) (snd ij) rs))"
  by pat_completeness auto

termination merge_locked
proof (relation "measure (\<lambda>(v, p, rs). length (filter in_use rs))")
  fix v p rs ij assume "first_join v p rs = Some ij"
  then show "((v, p, join (fst ij) (snd ij) rs), v, p, rs) \<in> measure (\<lambda>(v, p, rs). length (filter in_use rs))"
    using first_join_SomeD [of v p rs "fst ij" "snd ij"] join_shrinks [of "fst ij" rs "snd ij" v p] by simp
qed simp

section \<open>Deadlock detection\<close>

text \<open>Follows holders to what they wait for, at most \<open>FLOCK_WAITERS\<close> times.\<close>

fun chase :: "nat \<Rightarrow> flock_table \<Rightarrow> nat \<Rightarrow> nat \<Rightarrow> bool" where
  "chase 0 t p holder = False"
| "chase (Suc hops) t p holder =
     (if holder = p then True
      else case find (\<lambda>w. in_use w \<and> pid w = holder) (waiters t) of
          None \<Rightarrow> False
        | Some w \<Rightarrow>
            (case conflict_locked (recs t) (vn w) (pid w) (type w) (start w) (stop w) of
               None \<Rightarrow> False
             | Some r \<Rightarrow> chase hops t p (pid r)))"

definition deadlock_locked :: "flock_table \<Rightarrow> nat \<Rightarrow> nat \<Rightarrow> bool" where
  "deadlock_locked t p holder = chase FLOCK_WAITERS t p holder"

section \<open>The request\<close>

definition s64 :: "int \<Rightarrow> int" where
  "s64 x = signed_take_bit 63 x"

record k_flock =
  l_type :: int
  l_whence :: int
  l_start :: int
  l_len :: int
  l_pid :: nat

definition lock_range :: "int \<Rightarrow> int \<Rightarrow> int + nat \<times> nat" where
  "lock_range st len =
     (if st < 0 then Inl (- EINVAL)
      else Inr (nat st, if len = 0 then END_OF_FILE else nat ((st + len - 1) mod 2 ^ 64)))"

text \<open>\<open>position\<close> and \<open>fsize\<close> of the open file, as the code casts them.\<close>

definition range_of :: "int \<Rightarrow> int \<Rightarrow> k_flock \<Rightarrow> int + nat \<times> nat" where
  "range_of position fsize fl =
     (if l_whence fl \<noteq> 0 \<and> l_whence fl \<noteq> 1 \<and> l_whence fl \<noteq> 2 then Inl (- EINVAL)
      else let base = (if l_whence fl = 0 then 0 else if l_whence fl = 1 then s64 position else s64 fsize);
               st = s64 (base + l_start fl);
               len = l_len fl
           in if len < 0 then lock_range (s64 (st + len)) (s64 (- len)) else lock_range st len)"

section \<open>The file-control call\<close>

datatype flock_result = Flock_Returns int k_flock | Flock_Sleeps nat

datatype lock_cmd = F_GETLK | F_SETLK | F_SETLKW

text \<open>Taking the range once nothing conflicts.\<close>

definition take_range :: "nat \<Rightarrow> nat \<Rightarrow> int \<Rightarrow> nat \<Rightarrow> nat \<Rightarrow> lock_rec list \<Rightarrow> (int \<times> lock_rec list) option" where
  "take_range v p ty s e rs = do {
     (rc, rs) \<leftarrow> carve_locked v p s e rs;
     if rc = 0
     then case free_index rs of
         None \<Rightarrow> Some (- ENOLCK, rs)
       | Some i \<Rightarrow> Some (0, merge_locked v p (rs[i := \<lparr>in_use = True, vn = v, pid = p, type = ty, start = s, stop = e\<rparr>]))
     else Some (rc, rs)
   }"

definition getlk_answer :: "k_flock \<Rightarrow> lock_rec option \<Rightarrow> k_flock" where
  "getlk_answer fl c = (case c of
     None \<Rightarrow> fl\<lparr>l_type := F_UNLCK\<rparr>
   | Some r \<Rightarrow> fl\<lparr>l_type := type r, l_whence := 0, l_start := s64 (int (start r)),
       l_len := (if stop r = END_OF_FILE then 0 else s64 (int (stop r) - int (start r) + 1)), l_pid := pid r\<rparr>)"

text \<open>The section under the table lock, for a range already computed; \<open>Flock_Sleeps i\<close> leaves waiter \<open>i\<close>
  registered. Where the code goes on to wake the queue, the wake-up becomes due.\<close>

definition flock_section ::
  "lock_cmd \<Rightarrow> k_flock \<Rightarrow> nat \<Rightarrow> nat \<Rightarrow> nat \<Rightarrow> nat \<Rightarrow> flock_table \<Rightarrow> (flock_result \<times> flock_table) option" where
  "flock_section cmd fl v p s e t =
     (let ty = l_type fl in
      if cmd = F_GETLK
      then Some (Flock_Returns 0 (getlk_answer fl (if ty = F_UNLCK then None else conflict_locked (recs t) v p ty s e)), t)
      else if ty = F_UNLCK
      then map_option (\<lambda>(rc, rs). (Flock_Returns rc fl, wake_due (t\<lparr>recs := rs\<rparr>))) (carve_locked v p s e (recs t))
      else case conflict_locked (recs t) v p ty s e of
          Some c \<Rightarrow>
            if cmd = F_SETLK then Some (Flock_Returns (- EAGAIN) fl, t)
            else if deadlock_locked t p (pid c) then Some (Flock_Returns (- EDEADLK) fl, t)
            else (case free_index (waiters t) of
                    None \<Rightarrow> Some (Flock_Returns (- ENOLCK) fl, t)
                  | Some i \<Rightarrow> Some (Flock_Sleeps i, t\<lparr>waiters := (waiters t)
                      [i := \<lparr>in_use = True, vn = v, pid = p, type = ty, start = s, stop = e\<rparr>], asleep := i # asleep t\<rparr>))
        | None \<Rightarrow>
            if free_recs_locked (recs t) < 1 then Some (Flock_Returns (- ENOLCK) fl, t)
            else map_option (\<lambda>(rc, rs). (Flock_Returns rc fl, wake_due (t\<lparr>recs := rs\<rparr>))) (take_range v p ty s e (recs t)))"

text \<open>What a process does first when its sleep ends, by a wake-up or a signal; after a signal it returns
  \<open>EINTR\<close>, otherwise it runs the section again.\<close>

definition flock_woken :: "nat \<Rightarrow> flock_table \<Rightarrow> flock_table" where
  "flock_woken i t = t\<lparr>waiters := (waiters t)[i := (waiters t ! i)\<lparr>in_use := False\<rparr>], asleep := removeAll i (asleep t)\<rparr>"

definition flock_fcntl ::
  "bool \<Rightarrow> bool \<Rightarrow> int \<Rightarrow> int \<Rightarrow> lock_cmd \<Rightarrow> k_flock \<Rightarrow> nat \<Rightarrow> nat \<Rightarrow> flock_table \<Rightarrow> (flock_result \<times> flock_table) option" where
  "flock_fcntl is_file writable position fsize cmd fl v p t =
     (if \<not> is_file then Some (Flock_Returns (- EINVAL) fl, t)
      else if l_type fl \<noteq> F_RDLCK \<and> l_type fl \<noteq> F_WRLCK \<and> l_type fl \<noteq> F_UNLCK then Some (Flock_Returns (- EINVAL) fl, t)
      else if cmd \<noteq> F_GETLK \<and> l_type fl = F_WRLCK \<and> \<not> writable then Some (Flock_Returns (- EBADF) fl, t)
      else case range_of position fsize fl of
          Inl e \<Rightarrow> Some (Flock_Returns e fl, t)
        | Inr (s, e) \<Rightarrow> flock_section cmd fl v p s e t)"

section \<open>Releasing\<close>

definition release :: "(lock_rec \<Rightarrow> bool) \<Rightarrow> flock_table \<Rightarrow> flock_table" where
  "release P t =
     (let t' = t\<lparr>recs := map (\<lambda>r. if P r then r\<lparr>in_use := False\<rparr> else r) (recs t)\<rparr>
      in if \<exists>r \<in> set (recs t). P r then wake_due t' else t')"

definition flock_release_vnode :: "nat \<Rightarrow> nat \<Rightarrow> flock_table \<Rightarrow> flock_table" where
  "flock_release_vnode v p = release (\<lambda>r. in_use r \<and> vn r = v \<and> pid r = p)"

definition flock_release_pid :: "nat \<Rightarrow> flock_table \<Rightarrow> flock_table" where
  "flock_release_pid p = release (\<lambda>r. in_use r \<and> pid r = p)"

end
