(* ===== verification/Flock_Correct.thy ===== *)
theory Flock_Correct
  imports Flock
begin

text \<open>
  The table read as a set of facts: which process holds which byte of which file, and how. Carving
  removes the bytes of a range, merging changes nothing, taking a range adds its bytes. No byte is ever
  held by one process for writing while another process holds it.
\<close>

section \<open>Who holds what\<close>

type_synonym fact = "nat \<times> nat \<times> int \<times> nat"

definition rcov :: "lock_rec \<Rightarrow> fact set" where
  "rcov r = (if in_use r then (\<lambda>x. (vn r, pid r, type r, x)) ` {start r..stop r} else {})"

lemma rcov_mem: "(v, p, ty, x) \<in> rcov r \<longleftrightarrow> in_use r \<and> vn r = v \<and> pid r = p \<and> type r = ty \<and> start r \<le> x \<and> x \<le> stop r"
  by (auto simp: rcov_def)

definition held :: "lock_rec list \<Rightarrow> fact set" where
  "held rs = {x. \<exists>i < length rs. x \<in> rcov (rs ! i)}"

definition hole :: "nat \<Rightarrow> nat \<Rightarrow> nat \<Rightarrow> nat \<Rightarrow> fact set" where
  "hole v p s e = {(v, p, ty, x) |ty x. s \<le> x \<and> x \<le> e}"

lemma free_index_Some: "free_index rs = Some j \<Longrightarrow> j < length rs \<and> \<not> in_use (rs ! j)"
  by (induction rs arbitrary: j) (auto split: if_splits)

lemma free_index_None: "free_index rs = None \<longleftrightarrow> free_recs_locked rs = 0"
  by (induction rs) (auto simp: free_recs_locked_def)

lemma held_set: "x \<in> held rs \<longleftrightarrow> (\<exists>r \<in> set rs. x \<in> rcov r)"
  unfolding held_def mem_Collect_eq by (metis in_set_conv_nth)

section \<open>Carving\<close>

text \<open>Replacing record \<open>i\<close> by one that covers the same bytes outside the hole.\<close>

lemma held_replace:
  assumes "i < length rs" and "rcov r - H = rcov (rs ! i) - H"
  shows "held (rs[i := r]) - H = held rs - H"
  unfolding held_def length_list_update
proof (intro set_eqI iffI)
  fix x
  show "x \<in> {x. \<exists>j<length rs. x \<in> rcov (rs ! j)} - H" if "x \<in> {x. \<exists>j<length rs. x \<in> rcov (rs[i := r] ! j)} - H"
    using that assms by (auto simp: nth_list_update split: if_splits)
  show "x \<in> {x. \<exists>j<length rs. x \<in> rcov (rs[i := r] ! j)} - H" if "x \<in> {x. \<exists>j<length rs. x \<in> rcov (rs ! j)} - H"
    using that assms by (auto simp: nth_list_update)
qed

text \<open>Singling out two records.\<close>

definition others :: "nat \<Rightarrow> nat \<Rightarrow> lock_rec list \<Rightarrow> fact set" where
  "others i j rs = {x. \<exists>k < length rs. k \<noteq> i \<and> k \<noteq> j \<and> x \<in> rcov (rs ! k)}"

lemma held_split: "i < length rs \<Longrightarrow> j < length rs \<Longrightarrow> j \<noteq> i \<Longrightarrow> held rs = rcov (rs ! i) \<union> rcov (rs ! j) \<union> others i j rs"
  unfolding held_def others_def by blast

lemma held_two:
  assumes "i < length rs" and "j < length rs" and "j \<noteq> i"
  shows "held (rs[j := t, i := h]) = rcov h \<union> rcov t \<union> others i j rs"
proof -
  have "others i j (rs[j := t, i := h]) = others i j rs" by (auto simp: others_def)
  then show ?thesis using assms held_split [of i "rs[j := t, i := h]" j] by simp
qed

definition budget :: "nat \<Rightarrow> nat \<Rightarrow> nat \<Rightarrow> nat \<Rightarrow> lock_rec list \<Rightarrow> bool" where
  "budget v p s e rs \<longleftrightarrow> length (filter (splits v p s e) rs) \<le> free_recs_locked rs"

definition carved :: "nat \<Rightarrow> nat \<Rightarrow> nat \<Rightarrow> nat \<Rightarrow> nat \<Rightarrow> lock_rec list \<Rightarrow> lock_rec list \<Rightarrow> bool" where
  "carved v p s e i rs rs' \<longleftrightarrow> length rs' = length rs \<and> budget v p s e rs' \<and> held rs' - hole v p s e = held rs - hole v p s e
     \<and> rcov (rs' ! i) \<inter> hole v p s e = {}
     \<and> (\<forall>j < length rs. rcov (rs' ! j) \<inter> hole v p s e \<subseteq> rcov (rs ! j))"

lemma carved_update:
  assumes i: "i < length rs" and b: "budget v p s e rs" and ns: "\<not> splits v p s e (rs ! i)" "\<not> splits v p s e r"
    and free: "\<not> in_use r \<or> in_use (rs ! i)" 
    and cov: "rcov r = rcov (rs ! i) - hole v p s e"
  shows "carved v p s e i rs (rs[i := r])"
proof -
  have "length (filter (splits v p s e) (rs[i := r])) = length (filter (splits v p s e) rs)"
    using count_update [OF i, of "splits v p s e" r] ns by simp
  moreover have "free_recs_locked rs \<le> free_recs_locked (rs[i := r])"
    using count_update [OF i, of "\<lambda>r. \<not> in_use r" r] free by (auto simp: free_recs_locked_def of_bool_def split: if_splits)
  ultimately have "budget v p s e (rs[i := r])" using b by (simp add: budget_def)
  moreover have "held (rs[i := r]) - hole v p s e = held rs - hole v p s e" by (rule held_replace [OF i]) (use cov in auto)
  ultimately show ?thesis using i cov by (auto simp: carved_def nth_list_update)
qed

lemma carved_split:
  assumes i: "i < length rs" and j: "j < length rs" "\<not> in_use (rs ! j)" and se: "s \<le> e" and b: "budget v p s e rs"
    and sp: "splits v p s e (rs ! i)"
  shows "carved v p s e i rs (rs[j := (rs ! i)\<lparr>start := e + 1\<rparr>, i := (rs ! i)\<lparr>stop := s - 1\<rparr>])"
proof -
  let ?r = "rs ! i" and ?H = "hole v p s e"
  define t h where "t = ?r\<lparr>start := e + 1\<rparr>" and "h = ?r\<lparr>stop := s - 1\<rparr>"
  have ne: "j \<noteq> i" using j(2) sp by (auto simp: splits_def mine_def)
  have ns: "\<not> splits v p s e t" "\<not> splits v p s e h" "\<not> splits v p s e (rs ! j)" "in_use t" "in_use h" "in_use ?r"
    using sp se j(2) by (auto simp: splits_def mine_def t_def h_def)
  have r: "in_use ?r" "vn ?r = v" "pid ?r = p" "start ?r < s" "e < stop ?r" using sp by (auto simp: splits_def mine_def)
  let ?f = "\<lambda>x. (v, p, type ?r, x)"
  have img: "rcov ?r = ?f ` {start ?r..stop ?r}" "rcov t = ?f ` {e + 1..stop ?r}" "rcov h = ?f ` {start ?r..s - 1}"
    using r by (simp_all add: rcov_def t_def h_def)
  have "rcov ?r - ?H = ?f ` ({start ?r..stop ?r} - {s..e})" unfolding img by (auto simp: hole_def)
  also have "{start ?r..stop ?r} - {s..e} = {e + 1..stop ?r} \<union> {start ?r..s - 1}" using r se by auto
  finally have cov: "rcov ?r - ?H = rcov t \<union> rcov h" unfolding img by (simp only: image_Un)
  have cov0: "rcov t \<inter> ?H = {}" "rcov h \<inter> ?H = {}" "rcov (rs ! j) = {}"
    using r j(2) by (auto simp: img hole_def) (simp add: rcov_def)
  have "length (filter (splits v p s e) (rs[j := t, i := h])) + 1 = length (filter (splits v p s e) rs)"
    using count_update [OF j(1), of "splits v p s e" t] count_update [of i "rs[j := t]" "splits v p s e" h] i ne ns sp by simp
  moreover have "free_recs_locked (rs[j := t, i := h]) + 1 = free_recs_locked rs"
    using count_update [OF j(1), of "\<lambda>r. \<not> in_use r" t] count_update [of i "rs[j := t]" "\<lambda>r. \<not> in_use r" h] i ne ns j(2)
    by (simp add: free_recs_locked_def)
  ultimately have "budget v p s e (rs[j := t, i := h])" using b by (simp add: budget_def)
  moreover have "held (rs[j := t, i := h]) - ?H = held rs - ?H"
    unfolding held_two [OF i j(1) ne, where h = h and t = t] held_split [OF i j(1) ne] cov0(3) using cov cov0 by blast
  ultimately have "carved v p s e i rs (rs[j := t, i := h])"
    using cov0 i j(1) ne by (auto simp: carved_def nth_list_update)
  then show ?thesis by (simp add: t_def h_def)
qed

lemma carve_one_ok:
  assumes i: "i < length rs" and se: "s \<le> e" and b: "budget v p s e rs"
  shows "\<exists>rs'. carve_one v p s e i rs = Some rs' \<and> carved v p s e i rs rs'"
proof -
  let ?r = "rs ! i" and ?H = "hole v p s e"
  consider (skip) "\<not> mine v p ?r \<or> \<not> overlaps (start ?r) (stop ?r) s e"
    | (inside) "mine v p ?r" "s \<le> start ?r" "stop ?r \<le> e" "overlaps (start ?r) (stop ?r) s e"
    | (split) "splits v p s e ?r" "overlaps (start ?r) (stop ?r) s e"
    | (tail) "mine v p ?r" "start ?r < s" "stop ?r \<le> e" "overlaps (start ?r) (stop ?r) s e"
    | (head) "mine v p ?r" "s \<le> start ?r" "e < stop ?r" "overlaps (start ?r) (stop ?r) s e"
    unfolding splits_def by linarith
  then show ?thesis
  proof cases
    case skip
    then have "rcov ?r \<inter> ?H = {}" by (auto simp: rcov_def hole_def mine_def overlaps_def)
    then show ?thesis using skip b by (auto simp: carve_one_def Let_def carved_def)
  next
    case inside
    have "carved v p s e i rs (rs[i := ?r\<lparr>in_use := False\<rparr>])"
      by (rule carved_update [OF i b]) (use inside in \<open>auto simp: splits_def mine_def rcov_def hole_def\<close>)
    then show ?thesis using inside by (simp add: carve_one_def Let_def)
  next
    case tail
    have "carved v p s e i rs (rs[i := ?r\<lparr>stop := s - 1\<rparr>])"
      by (rule carved_update [OF i b]) (use tail se in \<open>auto simp: splits_def mine_def rcov_def hole_def overlaps_def\<close>)
    then show ?thesis using tail by (simp add: carve_one_def Let_def)
  next
    case head
    have "carved v p s e i rs (rs[i := ?r\<lparr>start := e + 1\<rparr>])"
      by (rule carved_update [OF i b]) (use head se in \<open>auto simp: splits_def mine_def rcov_def hole_def overlaps_def\<close>)
    then show ?thesis using head by (auto simp: carve_one_def Let_def)
  next
    case split
    then have "?r \<in> set (filter (splits v p s e) rs)" using i by simp
    then have "0 < length (filter (splits v p s e) rs)" by (metis length_pos_if_in_set)
    then have "free_recs_locked rs \<noteq> 0" using b unfolding budget_def by linarith
    then obtain j where j: "free_index rs = Some j" using free_index_None [of rs] by (metis not_None_eq)
    have "carve_one v p s e i rs = Some (rs[j := ?r\<lparr>start := e + 1\<rparr>, i := ?r\<lparr>stop := s - 1\<rparr>])"
      using split j se by (auto simp: carve_one_def Let_def splits_def)
    then show ?thesis using carved_split [OF i _ _ se b split(1)] free_index_Some [OF j] by blast
  qed
qed

lemma carve_upto:
  assumes se: "s \<le> e" and b: "budget v p s e rs" and "k \<le> length rs"
  shows "\<exists>rs'. fold_opt (carve_one v p s e) [0..<k] rs = Some rs' \<and> length rs' = length rs \<and> budget v p s e rs'
    \<and> held rs' - hole v p s e = held rs - hole v p s e \<and> (\<forall>j < k. rcov (rs' ! j) \<inter> hole v p s e = {})"
  using assms(3)
proof (induction k)
  case 0
  then show ?case using b by simp
next
  case (Suc k)
  then have k: "k \<le> length rs" "k < length rs" by simp_all
  from Suc.IH [OF k(1)] obtain rs1 where
    r1: "fold_opt (carve_one v p s e) [0..<k] rs = Some rs1" "length rs1 = length rs" "budget v p s e rs1"
      "held rs1 - hole v p s e = held rs - hole v p s e" "\<forall>j < k. rcov (rs1 ! j) \<inter> hole v p s e = {}" by blast
  have "k < length rs1" using k(2) r1(2) by simp
  from carve_one_ok [OF this se r1(3)] obtain rs2 where
    r2: "carve_one v p s e k rs1 = Some rs2" and c: "carved v p s e k rs1 rs2" by blast
  have c': "length rs2 = length rs1" "budget v p s e rs2" "held rs2 - hole v p s e = held rs1 - hole v p s e"
      "rcov (rs2 ! k) \<inter> hole v p s e = {}" "\<forall>j < length rs1. rcov (rs2 ! j) \<inter> hole v p s e \<subseteq> rcov (rs1 ! j)"
    using c unfolding carved_def by blast+
  have "rcov (rs2 ! j) \<inter> hole v p s e = {}" if "j < Suc k" for j
  proof (cases "j = k")
    case False
    then have "j < k" "j < length rs1" using that k r1(2) by simp_all
    then show ?thesis using c'(5) r1(5) by blast
  qed (use c'(4) in simp)
  moreover have "fold_opt (carve_one v p s e) [0..<Suc k] rs = Some rs2" using r1(1) r2 by simp
  moreover have "held rs2 - hole v p s e = held rs - hole v p s e" using c'(3) r1(4) by (rule trans)
  moreover have "length rs2 = length rs" using c'(1) r1(2) by simp
  ultimately show ?case using c'(2) by blast
qed

text \<open>The records a carving needs and the ones it frees: a record that reaches past the range on both
  sides takes one more, a record inside the range is given back.\<close>

definition touched :: "nat \<Rightarrow> nat \<Rightarrow> nat \<Rightarrow> nat \<Rightarrow> lock_rec \<Rightarrow> bool" where
  "touched v p s e r \<longleftrightarrow> mine v p r \<and> overlaps (start r) (stop r) s e"

definition swallowed :: "nat \<Rightarrow> nat \<Rightarrow> nat \<Rightarrow> nat \<Rightarrow> lock_rec \<Rightarrow> bool" where
  "swallowed v p s e r \<longleftrightarrow> touched v p s e r \<and> s \<le> start r \<and> stop r \<le> e"

definition taken_by_split :: "nat \<Rightarrow> nat \<Rightarrow> nat \<Rightarrow> nat \<Rightarrow> lock_rec list \<Rightarrow> nat" where
  "taken_by_split v p s e rs = length (filter (splits v p s e) rs)"

definition given_back :: "nat \<Rightarrow> nat \<Rightarrow> nat \<Rightarrow> nat \<Rightarrow> lock_rec list \<Rightarrow> nat" where
  "given_back v p s e rs = length (filter (swallowed v p s e) rs)"

definition balanced :: "nat \<Rightarrow> nat \<Rightarrow> nat \<Rightarrow> nat \<Rightarrow> lock_rec list \<Rightarrow> lock_rec list \<Rightarrow> bool" where
  "balanced v p s e rs rs' \<longleftrightarrow> length rs' = length rs
     \<and> free_recs_locked rs' + given_back v p s e rs' + taken_by_split v p s e rs
       = free_recs_locked rs + given_back v p s e rs + taken_by_split v p s e rs'
     \<and> (\<forall>j < length rs. touched v p s e (rs' ! j) \<longrightarrow> touched v p s e (rs ! j))"

lemma balanced_update:
  assumes i: "i < length rs" and t: "touched v p s e (rs ! i)" and n: "\<not> touched v p s e r" "s \<le> e"
    and one: "of_bool (\<not> in_use r) = (of_bool (swallowed v p s e (rs ! i)) :: nat)" "\<not> splits v p s e (rs ! i)"
  shows "balanced v p s e rs (rs[i := r])"
proof -
  have "\<not> swallowed v p s e r" "\<not> splits v p s e r"
    using n by (auto simp: swallowed_def splits_def touched_def overlaps_def)
  moreover have "in_use (rs ! i)" using t by (simp add: touched_def mine_def)
  ultimately show ?thesis
    using i t n one count_update [OF i, of "splits v p s e" r] count_update [OF i, of "swallowed v p s e" r]
      count_update [OF i, of "\<lambda>r. \<not> in_use r" r]
    unfolding balanced_def free_recs_locked_def given_back_def taken_by_split_def by (auto simp: nth_list_update)
qed

lemma balanced_split:
  assumes i: "i < length rs" and j: "j < length rs" "\<not> in_use (rs ! j)" and sp: "splits v p s e (rs ! i)" and se: "s \<le> e"
  shows "balanced v p s e rs (rs[j := (rs ! i)\<lparr>start := e + 1\<rparr>, i := (rs ! i)\<lparr>stop := s - 1\<rparr>])"
proof -
  define t h where "t = (rs ! i)\<lparr>start := e + 1\<rparr>" and "h = (rs ! i)\<lparr>stop := s - 1\<rparr>"
  have ne: "j \<noteq> i" using j(2) sp by (auto simp: splits_def mine_def)
  have n: "\<not> touched v p s e t" "\<not> touched v p s e h" "in_use t" "in_use h" "in_use (rs ! i)"
    using sp se by (auto simp: touched_def splits_def mine_def t_def h_def overlaps_def)
  then have "\<not> swallowed v p s e t" "\<not> swallowed v p s e h" "\<not> swallowed v p s e (rs ! i)" "\<not> swallowed v p s e (rs ! j)"
      "\<not> splits v p s e t" "\<not> splits v p s e h" "\<not> splits v p s e (rs ! j)"
    using sp j(2) se by (auto simp: swallowed_def touched_def splits_def mine_def overlaps_def)
  moreover have "\<not> touched v p s e (rs ! j)" using j(2) by (simp add: touched_def mine_def)
  ultimately have "balanced v p s e rs (rs[j := t, i := h])"
    using i j ne n sp
      count_update [OF j(1), of "splits v p s e" t] count_update [of i "rs[j := t]" "splits v p s e" h]
      count_update [OF j(1), of "swallowed v p s e" t] count_update [of i "rs[j := t]" "swallowed v p s e" h]
      count_update [OF j(1), of "\<lambda>r. \<not> in_use r" t] count_update [of i "rs[j := t]" "\<lambda>r. \<not> in_use r" h]
    unfolding balanced_def free_recs_locked_def given_back_def taken_by_split_def by (auto simp: nth_list_update)
  then show ?thesis by (simp add: t_def h_def)
qed

lemma carve_one_balanced:
  assumes i: "i < length rs" and se: "s \<le> e" and c: "carve_one v p s e i rs = Some rs'"
  shows "balanced v p s e rs rs' \<and> \<not> touched v p s e (rs' ! i)"
proof (cases "touched v p s e (rs ! i)")
  case False
  then have "rs' = rs" using c by (auto simp: carve_one_def Let_def touched_def)
  then show ?thesis using False by (simp add: balanced_def)
next
  case t: True
  let ?r = "rs ! i"
  note u = balanced_update [OF i t _ se]
  have m: "mine v p ?r" "overlaps (start ?r) (stop ?r) s e" using t by (simp_all add: touched_def)
  consider (inside) "s \<le> start ?r" "stop ?r \<le> e" | (split) "start ?r < s" "e < stop ?r"
    | (tail) "start ?r < s" "stop ?r \<le> e" | (head) "s \<le> start ?r" "e < stop ?r" by linarith
  then show ?thesis
  proof cases
    case inside
    then have r: "rs' = rs[i := ?r\<lparr>in_use := False\<rparr>]" using c m by (auto simp: carve_one_def Let_def)
    show ?thesis unfolding r using u [of "?r\<lparr>in_use := False\<rparr>"] i t inside
      by (auto simp: touched_def mine_def splits_def swallowed_def)
  next
    case split
    then obtain j where j: "free_index rs = Some j" "rs' = rs[j := ?r\<lparr>start := e + 1\<rparr>, i := ?r\<lparr>stop := s - 1\<rparr>]"
      using c m by (auto simp: carve_one_def Let_def split: option.splits)
    have "splits v p s e ?r" using split m by (simp add: splits_def)
    then show ?thesis using balanced_split [OF i _ _ _ se] free_index_Some [OF j(1)] split i
      unfolding j(2) by (auto simp: touched_def overlaps_def)
  next
    case tail
    then have r: "rs' = rs[i := ?r\<lparr>stop := s - 1\<rparr>]" using c m by (auto simp: carve_one_def Let_def)
    show ?thesis unfolding r using u [of "?r\<lparr>stop := s - 1\<rparr>"] i m tail
      by (auto simp: touched_def mine_def splits_def swallowed_def overlaps_def)
  next
    case head
    then have r: "rs' = rs[i := ?r\<lparr>start := e + 1\<rparr>]" using c m by (auto simp: carve_one_def Let_def)
    show ?thesis unfolding r using u [of "?r\<lparr>start := e + 1\<rparr>"] i m head
      by (auto simp: touched_def mine_def splits_def swallowed_def overlaps_def)
  qed
qed

lemma carve_balanced:
  "k \<le> length rs \<Longrightarrow> s \<le> e \<Longrightarrow> fold_opt (carve_one v p s e) [0..<k] rs = Some rs' \<Longrightarrow>
     balanced v p s e rs rs' \<and> (\<forall>j < k. \<not> touched v p s e (rs' ! j))"
proof (induction k arbitrary: rs')
  case 0
  then show ?case by (simp add: balanced_def)
next
  case (Suc k)
  then obtain rs1 where r1: "fold_opt (carve_one v p s e) [0..<k] rs = Some rs1" "carve_one v p s e k rs1 = Some rs'"
    by (auto split: option.splits)
  have b1: "balanced v p s e rs rs1" "\<forall>j < k. \<not> touched v p s e (rs1 ! j)" using Suc.IH [OF _ Suc.prems(2) r1(1)] Suc.prems(1) by simp_all
  have len: "k < length rs1" using b1(1) Suc.prems(1) by (simp add: balanced_def)
  note b2 = carve_one_balanced [OF len Suc.prems(2) r1(2)]
  have "\<not> touched v p s e (rs' ! j)" if j: "j < Suc k" for j
  proof (cases "j = k")
    case False
    then have "j < k" "j < length rs1" using j len by simp_all
    then show ?thesis using b1(2) b2 unfolding balanced_def by blast
  qed (use b2 in simp)
  then show ?case using b1(1) b2 unfolding balanced_def by auto
qed

lemma carve_frees:
  assumes "s \<le> e" and "fold_opt (carve_one v p s e) [0..<length rs] rs = Some rs'"
  shows "free_recs_locked rs' + taken_by_split v p s e rs = free_recs_locked rs + given_back v p s e rs"
proof -
  note b = carve_balanced [OF order_refl assms]
  have "\<forall>r \<in> set rs'. \<not> touched v p s e r" using b by (auto simp: balanced_def in_set_conv_nth)
  then have "given_back v p s e rs' = 0" "taken_by_split v p s e rs' = 0"
    using assms(1) unfolding given_back_def taken_by_split_def
    by (auto simp: filter_empty_conv swallowed_def splits_def touched_def overlaps_def)
  then show ?thesis using b by (simp add: balanced_def)
qed

text \<open>Carving fails exactly when the splits need more records than there are.\<close>

lemma carve_locked_exact:
  assumes "s \<le> e"
  shows "if free_recs_locked rs < taken_by_split v p s e rs then carve_locked v p s e rs = Some (- ENOLCK, rs)
    else \<exists>rs'. carve_locked v p s e rs = Some (0, rs') \<and> length rs' = length rs \<and> held rs' = held rs - hole v p s e
      \<and> free_recs_locked rs' + taken_by_split v p s e rs = free_recs_locked rs + given_back v p s e rs"
proof (cases "budget v p s e rs")
  case False
  then show ?thesis by (simp add: carve_locked_def budget_def taken_by_split_def)
next
  case True
  from carve_upto [OF assms True, of "length rs"]
  obtain rs' where r: "fold_opt (carve_one v p s e) [0..<length rs] rs = Some rs'" "length rs' = length rs"
      "held rs' - hole v p s e = held rs - hole v p s e" "\<forall>j < length rs. rcov (rs' ! j) \<inter> hole v p s e = {}" by blast
  have "held rs' \<inter> hole v p s e = {}" using r(2,4) unfolding held_def by auto
  then have "held rs' = held rs - hole v p s e" using r(3) by blast
  then show ?thesis using r(1,2) carve_frees [OF assms r(1)] True by (simp add: carve_locked_def budget_def taken_by_split_def)
qed

lemma carve_locked_ok:
  assumes "s \<le> e"
  shows "\<exists>rc rs'. carve_locked v p s e rs = Some (rc, rs') \<and> length rs' = length rs
    \<and> (rc = 0 \<and> held rs' = held rs - hole v p s e \<or> rc = - ENOLCK \<and> rs' = rs)"
  using carve_locked_exact [OF assms, of rs v p] by (auto split: if_splits)

section \<open>Merging\<close>

lemma held_join:
  assumes "i < length rs" and "j < length rs" and "joins v p rs (i, j)"
  shows "held (join i j rs) = held rs"
proof -
  let ?a = "rs ! i" and ?b = "rs ! j"
  define a where "a = ?a\<lparr>start := min (start ?a) (start ?b), stop := max (stop ?a) (stop ?b)\<rparr>"
  define b where "b = ?b\<lparr>in_use := False\<rparr>"
  have m: "mine v p ?a" "mine v p ?b" "j \<noteq> i" "type ?b = type ?a" "touch ?a ?b" using assms(3) by (auto simp: joins_def)
  have "{start a..stop a} = {start ?a..stop ?a} \<union> {start ?b..stop ?b}"
    using m(5) by (auto simp: a_def touch_def overlaps_def min_def max_def split: if_splits)
  then have cov: "rcov a = rcov ?a \<union> rcov ?b" "rcov b = {}"
    using m by (auto simp: rcov_def mine_def a_def b_def image_Un)
  have eq: "join i j rs = rs[i := a, j := b]" by (simp add: join_def Let_def a_def b_def)
  show ?thesis
    unfolding eq list_update_swap [OF m(3), of rs b a, symmetric] held_two [OF assms(1,2) m(3), where h = a and t = b]
      held_split [OF assms(1,2) m(3)] cov by blast
qed

lemma merge_locked_ok: "held (merge_locked v p rs) = held rs \<and> length (merge_locked v p rs) = length rs"
proof (induction v p rs rule: merge_locked.induct)
  case (1 v p rs)
  show ?case
  proof (cases "first_join v p rs")
    case None
    then show ?thesis by (subst (1 2) merge_locked.simps) simp
  next
    case (Some ij)
    then have ij: "fst ij < length rs" "snd ij < length rs" "joins v p rs (fst ij, snd ij)"
      using first_join_SomeD [of v p rs "fst ij" "snd ij"] by simp_all
    have "length (join (fst ij) (snd ij) rs) = length rs" by (simp add: join_def Let_def)
    then show ?thesis using 1 [OF Some] held_join [OF ij] Some by (subst (1 2) merge_locked.simps) simp
  qed
qed

section \<open>Taking a range\<close>

definition grant :: "nat \<Rightarrow> nat \<Rightarrow> int \<Rightarrow> nat \<Rightarrow> nat \<Rightarrow> fact set" where
  "grant v p ty s e = {(v, p, ty, x) |x. s \<le> x \<and> x \<le> e}"

lemma held_add:
  assumes "i < length rs" and "\<not> in_use (rs ! i)"
  shows "held (rs[i := r]) = rcov r \<union> held rs"
proof (intro set_eqI iffI)
  fix x assume "x \<in> held (rs[i := r])"
  then show "x \<in> rcov r \<union> held rs" using assms by (auto simp: held_def nth_list_update split: if_splits)
next
  fix x assume x: "x \<in> rcov r \<union> held rs"
  show "x \<in> held (rs[i := r])"
  proof (cases "x \<in> rcov r")
    case True
    then show ?thesis using assms(1) by (auto simp: held_def intro!: exI [of _ i])
  next
    case False
    then obtain k where "k < length rs" "x \<in> rcov (rs ! k)" using x by (auto simp: held_def)
    moreover have "k \<noteq> i" using calculation assms(2) by (auto simp: rcov_def)
    ultimately show ?thesis by (auto simp: held_def intro!: exI [of _ k])
  qed
qed

text \<open>Taking the range fails without a change when the splits need more records than there are, and
  with the range given up when carving leaves no record free.\<close>

lemma take_range_exact:
  assumes "s \<le> e"
  shows "if free_recs_locked rs < taken_by_split v p s e rs then take_range v p ty s e rs = Some (- ENOLCK, rs)
    else \<exists>rc rs'. take_range v p ty s e rs = Some (rc, rs') \<and> length rs' = length rs
      \<and> (if free_recs_locked rs + given_back v p s e rs = taken_by_split v p s e rs
         then rc = - ENOLCK \<and> held rs' = held rs - hole v p s e
         else rc = 0 \<and> held rs' = (held rs - hole v p s e) \<union> grant v p ty s e)"
proof (cases "free_recs_locked rs < taken_by_split v p s e rs")
  case True
  then show ?thesis using carve_locked_exact [OF assms, of rs v p] by (simp add: take_range_def)
next
  case False
  then obtain rs1 where c: "carve_locked v p s e rs = Some (0, rs1)" "length rs1 = length rs"
      "held rs1 = held rs - hole v p s e"
      "free_recs_locked rs1 + taken_by_split v p s e rs = free_recs_locked rs + given_back v p s e rs"
    using carve_locked_exact [OF assms, of rs v p] by auto
  let ?new = "\<lparr>in_use = True, vn = v, pid = p, type = ty, start = s, stop = e\<rparr>"
  have new: "rcov ?new = grant v p ty s e" by (auto simp: rcov_def grant_def)
  show ?thesis
  proof (cases "free_index rs1")
    case None
    then show ?thesis using c False free_index_None [of rs1] by (simp add: take_range_def)
  next
    case (Some i)
    then have "held (rs1[i := ?new]) = (held rs - hole v p s e) \<union> grant v p ty s e"
      using held_add [of i rs1 ?new] free_index_Some [OF Some] new c(3) by auto
    moreover have "free_recs_locked rs1 \<noteq> 0" using Some free_index_None [of rs1] by auto
    ultimately show ?thesis
      using c False Some merge_locked_ok [of v p "rs1[i := ?new]"] by (simp add: take_range_def)
  qed
qed

lemma take_range_ok:
  assumes "s \<le> e"
  shows "\<exists>rc rs'. take_range v p ty s e rs = Some (rc, rs') \<and> length rs' = length rs
    \<and> (rc = 0 \<and> held rs' = (held rs - hole v p s e) \<union> grant v p ty s e
       \<or> rc = - ENOLCK \<and> (rs' = rs \<or> held rs' = held rs - hole v p s e))"
  using take_range_exact [OF assms, of rs v p ty] by (auto split: if_splits)

section \<open>Exclusion\<close>

definition consistent :: "fact set \<Rightarrow> bool" where
  "consistent C \<longleftrightarrow> (\<forall>v p q ty ty' x. (v, p, ty, x) \<in> C \<and> (v, q, ty', x) \<in> C \<longrightarrow>
     (if p = q then ty = ty' else ty \<noteq> F_WRLCK \<and> ty' \<noteq> F_WRLCK))"

lemma consistent_subset: "consistent C \<Longrightarrow> D \<subseteq> C \<Longrightarrow> consistent D"
  unfolding consistent_def by blast

lemma conflict_None:
  assumes "conflict_locked rs v p ty s e = None" and "(v, q, ty', x) \<in> held rs" and "q \<noteq> p" and "s \<le> x" and "x \<le> e"
  shows "ty' \<noteq> F_WRLCK \<and> ty \<noteq> F_WRLCK"
proof -
  obtain r where "r \<in> set rs" "(v, q, ty', x) \<in> rcov r" using assms(2) held_set by blast
  moreover have "overlaps (start r) (stop r) s e" using calculation(2) assms(4,5) by (auto simp: rcov_mem overlaps_def)
  ultimately show ?thesis using assms(1,3) by (auto simp: conflict_locked_def find_None_iff rcov_mem)
qed

lemma consistent_grant:
  assumes c: "consistent C"
    and free: "\<And>q ty' x. (v, q, ty', x) \<in> C \<Longrightarrow> q \<noteq> p \<Longrightarrow> s \<le> x \<Longrightarrow> x \<le> e \<Longrightarrow> ty' \<noteq> F_WRLCK \<and> ty \<noteq> F_WRLCK"
  shows "consistent ((C - hole v p s e) \<union> grant v p ty s e)"
  unfolding consistent_def
proof (intro allI impI)
  fix v' p' q' a b x
  assume asm: "(v', p', a, x) \<in> (C - hole v p s e) \<union> grant v p ty s e \<and> (v', q', b, x) \<in> (C - hole v p s e) \<union> grant v p ty s e"
  consider (both) "(v', p', a, x) \<in> C" "(v', q', b, x) \<in> C"
    | (l) "(v', p', a, x) \<in> grant v p ty s e" "(v', q', b, x) \<in> C - hole v p s e"
    | (r) "(v', p', a, x) \<in> C - hole v p s e" "(v', q', b, x) \<in> grant v p ty s e"
    | (g) "(v', p', a, x) \<in> grant v p ty s e" "(v', q', b, x) \<in> grant v p ty s e" using asm by blast
  then show "if p' = q' then a = b else a \<noteq> F_WRLCK \<and> b \<noteq> F_WRLCK"
  proof cases
    case both
    then show ?thesis using c unfolding consistent_def by blast
  next
    case l
    then have "q' \<noteq> p" "v' = v" "p' = p" "a = ty" "s \<le> x" "x \<le> e" by (auto simp: grant_def hole_def)
    then show ?thesis using free [of q' b x] l by auto
  next
    case r
    then have "p' \<noteq> p" "v' = v" "q' = p" "b = ty" "s \<le> x" "x \<le> e" by (auto simp: grant_def hole_def)
    then show ?thesis using free [of p' a x] r by auto
  next
    case g
    then show ?thesis by (auto simp: grant_def)
  qed
qed

text \<open>What the section under the table lock does.\<close>

definition outcome :: "k_flock \<Rightarrow> nat \<Rightarrow> nat \<Rightarrow> nat \<Rightarrow> nat \<Rightarrow> lock_rec list \<Rightarrow> lock_rec list \<Rightarrow> bool" where
  "outcome fl v p s e rs rs' \<longleftrightarrow> rs' = rs \<or> held rs' = held rs - hole v p s e
     \<or> held rs' = (held rs - hole v p s e) \<union> grant v p (l_type fl) s e \<and> conflict_locked rs v p (l_type fl) s e = None"

text \<open>Whoever sleeps waits for a lock that is held, or is about to be woken.\<close>

definition parked :: "flock_table \<Rightarrow> bool" where
  "parked t \<longleftrightarrow> (\<forall>i \<in> set (asleep t). i < length (waiters t) \<and> in_use (waiters t ! i)
     \<and> (0 < wakes t
        \<or> (let w = waiters t ! i in conflict_locked (recs t) (vn w) (pid w) (type w) (start w) (stop w) \<noteq> None)))"

lemma parked_due: "parked t \<Longrightarrow> parked (wake_due (t\<lparr>recs := rs\<rparr>))"
  by (simp add: parked_def)

lemma parked_wake: "parked (flock_wake t)"
  by (simp add: parked_def flock_wake_def)

lemma parked_woken: "parked t \<Longrightarrow> parked (flock_woken i t)"
  unfolding parked_def flock_woken_def by (auto simp: nth_list_update Let_def)

lemma parked_sleep:
  assumes "parked t" and "free_index (waiters t) = Some i" and "conflict_locked (recs t) v p ty s e = Some c"
  shows "parked (t\<lparr>waiters := (waiters t)[i := \<lparr>in_use = True, vn = v, pid = p, type = ty, start = s, stop = e\<rparr>],
    asleep := i # asleep t\<rparr>)"
  using assms(1,3) free_index_Some [OF assms(2)] unfolding parked_def by (auto simp: nth_list_update Let_def)

lemma flock_section_ok:
  assumes "s \<le> e"
  shows "\<exists>r t'. flock_section cmd fl v p s e t = Some (r, t') \<and> outcome fl v p s e (recs t) (recs t')
    \<and> (parked t \<longrightarrow> parked t')"
proof -
  consider "cmd = F_GETLK" | (unlock) "cmd \<noteq> F_GETLK" "l_type fl = F_UNLCK"
    | (conf) c where "cmd \<noteq> F_GETLK" "l_type fl \<noteq> F_UNLCK" "conflict_locked (recs t) v p (l_type fl) s e = Some c"
    | (grab) "cmd \<noteq> F_GETLK" "l_type fl \<noteq> F_UNLCK" "conflict_locked (recs t) v p (l_type fl) s e = None" by fastforce
  then show ?thesis
  proof cases
    case 1
    then show ?thesis by (simp add: flock_section_def Let_def outcome_def)
  next
    case unlock
    then show ?thesis
      using carve_locked_ok [OF assms, of v p "recs t"] by (auto simp: flock_section_def Let_def outcome_def parked_def)
  next
    case conf
    then show ?thesis
      using parked_sleep [OF _ _ conf(3)] by (auto simp: flock_section_def Let_def outcome_def split: option.split)
  next
    case grab
    then show ?thesis
      using take_range_ok [OF assms, of v p "l_type fl" "recs t"]
      by (auto simp: flock_section_def Let_def outcome_def parked_def)
  qed
qed

lemma outcome_consistent:
  assumes "consistent (held rs)" and "outcome fl v p s e rs rs'"
  shows "consistent (held rs')"
  using assms(2) unfolding outcome_def
proof (elim disjE conjE)
  assume "rs' = rs"
  then show ?thesis using assms(1) by simp
next
  assume "held rs' = held rs - hole v p s e"
  then show ?thesis using assms(1) consistent_subset by (metis Diff_subset)
next
  assume g: "held rs' = (held rs - hole v p s e) \<union> grant v p (l_type fl) s e" "conflict_locked rs v p (l_type fl) s e = None"
  show ?thesis unfolding g(1) by (rule consistent_grant [OF assms(1)]) (use conflict_None [OF g(2)] in blast)
qed

section \<open>Runs\<close>

lemma s64_range: "- (2 ^ 63) \<le> s64 x \<and> s64 x < 2 ^ 63"
  unfolding s64_def using signed_take_bit_int_greater_eq_minus_exp [of 63 x] signed_take_bit_int_less_exp [of 63 x] by simp

lemma lock_range_ok:
  assumes "lock_range st len = Inr (s, e)" and "st < 2 ^ 63" and "0 \<le> len \<and> len < 2 ^ 63 \<or> len = - (2 ^ 63)"
  shows "s \<le> e"
proof -
  have st: "0 \<le> st" "s = nat st" "e = (if len = 0 then END_OF_FILE else nat ((st + len - 1) mod 2 ^ 64))"
    using assms(1) by (auto simp: lock_range_def split: if_splits)
  consider "len = 0" | (pos) "0 < len" | (neg) "len = - (2 ^ 63)" using assms(3) by linarith
  then show ?thesis
  proof cases
    case 1
    then show ?thesis using st assms(2) by simp
  next
    case pos
    then have "(st + len - 1) mod 2 ^ 64 = st + len - 1" using st assms(2,3) by (intro mod_pos_pos_trivial) auto
    then show ?thesis using pos st by simp
  next
    case neg
    have "(st + len - 1) mod 2 ^ 64 = (st + len - 1 + 2 ^ 64) mod 2 ^ 64" by (rule mod_add_self2 [symmetric])
    also have "\<dots> = st + 2 ^ 63 - 1" using st assms(2) neg by (subst mod_pos_pos_trivial) auto
    finally show ?thesis using neg st by simp
  qed
qed

text \<open>The lengths of requests are 64-bit.\<close>

lemma range_of_ok:
  assumes "- (2 ^ 63) \<le> l_len fl" and "l_len fl < 2 ^ 63" and "range_of position fsize fl = Inr (s, e)"
  shows "s \<le> e"
proof -
  obtain st where "lock_range (s64 st) (if l_len fl < 0 then s64 (- l_len fl) else l_len fl) = Inr (s, e)"
    using assms(3) by (auto simp: range_of_def Let_def split: if_splits)
  moreover have "s64 (- l_len fl) = (if l_len fl = - (2 ^ 63) then - (2 ^ 63) else - l_len fl)" if "l_len fl < 0"
  proof (cases "l_len fl = - (2 ^ 63)")
    case True
    then show ?thesis by (simp add: s64_def signed_take_bit_eq_take_bit_shift)
  next
    case False
    then show ?thesis using that assms(1) by (simp add: s64_def signed_take_bit_int_eq_self)
  qed
  ultimately show ?thesis
    using assms(1,2) s64_range by (elim lock_range_ok) (auto split: if_splits)
qed

text \<open>Requests, wake-ups, interruptions and releases in any order, from a table with no lock and no
  waiter, of any size. Other processes may run between the change of the table and the wake-up that
  follows it.\<close>

inductive flock_reach :: "flock_table \<Rightarrow> bool" where
  start: "\<forall>r \<in> set (rs @ ws). \<not> in_use r \<Longrightarrow> flock_reach \<lparr>recs = rs, waiters = ws, asleep = [], wakes = 0\<rparr>"
| call: "flock_reach t \<Longrightarrow> - (2 ^ 63) \<le> l_len fl \<Longrightarrow> l_len fl < 2 ^ 63 \<Longrightarrow>
    flock_fcntl is_file writable position fsize cmd fl v p t = Some (r, t') \<Longrightarrow> flock_reach t'"
| interrupted: "flock_reach t \<Longrightarrow> flock_reach (flock_woken i t)"
| again: "flock_reach t \<Longrightarrow> s \<le> e \<Longrightarrow> flock_section F_SETLKW fl v p s e (flock_woken i t) = Some (r, t') \<Longrightarrow> flock_reach t'"
| wake: "flock_reach t \<Longrightarrow> 0 < wakes t \<Longrightarrow> flock_reach (flock_wake t)"
| close: "flock_reach t \<Longrightarrow> flock_reach (flock_release_vnode v p t)"
| exit: "flock_reach t \<Longrightarrow> flock_reach (flock_release_pid p t)"

lemma flock_section_keeps:
  assumes "s \<le> e"
  shows "\<exists>r t'. flock_section cmd fl v p s e t = Some (r, t')
    \<and> (consistent (held (recs t)) \<and> parked t \<longrightarrow> consistent (held (recs t')) \<and> parked t')"
  using flock_section_ok [OF assms, of cmd fl v p t] outcome_consistent by blast

lemma flock_fcntl_ok:
  assumes "- (2 ^ 63) \<le> l_len fl" and "l_len fl < 2 ^ 63"
  shows "\<exists>r t'. flock_fcntl is_file writable position fsize cmd fl v p t = Some (r, t')
    \<and> (consistent (held (recs t)) \<and> parked t \<longrightarrow> consistent (held (recs t')) \<and> parked t')"
proof (cases "range_of position fsize fl")
  case (Inl e)
  then show ?thesis by (simp add: flock_fcntl_def)
next
  case (Inr se)
  then obtain s e where se: "range_of position fsize fl = Inr (s, e)" by (cases se) auto
  show ?thesis using se flock_section_keeps [OF range_of_ok [OF assms se], of cmd fl v p t] by (auto simp: flock_fcntl_def)
qed

lemma release_ok:
  assumes "consistent (held (recs t))" and "parked t"
  shows "consistent (held (recs (release P t))) \<and> parked (release P t)"
proof
  have "held (map (\<lambda>r. if P r then r\<lparr>in_use := False\<rparr> else r) (recs t)) \<subseteq> held (recs t)"
    by (auto simp: held_def rcov_def split: if_splits)
  then show "consistent (held (recs (release P t)))" using consistent_subset [OF assms(1)] by (simp add: release_def Let_def)
  have "map (\<lambda>r. if P r then r\<lparr>in_use := False\<rparr> else r) (recs t) = recs t" if "\<not> (\<exists>r \<in> set (recs t). P r)"
    using that by (induction "recs t") (auto intro: map_idI)
  then show "parked (release P t)" using assms(2) by (auto simp: release_def Let_def parked_def)
qed

lemma flock_reach_ok: "flock_reach t \<Longrightarrow> consistent (held (recs t)) \<and> parked t"
proof (induction rule: flock_reach.induct)
  case (start rs ws)
  then have "held rs = {}" by (auto simp: held_def rcov_def)
  then show ?case by (simp add: consistent_def parked_def)
next
  case (call t fl is_file writable position fsize cmd v p r t')
  then show ?case
    using flock_fcntl_ok [OF call(2,3), of is_file writable position fsize cmd v p t] by auto
next
  case (interrupted t i)
  then show ?case using parked_woken by (simp add: flock_woken_def)
next
  case (again t s e fl v p i r t')
  have "consistent (held (recs (flock_woken i t))) \<and> parked (flock_woken i t)"
    using again.IH parked_woken by (simp add: flock_woken_def)
  then show ?case using again.hyps(3) flock_section_keeps [OF again.hyps(2), of F_SETLKW fl v p "flock_woken i t"] by auto
next
  case (wake t)
  then show ?case using parked_wake by (simp add: flock_wake_def)
next
  case (close t v p)
  then show ?case using release_ok by (simp add: flock_release_vnode_def)
next
  case (exit t p)
  then show ?case using release_ok by (simp add: flock_release_pid_def)
qed

section \<open>Properties\<close>

text \<open>C13: record locks exclude. In every table that requests, wake-ups, closes and exits lead to, no byte
  of a file that one process holds for writing is held by another process, and a process holds a byte
  in one way only; and the next request of any process returns or sleeps, it never runs into a missing
  record.\<close>

theorem flock_exclusion:
  assumes "flock_reach t" and "- (2 ^ 63) \<le> l_len fl" and "l_len fl < 2 ^ 63"
  shows "((v, p, ty, x) \<in> held (recs t) \<and> (v, q, ty', x) \<in> held (recs t) \<longrightarrow>
      (if p = q then ty = ty' else ty \<noteq> F_WRLCK \<and> ty' \<noteq> F_WRLCK))
    \<and> flock_fcntl is_file writable position fsize cmd fl v' p' t \<noteq> None"
proof -
  have "consistent (held (recs t))" using flock_reach_ok [OF assms(1)] by blast
  moreover have "\<exists>r t'. flock_fcntl is_file writable position fsize cmd fl v' p' t = Some (r, t')"
    using flock_fcntl_ok [OF assms(2,3)] by blast
  ultimately show ?thesis unfolding consistent_def by (metis option.distinct(1))
qed

definition no_lock :: lock_rec where
  "no_lock = \<lparr>in_use = False, vn = 0, pid = 0, type = 0, start = 0, stop = 0\<rparr>"

definition empty_locks :: flock_table where
  "empty_locks = \<lparr>recs = replicate 512 no_lock, waiters = replicate 64 no_lock, asleep = [], wakes = 0\<rparr>"

lemma empty_locks_reach: "flock_reach empty_locks"
  unfolding empty_locks_def by (rule flock_reach.start) (auto simp: no_lock_def)

theorem flock_exclusion_witness:
  "flock_fcntl True True 0 0 F_SETLK \<lparr>l_type = 1, l_whence = 0, l_start = 5, l_len = 10, l_pid = 0\<rparr> 3 7 empty_locks \<noteq> None"
  using flock_exclusion [OF empty_locks_reach, of "\<lparr>l_type = 1, l_whence = 0, l_start = 5, l_len = 10, l_pid = 0\<rparr>"] by simp

text \<open>C14: no wake-up is lost. In every table the runs lead to, with any number of steps of other processes
  between a change of the table and the wake-up that follows it, a process asleep in a lock request that
  nobody has woken has its waiter registered, and a record of another process conflicts with its request
  or a call of \<open>waitq_wake_all\<close>, which wakes it, is still to come.\<close>

theorem flock_no_lost_wakeup:
  assumes "flock_reach t" and "i \<in> set (asleep t)" and "w = waiters t ! i"
  shows "i < length (waiters t) \<and> in_use w \<and> (0 < wakes t \<and> asleep (flock_wake t) = []
    \<or> (\<exists>r \<in> set (recs t). in_use r \<and> vn r = vn w \<and> pid r \<noteq> pid w
        \<and> overlaps (start r) (stop r) (start w) (stop w) \<and> (type r = F_WRLCK \<or> type w = F_WRLCK)))"
proof -
  have "i < length (waiters t) \<and> in_use w
      \<and> (0 < wakes t \<or> conflict_locked (recs t) (vn w) (pid w) (type w) (start w) (stop w) \<noteq> None)"
    using flock_reach_ok [OF assms(1)] assms(2,3) by (auto simp: parked_def Let_def)
  then show ?thesis by (auto simp: conflict_locked_def flock_wake_def dest!: find_SomeD)
qed

text \<open>Process 7 locks ten bytes for writing and wakes the queue; process 8 asks for one of them and
  sleeps.\<close>

definition contended :: flock_table where
  "contended = \<lparr>recs = [\<lparr>in_use = True, vn = 3, pid = 7, type = 1, start = 5, stop = 14\<rparr>, no_lock],
     waiters = [\<lparr>in_use = True, vn = 3, pid = 8, type = 0, start = 9, stop = 9\<rparr>], asleep = [0], wakes = 0\<rparr>"

lemma contended_reach: "flock_reach contended"
proof -
  let ?t = "\<lparr>recs = [\<lparr>in_use = True, vn = 3, pid = 7, type = 1, start = 5, stop = 14\<rparr>, no_lock], waiters = [no_lock],
    asleep = [], wakes = 1\<rparr>"
  have a: "flock_reach \<lparr>recs = [no_lock, no_lock], waiters = [no_lock], asleep = [], wakes = 0\<rparr>"
    by (rule flock_reach.start) (auto simp: no_lock_def)
  have b: "flock_fcntl True True 0 0 F_SETLK \<lparr>l_type = 1, l_whence = 0, l_start = 5, l_len = 10, l_pid = 0\<rparr> 3 7
      \<lparr>recs = [no_lock, no_lock], waiters = [no_lock], asleep = [], wakes = 0\<rparr>
    = Some (Flock_Returns 0 \<lparr>l_type = 1, l_whence = 0, l_start = 5, l_len = 10, l_pid = 0\<rparr>, ?t)" by code_simp
  have "flock_reach ?t" by (rule flock_reach.call [OF a _ _ b]) simp_all
  then have c: "flock_reach (flock_wake ?t)" by (rule flock_reach.wake) simp
  have d: "flock_fcntl True True 0 0 F_SETLKW \<lparr>l_type = 0, l_whence = 0, l_start = 9, l_len = 1, l_pid = 0\<rparr> 3 8 (flock_wake ?t)
    = Some (Flock_Sleeps 0, contended)" by code_simp
  show ?thesis by (rule flock_reach.call [OF c _ _ d]) simp_all
qed

theorem flock_no_lost_wakeup_witness: "\<exists>r \<in> set (recs contended). in_use r \<and> pid r \<noteq> 8"
  using flock_no_lost_wakeup [OF contended_reach, of 0] by (auto simp: contended_def)

text \<open>C15: a lock request that does not wait, on every branch. An unlock removes exactly the range from what
  the process holds, except that it fails with \<open>ENOLCK\<close> and no change when it has to split more records
  than are free. A lock request answers \<open>EAGAIN\<close> when a lock of another process conflicts. Otherwise it
  fails with \<open>ENOLCK\<close> and no change when no record is free or the splits need more than are free, and
  with \<open>ENOLCK\<close> and the range given up when the splits use all the records that are free or become free;
  in every other case the process holds exactly the range in the way asked for, in place of what it held
  there, and nothing else changes.\<close>

theorem flock_setlk_correct:
  assumes "s \<le> e"
  shows "\<exists>rc t'. flock_section F_SETLK fl v p s e t = Some (Flock_Returns rc fl, t') \<and> waiters t' = waiters t
    \<and> (if l_type fl = F_UNLCK
       then if free_recs_locked (recs t) < taken_by_split v p s e (recs t) then rc = - ENOLCK \<and> recs t' = recs t
         else rc = 0 \<and> held (recs t') = held (recs t) - hole v p s e
       else if conflict_locked (recs t) v p (l_type fl) s e \<noteq> None then rc = - EAGAIN \<and> recs t' = recs t
       else if free_recs_locked (recs t) = 0 \<or> free_recs_locked (recs t) < taken_by_split v p s e (recs t)
       then rc = - ENOLCK \<and> recs t' = recs t
       else if free_recs_locked (recs t) + given_back v p s e (recs t) = taken_by_split v p s e (recs t)
       then rc = - ENOLCK \<and> held (recs t') = held (recs t) - hole v p s e
       else rc = 0 \<and> held (recs t') = (held (recs t) - hole v p s e) \<union> grant v p (l_type fl) s e)"
proof (cases "l_type fl = F_UNLCK \<or> conflict_locked (recs t) v p (l_type fl) s e \<noteq> None")
  case True
  then show ?thesis
    using carve_locked_exact [OF assms, of "recs t" v p] by (auto simp: flock_section_def Let_def split: if_splits)
next
  case False
  then show ?thesis
    using take_range_exact [OF assms, of "recs t" v p "l_type fl"] by (auto simp: flock_section_def Let_def split: if_splits)
qed

text \<open>In the table with no lock process 7 gets bytes 5 to 14 for writing.\<close>

theorem flock_setlk_correct_witness:
  "\<exists>t'. flock_section F_SETLK \<lparr>l_type = 1, l_whence = 0, l_start = 5, l_len = 10, l_pid = 0\<rparr> 3 7 5 14 empty_locks
     = Some (Flock_Returns 0 \<lparr>l_type = 1, l_whence = 0, l_start = 5, l_len = 10, l_pid = 0\<rparr>, t') \<and> (3, 7, 1, 9) \<in> held (recs t')"
proof -
  have "conflict_locked (recs empty_locks) 3 7 1 5 14 = None" "free_recs_locked (recs empty_locks) = 512"
      "taken_by_split 3 7 5 14 (recs empty_locks) = 0"
    by (simp_all add: empty_locks_def no_lock_def conflict_locked_def find_None_iff free_recs_locked_def
        taken_by_split_def splits_def mine_def)
  then show ?thesis
    using flock_setlk_correct [of 5 14 "\<lparr>l_type = 1, l_whence = 0, l_start = 5, l_len = 10, l_pid = 0\<rparr>" 3 7 empty_locks]
    by (auto simp: grant_def)
qed

text \<open>A walk over records that carving leaves alone.\<close>

lemma carve_skip:
  "\<forall>k \<in> set ks. \<not> mine v p (rs ! k) \<or> \<not> overlaps (start (rs ! k)) (stop (rs ! k)) s e \<Longrightarrow>
     fold_opt (carve_one v p s e) ks rs = Some rs"
  by (induction ks) (auto simp: carve_one_def Let_def)

text \<open>C38: a request that fails with \<open>ENOLCK\<close> can take away a lock the process held. With one record left,
  changing the type of a range in the middle of a held one uses that record to split, after which no
  record is left for the new range: the call fails, and the range is no longer held at all.\<close>

theorem flock_failure_drops_lock:
  assumes i: "i < length rs" and sp: "splits v p s e (rs ! i)" and only: "\<forall>k < length rs. k \<noteq> i \<longrightarrow> \<not> mine v p (rs ! k)"
    and one: "free_recs_locked rs = 1" and se: "s \<le> e"
  shows "\<exists>rs'. take_range v p ty s e rs = Some (- ENOLCK, rs') \<and> held rs' = held rs - hole v p s e
    \<and> held rs \<inter> hole v p s e \<noteq> {}"
proof -
  let ?r = "rs ! i"
  have r: "mine v p ?r" "start ?r < s" "e < stop ?r" using sp by (auto simp: splits_def)
  obtain j where fj: "free_index rs = Some j" using one free_index_None [of rs] by (metis not_None_eq zero_neq_one)
  note j = free_index_Some [OF fj]
  define rs' where "rs' = rs[j := ?r\<lparr>start := e + 1\<rparr>, i := ?r\<lparr>stop := s - 1\<rparr>]"
  have ne: "j \<noteq> i" using j r by (auto simp: mine_def)
  have "{k. k < length rs \<and> splits v p s e (rs ! k)} = {i}" using only sp i by (auto simp: splits_def)
  then have cnt: "length (filter (splits v p s e) rs) = 1" by (simp add: length_filter_conv_card)
  have at_i: "carve_one v p s e i rs = Some rs'"
    using r se fj by (auto simp: carve_one_def Let_def overlaps_def rs'_def)
  have before: "fold_opt (carve_one v p s e) [0..<i] rs = Some rs" by (rule carve_skip) (use only i in auto)
  have after: "fold_opt (carve_one v p s e) [Suc i..<length rs] rs' = Some rs'"
  proof (rule carve_skip, intro ballI)
    fix k assume k: "k \<in> set [Suc i..<length rs]"
    show "\<not> mine v p (rs' ! k) \<or> \<not> overlaps (start (rs' ! k)) (stop (rs' ! k)) s e"
      using k only j by (cases "k = j") (auto simp: rs'_def overlaps_def)
  qed
  have "[0..<length rs] = [0..<i] @ i # [Suc i..<length rs]" using i upt_add_eq_append [of 0 i "length rs - i"] by (simp add: upt_conv_Cons)
  then have "fold_opt (carve_one v p s e) [0..<length rs] rs = Some rs'" using before at_i after by simp
  then have carve: "carve_locked v p s e rs = Some (0, rs')" using cnt one by (simp add: carve_locked_def)
  then have h: "held rs' = held rs - hole v p s e" using carve_locked_ok [OF se, of v p rs] by auto
  have "free_recs_locked rs' = 0"
    using count_update [of j rs "\<lambda>r. \<not> in_use r" "?r\<lparr>start := e + 1\<rparr>"]
      count_update [of i "rs[j := ?r\<lparr>start := e + 1\<rparr>]" "\<lambda>r. \<not> in_use r" "?r\<lparr>stop := s - 1\<rparr>"] i j ne r(1) one
    by (simp add: free_recs_locked_def rs'_def mine_def)
  then have "take_range v p ty s e rs = Some (- ENOLCK, rs')"
    using carve free_index_None [of rs'] by (simp add: take_range_def)
  moreover have "(v, p, type ?r, s) \<in> held rs \<inter> hole v p s e"
    using i r se by (auto simp: held_def rcov_mem mine_def hole_def intro!: exI [of _ i])
  ultimately show ?thesis using h by blast
qed

definition crowded :: "lock_rec list" where
  "crowded = \<lparr>in_use = True, vn = 3, pid = 7, type = 1, start = 0, stop = 100\<rparr> # no_lock
     # replicate 510 \<lparr>in_use = True, vn = 4, pid = 8, type = 0, start = 0, stop = 9\<rparr>"

theorem flock_failure_drops_lock_witness:
  "\<exists>rs'. take_range 3 7 0 10 20 crowded = Some (- ENOLCK, rs') \<and> held rs' = held crowded - hole 3 7 10 20"
proof -
  have "free_recs_locked crowded = 1" by (simp add: free_recs_locked_def crowded_def no_lock_def)
  moreover have "\<not> mine 3 7 (crowded ! k)" if "k < length crowded" "k \<noteq> 0" for k
    using that by (auto simp: crowded_def mine_def no_lock_def nth_Cons')
  ultimately show ?thesis
    using flock_failure_drops_lock [of 0 crowded 3 7 10 20 0] by (auto simp: crowded_def splits_def mine_def)
qed

end
