(* ===== verification/Blkcache.thy ===== *)
theory Blkcache
  imports Prelude
begin

text \<open>
  The write-through sector cache of \<open>src/kernel/fs/blkcache.c\<close>, with the translation of partitions to
  disks of \<open>src/kernel/block/blockdev.c\<close>.

  A hash chain is the list of the entries on it, in order: \<open>hash_next\<close> is the next element. Devices are
  their addresses, and a sector is the list of its bytes, so that copying a sector is one assignment.
  The counters only grow, by one per operation, and are \<open>nat\<close>. The code drops its lock around every
  device transfer; each of the sections on either side is a function, and the transfer itself belongs
  to the interleavings of \<open>Blkcache_Correct\<close>. \<open>None\<close> is a copy to or from a null buffer.
\<close>

section \<open>Devices\<close>

abbreviation (input) EIO :: int where "EIO \<equiv> 5"
abbreviation (input) BLKCACHE_ENTRIES :: nat where "BLKCACHE_ENTRIES \<equiv> 128"
abbreviation (input) BLKCACHE_BUCKETS :: nat where "BLKCACHE_BUCKETS \<equiv> 64"

type_synonym sector = "u8 list"

record blockdev =
  self :: nat
  sector_count :: nat
  parent :: "nat option"
  start_lba :: nat

definition blockdev_whole :: "blockdev \<Rightarrow> nat" where
  "blockdev_whole d = (case parent d of None \<Rightarrow> self d | Some w \<Rightarrow> w)"

definition blockdev_disk_lba :: "blockdev \<Rightarrow> nat \<Rightarrow> nat" where
  "blockdev_disk_lba d l = start_lba d + l"

definition resolve :: "blockdev \<Rightarrow> nat \<Rightarrow> nat \<Rightarrow> int + nat \<times> nat" where
  "resolve d l count =
     (if count = 0 \<or> sector_count d \<le> l \<or> sector_count d - l < count then Inl (- EIO)
      else Inr (blockdev_whole d, blockdev_disk_lba d l))"

section \<open>State\<close>

record blk_buf =
  data :: "sector option"
  dev :: nat
  lba :: nat
  valid :: bool
  last_used :: nat

record blkcache =
  entries :: "blk_buf list"
  buckets :: "nat list list"
  clock_tick :: nat
  hits :: nat
  misses :: nat
  write_gen :: nat

definition bucket_of :: "nat \<Rightarrow> nat \<Rightarrow> nat" where
  "bucket_of w l = ((l * 2654435761) mod 2 ^ 32 XOR (w div 16) mod 2 ^ 32) mod BLKCACHE_BUCKETS"

text \<open>\<open>pool\<close>: whether the frames for the buffers could be allocated. The device and sector of an entry are
  left as they are; nothing reads them while the entry is not valid, nor the bytes of the new buffer.\<close>

definition blkcache_init :: "bool \<Rightarrow> blkcache \<Rightarrow> blkcache" where
  "blkcache_init pool c =
     c\<lparr>entries := map (\<lambda>i. (entries c ! i)\<lparr>data := (if pool then Some [] else None), valid := False, last_used := 0\<rparr>)
          [0..<BLKCACHE_ENTRIES],
       buckets := replicate BLKCACHE_BUCKETS [], clock_tick := 0, hits := 0, misses := 0\<rparr>"

section \<open>Entries\<close>

definition lookup :: "nat \<Rightarrow> nat \<Rightarrow> blkcache \<Rightarrow> nat option" where
  "lookup w l c =
     find (\<lambda>i. let b = entries c ! i in valid b \<and> lba b = l \<and> dev b = w) (buckets c ! bucket_of w l)"

definition unlink_buf :: "nat \<Rightarrow> blkcache \<Rightarrow> blkcache" where
  "unlink_buf i c =
     (let b = entries c ! i; k = bucket_of (dev b) (lba b) in
      if \<not> valid b then c
      else c\<lparr>buckets := (buckets c)[k := remove1 i (buckets c ! k)], entries := (entries c)[i := b\<lparr>valid := False\<rparr>]\<rparr>)"

fun pick_victim :: "blk_buf list \<Rightarrow> nat list \<Rightarrow> nat option \<Rightarrow> nat option" where
  "pick_victim es [] victim = victim"
| "pick_victim es (i # is) victim =
     (if \<not> valid (es ! i) then Some i
      else pick_victim es is
        (case victim of
           None \<Rightarrow> Some i
         | Some v \<Rightarrow> if last_used (es ! i) < last_used (es ! v) then Some i else victim))"

definition link_buf :: "nat \<Rightarrow> nat \<Rightarrow> nat \<Rightarrow> blkcache \<Rightarrow> blkcache" where
  "link_buf i w l c =
     (let k = bucket_of w l
      in c\<lparr>entries := (entries c)[i := (entries c ! i)\<lparr>dev := w, lba := l, valid := True\<rparr>],
           buckets := (buckets c)[k := i # buckets c ! k]\<rparr>)"

definition claim :: "nat \<Rightarrow> nat \<Rightarrow> blkcache \<Rightarrow> (nat \<times> blkcache) option" where
  "claim w l c =
     (case lookup w l c of
        Some i \<Rightarrow> Some (i, c)
      | None \<Rightarrow>
          (case pick_victim (entries c) [0..<length (entries c)] None of
             None \<Rightarrow> None
           | Some i \<Rightarrow> Some (i, link_buf i w l (unlink_buf i c))))"

definition fill_buf :: "nat \<Rightarrow> sector \<Rightarrow> blkcache \<Rightarrow> blkcache option" where
  "fill_buf i bytes c =
     (let b = entries c ! i in
      case data b of None \<Rightarrow> None | Some old \<Rightarrow> Some (c\<lparr>entries := (entries c)[i := b\<lparr>data := Some bytes\<rparr>]\<rparr>))"

definition stamp :: "nat \<Rightarrow> blkcache \<Rightarrow> blkcache" where
  "stamp i c =
     c\<lparr>clock_tick := clock_tick c + 1, entries := (entries c)[i := (entries c ! i)\<lparr>last_used := clock_tick c + 1\<rparr>]\<rparr>"

definition store :: "nat \<Rightarrow> nat \<Rightarrow> sector \<Rightarrow> blkcache \<Rightarrow> blkcache option" where
  "store w l bytes c = do {
     (i, c) \<leftarrow> claim w l c;
     c \<leftarrow> fill_buf i bytes c;
     Some (stamp i c)
   }"

section \<open>Reading\<close>

datatype read_start = Read_Fails int | Read_Hit sector | Read_Miss nat nat nat

text \<open>Up to the device transfer; a miss keeps the disk, the sector and the generation.\<close>

definition blkcache_read_begin :: "blockdev \<Rightarrow> nat \<Rightarrow> blkcache \<Rightarrow> (read_start \<times> blkcache) option" where
  "blkcache_read_begin d l c =
     (case resolve d l 1 of
        Inl rc \<Rightarrow> Some (Read_Fails rc, c)
      | Inr (w, dl) \<Rightarrow>
          (case lookup w dl c of
             Some i \<Rightarrow> map_option (\<lambda>bytes. (Read_Hit bytes, (stamp i c)\<lparr>hits := hits c + 1\<rparr>)) (data (entries c ! i))
           | None \<Rightarrow> Some (Read_Miss w dl (write_gen c), c\<lparr>misses := misses c + 1\<rparr>)))"

definition blkcache_read_end :: "nat \<Rightarrow> nat \<Rightarrow> nat \<Rightarrow> sector \<Rightarrow> blkcache \<Rightarrow> blkcache option" where
  "blkcache_read_end w dl gen bytes c = (if write_gen c \<noteq> gen then Some c else store w dl bytes c)"

section \<open>Writing and invalidating\<close>

definition blkcache_write_begin :: "blockdev \<Rightarrow> nat \<Rightarrow> nat \<Rightarrow> blkcache \<Rightarrow> (int + nat \<times> nat) \<times> blkcache" where
  "blkcache_write_begin d l count c =
     (case resolve d l count of
        Inl rc \<Rightarrow> (Inl rc, c)
      | Inr wl \<Rightarrow> (Inr wl, c\<lparr>write_gen := write_gen c + 1\<rparr>))"

definition refresh :: "nat \<Rightarrow> nat \<Rightarrow> sector list \<Rightarrow> int \<Rightarrow> nat \<Rightarrow> blkcache \<Rightarrow> blkcache option" where
  "refresh w dl ins rc i c =
     (let b = entries c ! i in
      if \<not> valid b \<or> dev b \<noteq> w \<or> lba b < dl \<or> dl + length ins \<le> lba b then Some c
      else if rc = 0 then fill_buf i (ins ! (lba b - dl)) c
      else Some (unlink_buf i c))"

text \<open>After the device transfer of the sectors \<open>ins\<close>, which ended with \<open>rc\<close>.\<close>

definition blkcache_write_end :: "nat \<Rightarrow> nat \<Rightarrow> sector list \<Rightarrow> int \<Rightarrow> blkcache \<Rightarrow> blkcache option" where
  "blkcache_write_end w dl ins rc c =
     (let c = c\<lparr>write_gen := write_gen c + 1\<rparr> in
      if length ins = 1 \<and> rc = 0 then store w dl (ins ! 0) c
      else fold_opt (refresh w dl ins rc) [0..<length (entries c)] c)"

definition blkcache_invalidate :: "blockdev \<Rightarrow> blkcache \<Rightarrow> blkcache" where
  "blkcache_invalidate d c =
     fold (\<lambda>i c. if valid (entries c ! i) \<and> dev (entries c ! i) = blockdev_whole d then unlink_buf i c else c)
       [0..<length (entries c)] (c\<lparr>write_gen := write_gen c + 1\<rparr>)"

definition blkcache_stats :: "blkcache \<Rightarrow> nat \<times> nat" where
  "blkcache_stats c = (hits c, misses c)"

end
