(* ===== verification/Blkcache_Correct.thy ===== *)
theory Blkcache_Correct
  imports Blkcache
begin

text \<open>
  The sector cache is coherent with the disks. The first half describes each operation on what the
  cache answers for a sector (\<open>cached\<close>), for well-formed caches: every valid entry is on the chain of its
  sector and no sector has two entries. The second half interleaves threads around the device transfers.
\<close>

section \<open>Well-formed caches\<close>

definition holds_sector :: "nat \<Rightarrow> nat \<Rightarrow> blk_buf \<Rightarrow> bool" where
  "holds_sector w l b \<longleftrightarrow> valid b \<and> dev b = w \<and> lba b = l"

definition on_chain :: "blk_buf list \<Rightarrow> nat \<Rightarrow> nat set" where
  "on_chain es k = {i. i < length es \<and> valid (es ! i) \<and> bucket_of (dev (es ! i)) (lba (es ! i)) = k}"

definition chained :: "blkcache \<Rightarrow> bool" where
  "chained c \<longleftrightarrow> length (buckets c) = BLKCACHE_BUCKETS
     \<and> (\<forall>k < BLKCACHE_BUCKETS. distinct (buckets c ! k) \<and> set (buckets c ! k) = on_chain (entries c) k)"

definition unique_sectors :: "blk_buf list \<Rightarrow> bool" where
  "unique_sectors es \<longleftrightarrow> (\<forall>i j w l. i < length es \<and> j < length es \<and> holds_sector w l (es ! i) \<and> holds_sector w l (es ! j)
     \<longrightarrow> i = j)"

definition wf_cache :: "blkcache \<Rightarrow> bool" where
  "wf_cache c \<longleftrightarrow> entries c \<noteq> [] \<and> None \<notin> data ` set (entries c) \<and> chained c \<and> unique_sectors (entries c)"

text \<open>What the cache answers for a sector.\<close>

definition cached :: "blkcache \<Rightarrow> nat \<Rightarrow> nat \<Rightarrow> sector option" where
  "cached c w l = (case lookup w l c of None \<Rightarrow> None | Some i \<Rightarrow> data (entries c ! i))"

lemma bucket_of_less: "bucket_of w l < BLKCACHE_BUCKETS"
  by (simp add: bucket_of_def)

lemma find_Some_mem: "find P xs = Some x \<Longrightarrow> x \<in> set xs \<and> P x"
  by (induction xs) (auto split: if_splits)

lemma wf_chain:
  "wf_cache c \<Longrightarrow> k < BLKCACHE_BUCKETS \<Longrightarrow> distinct (buckets c ! k) \<and> set (buckets c ! k) = on_chain (entries c) k"
  by (simp add: wf_cache_def chained_def)

lemma wf_unique:
  "wf_cache c \<Longrightarrow> i < length (entries c) \<Longrightarrow> j < length (entries c) \<Longrightarrow>
     holds_sector w l (entries c ! i) \<Longrightarrow> holds_sector w l (entries c ! j) \<Longrightarrow> i = j"
  unfolding wf_cache_def unique_sectors_def by blast

lemma wf_data:
  assumes "wf_cache c" and "i < length (entries c)"
  shows "\<exists>s. data (entries c ! i) = Some s"
proof -
  have "data (entries c ! i) \<in> data ` set (entries c)" using assms(2) by simp
  then show ?thesis using assms(1) unfolding wf_cache_def by (cases "data (entries c ! i)") auto
qed

lemma lookup_iff:
  assumes "wf_cache c"
  shows "lookup w l c = Some i \<longleftrightarrow> i < length (entries c) \<and> holds_sector w l (entries c ! i)"
proof
  have chain: "set (buckets c ! bucket_of w l) = on_chain (entries c) (bucket_of w l)"
    using wf_chain [OF assms bucket_of_less [of w l]] by blast
  have sound: "j < length (entries c) \<and> holds_sector w l (entries c ! j)" if "lookup w l c = Some j" for j
    using find_Some_mem [OF that [unfolded lookup_def]] chain by (simp add: Let_def holds_sector_def on_chain_def)
  then show "lookup w l c = Some i \<Longrightarrow> i < length (entries c) \<and> holds_sector w l (entries c ! i)" by blast
  assume i: "i < length (entries c) \<and> holds_sector w l (entries c ! i)"
  then have "i \<in> set (buckets c ! bucket_of w l)" using chain by (simp add: holds_sector_def on_chain_def)
  then have "lookup w l c \<noteq> None" using i by (auto simp: lookup_def find_None_iff Let_def holds_sector_def)
  then obtain j where j: "lookup w l c = Some j" by blast
  then have "i = j" using i sound wf_unique [OF assms] by blast
  then show "lookup w l c = Some i" using j by simp
qed

lemma cached_iff:
  assumes "wf_cache c"
  shows "cached c w l = Some s \<longleftrightarrow>
    (\<exists>i < length (entries c). holds_sector w l (entries c ! i) \<and> data (entries c ! i) = Some s)"
proof (cases "lookup w l c")
  case None
  then show ?thesis using lookup_iff [OF assms, of w l] by (simp add: cached_def) blast
next
  case (Some i)
  then have i: "i < length (entries c)" "holds_sector w l (entries c ! i)" using lookup_iff [OF assms] by blast+
  have "data (entries c ! i) = Some s" if "j < length (entries c)" "holds_sector w l (entries c ! j)" "data (entries c ! j) = Some s" for j
    using wf_unique [OF assms i(1) that(1) i(2) that(2)] that(3) by metis
  moreover have "cached c w l = data (entries c ! i)" using Some by (simp add: cached_def)
  ultimately show ?thesis using i by metis
qed

lemma wf_init: "wf_cache (blkcache_init True c)"
proof -
  have e: "length (entries (blkcache_init True c)) = 128"
      "\<And>i. i < 128 \<Longrightarrow> \<not> valid (entries (blkcache_init True c) ! i) \<and> data (entries (blkcache_init True c) ! i) \<noteq> None"
    by (simp_all add: blkcache_init_def del: upt_rec_numeral replicate.simps)
  have b: "buckets (blkcache_init True c) = replicate BLKCACHE_BUCKETS []" by (simp add: blkcache_init_def del: upt_rec_numeral)
  have d: "data x \<noteq> None" if "x \<in> set (entries (blkcache_init True c))" for x
    using that by (auto simp: blkcache_init_def simp del: upt_rec_numeral)
  show ?thesis
    using e b d by (force simp: wf_cache_def chained_def on_chain_def unique_sectors_def holds_sector_def simp del: replicate.simps)
qed

section \<open>Operations on an entry\<close>

lemma unlink_entries:
  "entries (unlink_buf i c) = (entries c)[i := (entries c ! i)\<lparr>valid := False\<rparr>]"
proof (cases "valid (entries c ! i)")
  case False
  then have "(entries c ! i)\<lparr>valid := False\<rparr> = entries c ! i" by (cases "entries c ! i") simp
  then have "(entries c)[i := (entries c ! i)\<lparr>valid := False\<rparr>] = entries c" by (metis list_update_id)
  then show ?thesis using False by (simp add: unlink_buf_def Let_def)
qed (simp add: unlink_buf_def Let_def)

lemma unlink_gen [simp]: "write_gen (unlink_buf i c) = write_gen c"
  by (simp add: unlink_buf_def Let_def)

lemma unlink_chained:
  assumes "chained c" and "i < length (entries c)" and "valid (entries c ! i)"
  shows "chained (unlink_buf i c)"
  unfolding chained_def
proof (intro conjI allI impI)
  let ?k = "bucket_of (dev (entries c ! i)) (lba (entries c ! i))"
  show "length (buckets (unlink_buf i c)) = BLKCACHE_BUCKETS" using assms(1) by (simp add: chained_def unlink_buf_def Let_def)
  fix k :: nat assume k: "k < BLKCACHE_BUCKETS"
  then have c: "distinct (buckets c ! k)" "set (buckets c ! k) = on_chain (entries c) k" "k < length (buckets c)"
    using assms(1) by (simp_all add: chained_def)
  have b: "buckets (unlink_buf i c) ! k = (if k = ?k then remove1 i (buckets c ! k) else buckets c ! k)"
    using assms(3) c(3) by (auto simp: unlink_buf_def Let_def nth_list_update)
  show "distinct (buckets (unlink_buf i c) ! k)" using b c(1) by (auto simp: distinct_remove1)
  have "on_chain (entries (unlink_buf i c)) k = on_chain (entries c) k - {i}"
    using assms(2) by (auto simp: unlink_entries on_chain_def nth_list_update)
  moreover have "set (buckets (unlink_buf i c) ! k) = on_chain (entries c) k - {i}"
  proof (cases "k = ?k")
    case True
    then have "buckets (unlink_buf i c) ! k = remove1 i (buckets c ! k)" using b by presburger
    then show ?thesis using c(1,2) by (metis set_remove1_eq)
  next
    case False
    then have "buckets (unlink_buf i c) ! k = buckets c ! k" using b by presburger
    moreover have "i \<notin> on_chain (entries c) k" using False unfolding on_chain_def by blast
    ultimately show ?thesis using c(2) by (metis Diff_empty Diff_insert0)
  qed
  ultimately show "set (buckets (unlink_buf i c) ! k) = on_chain (entries (unlink_buf i c)) k" by metis
qed

lemma data_update:
  "None \<notin> data ` set es \<Longrightarrow> data b \<noteq> None \<Longrightarrow> None \<notin> data ` set (es[i := b])"
  using set_update_subset_insert [of es i b] by force

lemma unique_subset:
  assumes "unique_sectors es" and "length es' = length es"
    and "\<And>j w l. j < length es \<Longrightarrow> holds_sector w l (es' ! j) \<Longrightarrow> holds_sector w l (es ! j)"
  shows "unique_sectors es'"
  unfolding unique_sectors_def
proof (intro allI impI, elim conjE)
  fix i j w l
  assume "i < length es'" "j < length es'" "holds_sector w l (es' ! i)" "holds_sector w l (es' ! j)"
  then have "i < length es" "j < length es" "holds_sector w l (es ! i)" "holds_sector w l (es ! j)"
    using assms(2,3) by simp_all
  then show "i = j" using assms(1) unfolding unique_sectors_def by blast
qed

lemma wf_unlink:
  assumes "wf_cache c" and "i < length (entries c)"
  shows "wf_cache (unlink_buf i c)"
proof (cases "valid (entries c ! i)")
  case True
  have "chained (unlink_buf i c)" using unlink_chained [OF _ assms(2) True] assms(1) by (simp add: wf_cache_def)
  moreover have "None \<notin> data ` set (entries (unlink_buf i c))"
    unfolding unlink_entries by (rule data_update) (use assms wf_data in \<open>auto simp: wf_cache_def\<close>)
  moreover have "unique_sectors (entries (unlink_buf i c))" by (rule unique_subset [of "entries c"]) (use assms in \<open>auto simp: wf_cache_def unlink_entries nth_list_update holds_sector_def split: if_splits\<close>)
  ultimately show ?thesis using assms(1) by (simp add: wf_cache_def unlink_entries)
qed (use assms in \<open>simp add: unlink_buf_def Let_def\<close>)

text \<open>Changes of an entry that keep its sector.\<close>

lemma wf_same_sector:
  assumes "wf_cache c" and "i < length (entries c)" and "entries c' = (entries c)[i := b]" and "buckets c' = buckets c"
    and "valid b = valid (entries c ! i)" and "dev b = dev (entries c ! i)" and "lba b = lba (entries c ! i)" and "data b \<noteq> None"
  shows "wf_cache c'"
proof -
  have hs: "holds_sector w l (entries c' ! j) = holds_sector w l (entries c ! j)" if "j < length (entries c)" for w l j
    using assms that by (auto simp: holds_sector_def nth_list_update)
  have "on_chain (entries c') k = on_chain (entries c) k" for k
    using assms by (auto simp: on_chain_def nth_list_update)
  then have "chained c'" using assms(1,4) by (simp add: wf_cache_def chained_def)
  moreover have "unique_sectors (entries c')" by (rule unique_subset [of "entries c"]) (use assms(1,3) hs in \<open>auto simp: wf_cache_def\<close>)
  moreover have "None \<notin> data ` set (entries c')" unfolding assms(3) by (rule data_update) (use assms in \<open>auto simp: wf_cache_def\<close>)
  ultimately show ?thesis using assms(1,3) by (simp add: wf_cache_def)
qed

lemma wf_link:
  assumes "wf_cache c" and "i < length (entries c)" and "\<not> valid (entries c ! i)" and "lookup w l c = None"
  shows "wf_cache (link_buf i w l c)"
proof -
  let ?c = "link_buf i w l c" and ?b = "(entries c ! i)\<lparr>dev := w, lba := l, valid := True\<rparr>"
  have e: "entries ?c = (entries c)[i := ?b]" by (simp add: link_buf_def Let_def)
  have none: "\<not> holds_sector w l (entries c ! j)" if "j < length (entries c)" for j
    using lookup_iff [OF assms(1), of w l j] that assms(4) by simp
  have "on_chain (entries ?c) k = (if k = bucket_of w l then insert i (on_chain (entries c) k) else on_chain (entries c) k)" for k
    using assms(2,3) by (auto simp: e on_chain_def nth_list_update)
  moreover have "i \<notin> on_chain (entries c) k" for k using assms(3) by (simp add: on_chain_def)
  ultimately have "chained ?c"
    using assms(1) by (auto simp: wf_cache_def chained_def link_buf_def Let_def nth_list_update)
  moreover have "unique_sectors (entries ?c)"
    unfolding unique_sectors_def
  proof (intro allI impI, elim conjE)
    fix j k w' l' assume j: "j < length (entries ?c)" "k < length (entries ?c)"
      and h: "holds_sector w' l' (entries ?c ! j)" "holds_sector w' l' (entries ?c ! k)"
    have b: "holds_sector w' l' ?b \<Longrightarrow> w' = w \<and> l' = l" by (simp add: holds_sector_def)
    have n: "entries ?c ! m = (if m = i then ?b else entries c ! m)" for m using assms(2) by (simp add: e nth_list_update)
    show "j = k"
    proof (cases "j = i \<or> k = i")
      case True
      then have "w' = w \<and> l' = l" using h n [of i] b by metis
      then show ?thesis using True h j none [of j] none [of k] n by (metis e length_list_update)
    next
      case False
      then have "holds_sector w' l' (entries c ! j)" "holds_sector w' l' (entries c ! k)" using h n by simp_all
      then show ?thesis using wf_unique [OF assms(1), of j k w' l'] j by (simp add: e)
    qed
  qed
  moreover have "None \<notin> data ` set (entries ?c)"
    unfolding e by (rule data_update) (use assms wf_data [OF assms(1,2)] in \<open>auto simp: wf_cache_def\<close>)
  ultimately show ?thesis using assms(1) by (simp add: wf_cache_def e)
qed

section \<open>Storing a sector\<close>

lemma pick_victim_ok:
  assumes "\<forall>i \<in> set is. i < n" and "\<forall>v. victim = Some v \<longrightarrow> v < n" and "is \<noteq> [] \<or> victim \<noteq> None"
  shows "\<exists>i < n. pick_victim es is victim = Some i"
  using assms
proof (induction es "is" victim rule: pick_victim.induct)
  case (2 es i "is" victim)
  then show ?case by (cases victim) auto
qed auto

lemma claim_ok:
  assumes "wf_cache c"
  shows "\<exists>i c'. claim w l c = Some (i, c') \<and> wf_cache c' \<and> i < length (entries c') \<and> holds_sector w l (entries c' ! i)
    \<and> length (entries c') = length (entries c) \<and> write_gen c' = write_gen c
    \<and> (\<forall>j. j \<noteq> i \<longrightarrow> entries c' ! j = entries c ! j)"
proof (cases "lookup w l c")
  case None
  have "\<exists>i < length (entries c). pick_victim (entries c) [0..<length (entries c)] None = Some i"
    by (rule pick_victim_ok) (use assms in \<open>auto simp: wf_cache_def\<close>)
  then obtain i where i: "i < length (entries c)" "pick_victim (entries c) [0..<length (entries c)] None = Some i" by blast
  let ?c = "unlink_buf i c"
  have e: "entries ?c = (entries c)[i := (entries c ! i)\<lparr>valid := False\<rparr>]" by (rule unlink_entries)
  have u: "wf_cache ?c" "i < length (entries ?c)" "\<not> valid (entries ?c ! i)" using wf_unlink [OF assms i(1)] i(1) e by simp_all
  have "lookup w l ?c = Some j \<Longrightarrow> lookup w l c = Some j" for j
    unfolding lookup_iff [OF u(1)] lookup_iff [OF assms] e using i(1) by (cases "j = i") (auto simp: holds_sector_def)
  then have "lookup w l ?c = None" using None by (cases "lookup w l ?c") auto
  then have "wf_cache (link_buf i w l ?c)" by (rule wf_link [OF u])
  moreover have "entries (link_buf i w l ?c) = (entries ?c)[i := (entries ?c ! i)\<lparr>dev := w, lba := l, valid := True\<rparr>]"
    by (simp add: link_buf_def Let_def)
  moreover have "write_gen (link_buf i w l ?c) = write_gen c" by (simp add: link_buf_def Let_def)
  ultimately show ?thesis using None i by (simp add: claim_def e holds_sector_def)
next
  case (Some i)
  then show ?thesis using assms lookup_iff [OF assms, of w l i] by (simp add: claim_def)
qed

text \<open>What a changed entry does to the answers.\<close>

lemma cached_other:
  assumes "wf_cache c" and "wf_cache c'" and "length (entries c') = length (entries c)"
    and "\<forall>j. j \<noteq> i \<longrightarrow> entries c' ! j = entries c ! j" and "\<not> holds_sector w l (entries c' ! i)"
    and "cached c' w l = Some s"
  shows "cached c w l = Some s"
proof -
  obtain j where j: "j < length (entries c')" "holds_sector w l (entries c' ! j)" "data (entries c' ! j) = Some s"
    using assms(6) cached_iff [OF assms(2)] by blast
  then have "j \<noteq> i" using assms(5) by blast
  then have "holds_sector w l (entries c ! j)" "data (entries c ! j) = Some s" "j < length (entries c)"
    using j assms(3,4) by simp_all
  then show ?thesis using cached_iff [OF assms(1)] by blast
qed

lemma fill_ok:
  assumes "wf_cache c" and "i < length (entries c)"
  shows "\<exists>c'. fill_buf i bytes c = Some c' \<and> wf_cache c' \<and> entries c' = (entries c)[i := (entries c ! i)\<lparr>data := Some bytes\<rparr>]
    \<and> write_gen c' = write_gen c"
proof -
  let ?c = "c\<lparr>entries := (entries c)[i := (entries c ! i)\<lparr>data := Some bytes\<rparr>]\<rparr>"
  obtain old where "data (entries c ! i) = Some old" using wf_data [OF assms] by blast
  moreover have "wf_cache ?c" by (rule wf_same_sector [OF assms, of _ "(entries c ! i)\<lparr>data := Some bytes\<rparr>"]) simp_all
  ultimately show ?thesis by (simp add: fill_buf_def Let_def)
qed

lemma wf_stamp:
  assumes "wf_cache c" and "i < length (entries c)"
  shows "wf_cache (stamp i c)"
  by (rule wf_same_sector [OF assms, of _ "(entries c ! i)\<lparr>last_used := clock_tick c + 1\<rparr>"])
    (use wf_data [OF assms] in \<open>auto simp: stamp_def\<close>)

lemma store_ok:
  assumes "wf_cache c"
  shows "\<exists>c'. store w l bytes c = Some c' \<and> wf_cache c' \<and> write_gen c' = write_gen c \<and> cached c' w l = Some bytes
    \<and> (\<forall>w' l' s. (w', l') \<noteq> (w, l) \<longrightarrow> cached c' w' l' = Some s \<longrightarrow> cached c w' l' = Some s)"
proof -
  obtain i c1 where k: "claim w l c = Some (i, c1)" "wf_cache c1" "i < length (entries c1)" "holds_sector w l (entries c1 ! i)"
      "length (entries c1) = length (entries c)" "write_gen c1 = write_gen c" "\<forall>j. j \<noteq> i \<longrightarrow> entries c1 ! j = entries c ! j"
    using claim_ok [OF assms] by blast
  obtain c2 where f: "fill_buf i bytes c1 = Some c2" "wf_cache c2"
      "entries c2 = (entries c1)[i := (entries c1 ! i)\<lparr>data := Some bytes\<rparr>]" "write_gen c2 = write_gen c1"
    using fill_ok [OF k(2,3)] by blast
  let ?c = "stamp i c2" and ?n = "clock_tick c2 + 1"
  have wf: "wf_cache ?c" using wf_stamp [OF f(2)] k(3) f(3) by simp
  have e: "entries ?c = (entries c1)[i := (entries c1 ! i)\<lparr>data := Some bytes, last_used := ?n\<rparr>]"
    using k(3) f(3) by (simp add: stamp_def)
  have hs: "holds_sector w l (entries ?c ! i)" "data (entries ?c ! i) = Some bytes" "i < length (entries ?c)"
    using k(3,4) e by (simp_all add: holds_sector_def)
  have "cached ?c w l = Some bytes" using hs cached_iff [OF wf] by blast
  moreover have "cached c w' l' = Some s" if "(w', l') \<noteq> (w, l)" "cached ?c w' l' = Some s" for w' l' s
    by (rule cached_other [OF assms wf, of i]) (use that hs(1) e k(5,7) in \<open>auto simp: holds_sector_def\<close>)
  moreover have "store w l bytes c = Some ?c" using k(1) f(1) by (simp add: store_def)
  moreover have "write_gen ?c = write_gen c" using f(4) k(6) by (simp add: stamp_def)
  ultimately show ?thesis using wf by blast
qed

section \<open>The end of a write, and invalidation\<close>

definition in_range :: "nat \<Rightarrow> nat \<Rightarrow> nat \<Rightarrow> nat \<Rightarrow> nat \<Rightarrow> bool" where
  "in_range w dl n w' l' \<longleftrightarrow> w' = w \<and> dl \<le> l' \<and> l' < dl + n"

text \<open>Entry \<open>b\<close> after the refresh of entry \<open>a\<close>: new bytes inside the range, nothing else outside.\<close>

definition fresh :: "nat \<Rightarrow> nat \<Rightarrow> sector list \<Rightarrow> int \<Rightarrow> blk_buf \<Rightarrow> blk_buf \<Rightarrow> bool" where
  "fresh w dl ins rc a b \<longleftrightarrow> (\<forall>w' l'. holds_sector w' l' b \<longrightarrow>
     (if in_range w dl (length ins) w' l' then rc = 0 \<and> data b = Some (ins ! (l' - dl)) else b = a))"

lemma refresh_ok:
  assumes "wf_cache c" and "i < length (entries c)"
  shows "\<exists>c'. refresh w dl ins rc i c = Some c' \<and> wf_cache c' \<and> write_gen c' = write_gen c
    \<and> length (entries c') = length (entries c) \<and> (\<forall>j. j \<noteq> i \<longrightarrow> entries c' ! j = entries c ! j)
    \<and> fresh w dl ins rc (entries c ! i) (entries c' ! i)"
proof -
  let ?b = "entries c ! i"
  consider (skip) "\<not> valid ?b \<or> \<not> in_range w dl (length ins) (dev ?b) (lba ?b)"
    | (copy) "valid ?b" "in_range w dl (length ins) (dev ?b) (lba ?b)" "rc = 0"
    | (drop) "valid ?b" "in_range w dl (length ins) (dev ?b) (lba ?b)" "rc \<noteq> 0" by blast
  then show ?thesis
  proof cases
    case skip
    then have "refresh w dl ins rc i c = Some c" by (auto simp: refresh_def Let_def in_range_def)
    moreover have "fresh w dl ins rc ?b ?b" using skip by (auto simp: fresh_def holds_sector_def)
    ultimately show ?thesis using assms(1) by simp
  next
    case copy
    let ?new = "?b\<lparr>data := Some (ins ! (lba ?b - dl))\<rparr>"
    obtain c' where c': "fill_buf i (ins ! (lba ?b - dl)) c = Some c'" "wf_cache c'" "entries c' = (entries c)[i := ?new]"
        "write_gen c' = write_gen c"
      using fill_ok [OF assms] by blast
    have "refresh w dl ins rc i c = Some c'" using copy c'(1) by (auto simp: refresh_def Let_def in_range_def)
    moreover have "fresh w dl ins rc ?b ?new" using copy by (auto simp: fresh_def holds_sector_def)
    ultimately show ?thesis using c' assms(2) by simp
  next
    case drop
    then have "refresh w dl ins rc i c = Some (unlink_buf i c)" by (auto simp: refresh_def Let_def in_range_def)
    moreover have "fresh w dl ins rc ?b (?b\<lparr>valid := False\<rparr>)" by (simp add: fresh_def holds_sector_def)
    ultimately show ?thesis using wf_unlink [OF assms] assms(2) by (simp add: unlink_entries)
  qed
qed

lemma refresh_all:
  assumes "wf_cache c" and "k \<le> length (entries c)"
  shows "\<exists>c'. fold_opt (refresh w dl ins rc) [0..<k] c = Some c' \<and> wf_cache c' \<and> write_gen c' = write_gen c
    \<and> length (entries c') = length (entries c)
    \<and> (\<forall>j < k. fresh w dl ins rc (entries c ! j) (entries c' ! j)) \<and> (\<forall>j. k \<le> j \<longrightarrow> entries c' ! j = entries c ! j)"
  using assms(2)
proof (induction k)
  case 0
  then show ?case using assms(1) by simp
next
  case (Suc k)
  then obtain c1 where c1: "fold_opt (refresh w dl ins rc) [0..<k] c = Some c1" "wf_cache c1" "write_gen c1 = write_gen c"
      "length (entries c1) = length (entries c)"
      "\<forall>j < k. fresh w dl ins rc (entries c ! j) (entries c1 ! j)" "\<forall>j. k \<le> j \<longrightarrow> entries c1 ! j = entries c ! j" by auto
  then have "k < length (entries c1)" using Suc.prems by simp
  then obtain c2 where c2: "refresh w dl ins rc k c1 = Some c2" "wf_cache c2" "write_gen c2 = write_gen c1"
      "length (entries c2) = length (entries c1)" "\<forall>j. j \<noteq> k \<longrightarrow> entries c2 ! j = entries c1 ! j"
      "fresh w dl ins rc (entries c1 ! k) (entries c2 ! k)"
    using refresh_ok [OF c1(2)] by blast
  have "fold_opt (refresh w dl ins rc) [0..<Suc k] c = Some c2" using c1(1) c2(1) by simp
  moreover have "fresh w dl ins rc (entries c ! j) (entries c2 ! j)" if "j < Suc k" for j
    using that c1(5,6) c2(5,6) by (cases "j = k") auto
  moreover have "entries c2 ! j = entries c ! j" if "Suc k \<le> j" for j using that c1(6) c2(5) by simp
  ultimately show ?case using c2(2,3,4) c1(3,4) by simp
qed

lemma wf_counters [simp]:
  "wf_cache (c\<lparr>write_gen := n\<rparr>) = wf_cache c" "wf_cache (c\<lparr>hits := n\<rparr>) = wf_cache c" "wf_cache (c\<lparr>misses := n\<rparr>) = wf_cache c"
  by (simp_all add: wf_cache_def chained_def)

lemma cached_counters [simp]:
  "cached (c\<lparr>write_gen := n\<rparr>) = cached c" "cached (c\<lparr>hits := n\<rparr>) = cached c" "cached (c\<lparr>misses := n\<rparr>) = cached c"
  by (simp_all add: cached_def lookup_def fun_eq_iff split: option.split)

lemma write_end_ok:
  assumes "wf_cache c"
  shows "\<exists>c'. blkcache_write_end w dl ins rc c = Some c' \<and> wf_cache c' \<and> write_gen c' = write_gen c + 1
    \<and> (\<forall>w' l' s. cached c' w' l' = Some s \<longrightarrow>
         (if in_range w dl (length ins) w' l' then rc = 0 \<and> s = ins ! (l' - dl) else cached c w' l' = Some s))"
proof (cases "length ins = 1 \<and> rc = 0")
  case True
  have "wf_cache (c\<lparr>write_gen := write_gen c + 1\<rparr>)" using assms by simp
  from store_ok [OF this, of w dl "ins ! 0"] obtain c' where c': "store w dl (ins ! 0) (c\<lparr>write_gen := write_gen c + 1\<rparr>) = Some c'"
      "wf_cache c'" "write_gen c' = write_gen c + 1" "cached c' w dl = Some (ins ! 0)"
      "\<And>w' l' s. (w', l') \<noteq> (w, dl) \<Longrightarrow> cached c' w' l' = Some s \<Longrightarrow> cached c w' l' = Some s" by auto
  have "in_range w dl (length ins) w' l' \<longleftrightarrow> (w', l') = (w, dl)" for w' l' using True by (auto simp: in_range_def)
  then show ?thesis using True c' by (auto simp: blkcache_write_end_def Let_def)
next
  case False
  let ?c = "c\<lparr>write_gen := write_gen c + 1\<rparr>"
  have wf: "wf_cache ?c" using assms by simp
  obtain c' where c': "fold_opt (refresh w dl ins rc) [0..<length (entries ?c)] ?c = Some c'" "wf_cache c'"
      "write_gen c' = write_gen c + 1" "length (entries c') = length (entries c)"
      "\<And>j. j < length (entries c) \<Longrightarrow> fresh w dl ins rc (entries c ! j) (entries c' ! j)"
    using refresh_all [OF wf order.refl, of w dl ins rc] by auto
  have "if in_range w dl (length ins) w' l' then rc = 0 \<and> s = ins ! (l' - dl) else cached c w' l' = Some s"
    if got: "cached c' w' l' = Some s" for w' l' s
  proof -
    obtain i where i: "i < length (entries c)" "holds_sector w' l' (entries c' ! i)" "data (entries c' ! i) = Some s"
      using got unfolding cached_iff [OF c'(2)] c'(4) by blast
    show ?thesis
    proof (cases "in_range w dl (length ins) w' l'")
      case True
      then show ?thesis using c'(5) [OF i(1)] i(2,3) by (simp add: fresh_def)
    next
      case False
      then have "entries c' ! i = entries c ! i" using c'(5) [OF i(1)] i(2) by (simp add: fresh_def)
      then show ?thesis using False i unfolding cached_iff [OF assms] by auto
    qed
  qed
  then show ?thesis using False c'(1-3) by (simp add: blkcache_write_end_def Let_def) blast
qed

lemma invalidate_ok:
  assumes "wf_cache c"
  shows "wf_cache (blkcache_invalidate d c) \<and> write_gen (blkcache_invalidate d c) = write_gen c + 1
    \<and> (\<forall>w l s. cached (blkcache_invalidate d c) w l = Some s \<longrightarrow> cached c w l = Some s)"
proof -
  let ?f = "\<lambda>i c. if valid (entries c ! i) \<and> dev (entries c ! i) = blockdev_whole d then unlink_buf i c else c"
  have "wf_cache (fold ?f is c) \<and> write_gen (fold ?f is c) = write_gen c
    \<and> (\<forall>w l s. cached (fold ?f is c) w l = Some s \<longrightarrow> cached c w l = Some s)"
    if "wf_cache c" "\<forall>i \<in> set is. i < length (entries c)" for "is" c
    using that
  proof (induction "is" arbitrary: c)
    case (Cons i "is")
    have u: "wf_cache (unlink_buf i c)" by (rule wf_unlink) (use Cons.prems in auto)
    have "cached c w l = Some s" if "cached (unlink_buf i c) w l = Some s" for w l s
      by (rule cached_other [OF Cons.prems(1) u, of i]) (use that Cons.prems in \<open>auto simp: unlink_entries holds_sector_def\<close>)
    then show ?case using Cons.IH [of "?f i c"] u Cons.prems by (auto simp: unlink_entries)
  qed simp
  from this [of "c\<lparr>write_gen := write_gen c + 1\<rparr>" "[0..<length (entries c)]"] show ?thesis
    using assms by (simp add: blkcache_invalidate_def)
qed

section \<open>Threads around the device\<close>

text \<open>What a thread has in progress: a read before and after its device transfer, a write before and
  after its own.\<close>

datatype io =
    Missed nat nat nat
  | Fetched nat nat nat sector
  | Writing nat nat "sector list"
  | Written nat nat "sector list" int

record system =
  cache :: blkcache
  disk :: "nat \<Rightarrow> nat \<Rightarrow> sector"
  thr :: "nat \<Rightarrow> io option"

fun writes :: "io \<Rightarrow> nat \<Rightarrow> nat \<Rightarrow> bool" where
  "writes (Writing w dl ins) w' l' = in_range w dl (length ins) w' l'"
| "writes (Written w dl ins rc) w' l' = in_range w dl (length ins) w' l'"
| "writes _ w' l' = False"

definition in_flight :: "system \<Rightarrow> nat \<Rightarrow> nat \<Rightarrow> bool" where
  "in_flight s w l \<longleftrightarrow> (\<exists>t i. thr s t = Some i \<and> writes i w l)"

fun started :: "read_start \<Rightarrow> io option" where
  "started (Read_Miss w dl g) = Some (Missed w dl g)"
| "started _ = None"

text \<open>Every interleaving of threads. Device transfers succeed or fail; a failed write may leave anything
  in the sectors it was to write. Writes that overlap do not run at the same time: the file systems and
  the device files write under \<open>fs_lock\<close>. Reads run at any time.\<close>

inductive cache_reach :: "system \<Rightarrow> bool" where
  start: "cache_reach \<lparr>cache = blkcache_init True c, disk = dk, thr = (\<lambda>t. None)\<rparr>"
| read: "cache_reach s \<Longrightarrow> thr s t = None \<Longrightarrow> blkcache_read_begin d l (cache s) = Some (r, c) \<Longrightarrow>
    cache_reach (s\<lparr>cache := c, thr := (thr s)(t := started r)\<rparr>)"
| fetch: "cache_reach s \<Longrightarrow> thr s t = Some (Missed w dl g) \<Longrightarrow>
    cache_reach (s\<lparr>thr := (thr s)(t := Some (Fetched w dl g (disk s w dl)))\<rparr>)"
| fetch_fails: "cache_reach s \<Longrightarrow> thr s t = Some (Missed w dl g) \<Longrightarrow> cache_reach (s\<lparr>thr := (thr s)(t := None)\<rparr>)"
| install: "cache_reach s \<Longrightarrow> thr s t = Some (Fetched w dl g b) \<Longrightarrow> blkcache_read_end w dl g b (cache s) = Some c \<Longrightarrow>
    cache_reach (s\<lparr>cache := c, thr := (thr s)(t := None)\<rparr>)"
| begin_write: "cache_reach s \<Longrightarrow> thr s t = None \<Longrightarrow> blkcache_write_begin d l (length ins) (cache s) = (Inr (w, dl), c) \<Longrightarrow>
    \<forall>w' l'. in_range w dl (length ins) w' l' \<longrightarrow> \<not> in_flight s w' l' \<Longrightarrow>
    cache_reach (s\<lparr>cache := c, thr := (thr s)(t := Some (Writing w dl ins))\<rparr>)"
| put: "cache_reach s \<Longrightarrow> thr s t = Some (Writing w dl ins) \<Longrightarrow>
    cache_reach (s\<lparr>disk := (\<lambda>w' l'. if in_range w dl (length ins) w' l' then ins ! (l' - dl) else disk s w' l'),
      thr := (thr s)(t := Some (Written w dl ins 0))\<rparr>)"
| put_fails: "cache_reach s \<Longrightarrow> thr s t = Some (Writing w dl ins) \<Longrightarrow> rc \<noteq> 0 \<Longrightarrow>
    \<forall>w' l'. \<not> in_range w dl (length ins) w' l' \<longrightarrow> dk w' l' = disk s w' l' \<Longrightarrow>
    cache_reach (s\<lparr>disk := dk, thr := (thr s)(t := Some (Written w dl ins rc))\<rparr>)"
| finish: "cache_reach s \<Longrightarrow> thr s t = Some (Written w dl ins rc) \<Longrightarrow> blkcache_write_end w dl ins rc (cache s) = Some c \<Longrightarrow>
    cache_reach (s\<lparr>cache := c, thr := (thr s)(t := None)\<rparr>)"
| invalidate: "cache_reach s \<Longrightarrow> cache_reach (s\<lparr>cache := blkcache_invalidate d (cache s)\<rparr>)"

text \<open>A thread's part of the invariant: a fetched sector that may still be installed is the disk's or is
  being written; a finished transfer is on the disk.\<close>

fun io_ok :: "system \<Rightarrow> io \<Rightarrow> bool" where
  "io_ok s (Missed w l g) = (g \<le> write_gen (cache s))"
| "io_ok s (Fetched w l g b) = (g \<le> write_gen (cache s) \<and> (g = write_gen (cache s) \<longrightarrow> b = disk s w l \<or> in_flight s w l))"
| "io_ok s (Writing w dl ins) = True"
| "io_ok s (Written w dl ins rc) =
     (rc = 0 \<longrightarrow> (\<forall>w' l'. in_range w dl (length ins) w' l' \<longrightarrow> disk s w' l' = ins ! (l' - dl)))"

definition coherent :: "system \<Rightarrow> bool" where
  "coherent s \<longleftrightarrow> (\<forall>w l b. cached (cache s) w l = Some b \<longrightarrow> b = disk s w l \<or> in_flight s w l)"

definition exclusive :: "system \<Rightarrow> bool" where
  "exclusive s \<longleftrightarrow> (\<forall>t u i j w l. thr s t = Some i \<and> thr s u = Some j \<and> writes i w l \<and> writes j w l \<longrightarrow> t = u)"

definition cache_inv :: "system \<Rightarrow> bool" where
  "cache_inv s \<longleftrightarrow> wf_cache (cache s) \<and> coherent s \<and> exclusive s \<and> (\<forall>t i. thr s t = Some i \<longrightarrow> io_ok s i)"

lemma inv_parts:
  assumes "cache_inv s"
  shows "wf_cache (cache s)" and "cached (cache s) w l = Some b \<Longrightarrow> b = disk s w l \<or> in_flight s w l"
    and "thr s t = Some i \<Longrightarrow> thr s u = Some j \<Longrightarrow> writes i w l \<Longrightarrow> writes j w l \<Longrightarrow> t = u"
    and "thr s t = Some i \<Longrightarrow> io_ok s i"
  using assms unfolding cache_inv_def coherent_def exclusive_def by blast+

lemma cache_invI:
  assumes "wf_cache (cache s)" and "\<And>w l b. cached (cache s) w l = Some b \<Longrightarrow> b = disk s w l \<or> in_flight s w l"
    and "\<And>t i u j w l. thr s t = Some i \<Longrightarrow> thr s u = Some j \<Longrightarrow> writes i w l \<Longrightarrow> writes j w l \<Longrightarrow> t = u"
    and "\<And>t i. thr s t = Some i \<Longrightarrow> io_ok s i"
  shows "cache_inv s"
  using assms unfolding cache_inv_def coherent_def exclusive_def by blast

text \<open>Steps that leave the writes in flight alone.\<close>

lemma in_flight_same:
  assumes "\<And>w l. (case thr s t of None \<Rightarrow> False | Some i \<Rightarrow> writes i w l) = (case x of None \<Rightarrow> False | Some i \<Rightarrow> writes i w l)"
    and "thr s' = (thr s)(t := x)"
  shows "in_flight s' w l = in_flight s w l"
proof -
  have "in_flight s w l \<longleftrightarrow> (\<exists>u. case thr s u of None \<Rightarrow> False | Some i \<Rightarrow> writes i w l)" for s
    unfolding in_flight_def by (intro iff_exI) (simp split: option.split)
  moreover have "(case thr s' u of None \<Rightarrow> False | Some i \<Rightarrow> writes i w l) = (case thr s u of None \<Rightarrow> False | Some i \<Rightarrow> writes i w l)" for u
    using assms by (cases "u = t") auto
  ultimately show ?thesis by simp
qed

lemma in_flight_I: "thr s t = Some i \<Longrightarrow> writes i w l \<Longrightarrow> in_flight s w l"
  unfolding in_flight_def by blast

text \<open>Steps that do not touch the disk and end no write.\<close>

lemma inv_quiet:
  assumes inv: "cache_inv s" and d: "disk s' = disk s" and wf: "wf_cache (cache s')" and gen: "write_gen (cache s) \<le> write_gen (cache s')"
    and th: "thr s' = (thr s)(t := x)" and fl: "\<And>w l. in_flight s w l \<Longrightarrow> in_flight s' w l"
    and co: "\<And>w l b. cached (cache s') w l = Some b \<Longrightarrow> b = disk s w l \<or> in_flight s w l"
    and ex: "\<And>i u j w l. x = Some i \<Longrightarrow> u \<noteq> t \<Longrightarrow> thr s u = Some j \<Longrightarrow> writes i w l \<Longrightarrow> \<not> writes j w l"
    and ok: "\<And>i. x = Some i \<Longrightarrow> io_ok s' i"
  shows "cache_inv s'"
proof (rule cache_invI)
  show "wf_cache (cache s')" by (rule wf)
  show "b = disk s' w l \<or> in_flight s' w l" if "cached (cache s') w l = Some b" for w l b
    using co [OF that] fl d by metis
  show "u = v" if "thr s' u = Some i" "thr s' v = Some j" "writes i w l" "writes j w l" for u v i j w l
    using that th ex inv_parts(3) [OF inv] by (metis fun_upd_apply)
  show "io_ok s' i" if "thr s' u = Some i" for u i
  proof (cases "u = t")
    case True
    then show ?thesis using that th ok by simp
  next
    case False
    then have "io_ok s i" using that th inv_parts(4) [OF inv] by simp
    then show ?thesis using gen d fl by (cases i) auto
  qed
qed

text \<open>A device write, whatever its outcome.\<close>

lemma inv_put:
  assumes inv: "cache_inv s" and t: "thr s t = Some (Writing w dl ins)" and c: "cache s' = cache s"
    and th: "thr s' = (thr s)(t := Some (Written w dl ins rc))"
    and out: "\<And>w' l'. \<not> in_range w dl (length ins) w' l' \<Longrightarrow> disk s' w' l' = disk s w' l'"
    and ok: "io_ok s' (Written w dl ins rc)"
  shows "cache_inv s'"
proof -
  have fl: "in_flight s' w' l' = in_flight s w' l'" for w' l' by (rule in_flight_same [OF _ th]) (simp add: t)
  have here: "in_flight s w' l'" if "in_range w dl (length ins) w' l'" for w' l' using in_flight_I [OF t] that by simp
  show ?thesis
  proof (rule cache_invI)
    show "wf_cache (cache s')" using inv_parts(1) [OF inv] c by simp
    show "b = disk s' w' l' \<or> in_flight s' w' l'" if "cached (cache s') w' l' = Some b" for w' l' b
      using that c fl here out inv_parts(2) [OF inv] by metis
    show "u = v" if "thr s' u = Some i" "thr s' v = Some j" "writes i w' l'" "writes j w' l'" for u v i j w' l'
    proof -
      have w: "\<exists>i'. thr s u = Some i' \<and> writes i' w' l'" if "thr s' u = Some i" "writes i w' l'" for u i
        using that t th by (cases "u = t") auto
      then show ?thesis using w [OF that(1,3)] w [OF that(2,4)] inv_parts(3) [OF inv] by blast
    qed
    show "io_ok s' i" if u: "thr s' u = Some i" for u i
    proof (cases "u = t")
      case True
      then show ?thesis using u th ok by simp
    next
      case False
      then have i: "thr s u = Some i" "io_ok s i" using u th inv_parts(4) [OF inv] by simp_all
      have "disk s' w' l' = disk s w' l'" if "writes i w' l'" for w' l'
        using out inv_parts(3) [OF inv t i(1)] False that by (metis writes.simps(1))
      then show ?thesis using i(2) c fl here out by (cases i) (auto, metis+)
    qed
  qed
qed

lemma inv_finish:
  assumes inv: "cache_inv s" and t: "thr s t = Some (Written w dl ins rc)" and d: "disk s' = disk s"
    and th: "thr s' = (thr s)(t := None)" and e: "blkcache_write_end w dl ins rc (cache s) = Some (cache s')"
  shows "cache_inv s'"
proof -
  have c: "wf_cache (cache s')" "write_gen (cache s') = write_gen (cache s) + 1"
      "\<And>w' l' b. cached (cache s') w' l' = Some b \<Longrightarrow>
         (if in_range w dl (length ins) w' l' then rc = 0 \<and> b = ins ! (l' - dl) else cached (cache s) w' l' = Some b)"
    using write_end_ok [OF inv_parts(1) [OF inv], of w dl ins rc] e by auto
  have fl: "in_flight s' w' l'" if "in_flight s w' l'" "\<not> in_range w dl (length ins) w' l'" for w' l'
    using that t th unfolding in_flight_def by (metis fun_upd_apply option.inject writes.simps(2))
  show ?thesis
  proof (rule cache_invI)
    show "wf_cache (cache s')" by (rule c(1))
    show "b = disk s' w' l' \<or> in_flight s' w' l'" if "cached (cache s') w' l' = Some b" for w' l' b
    proof (cases "in_range w dl (length ins) w' l'")
      case True
      then have "rc = 0 \<and> b = ins ! (l' - dl)" using c(3) [OF that] by simp
      then show ?thesis using inv_parts(4) [OF inv t] True d by simp
    next
      case False
      then have "cached (cache s) w' l' = Some b" using c(3) [OF that] by simp
      then show ?thesis using inv_parts(2) [OF inv] fl [OF _ False] d by metis
    qed
    show "u = v" if "thr s' u = Some i" "thr s' v = Some j" "writes i w' l'" "writes j w' l'" for u v i j w' l'
      using that th inv_parts(3) [OF inv] by (metis fun_upd_apply option.distinct(1))
    show "io_ok s' i" if u: "thr s' u = Some i" for u i
    proof -
      have "io_ok s i" using u th inv_parts(4) [OF inv] by (metis fun_upd_apply option.distinct(1))
      then show ?thesis using c(2) d by (cases i) auto
    qed
  qed
qed

lemma inv_invalidate:
  assumes inv: "cache_inv s"
  shows "cache_inv (s\<lparr>cache := blkcache_invalidate d (cache s)\<rparr>)" (is "cache_inv ?s")
proof (rule cache_invI)
  note c = invalidate_ok [OF inv_parts(1) [OF inv], of d]
  have fl: "in_flight ?s w l = in_flight s w l" for w l by (simp add: in_flight_def)
  show "wf_cache (cache ?s)" using c by simp
  show "b = disk ?s w l \<or> in_flight ?s w l" if "cached (cache ?s) w l = Some b" for w l b
    unfolding fl using that c inv_parts(2) [OF inv] by simp
  show "u = v" if "thr ?s u = Some i" "thr ?s v = Some j" "writes i w l" "writes j w l" for u v i j w l
    using inv_parts(3) [OF inv] that by simp
  show "io_ok ?s i" if "thr ?s u = Some i" for u i
  proof -
    have "io_ok s i" using inv_parts(4) [OF inv] that by simp
    then show ?thesis using c by (cases i) auto
  qed
qed

lemma cached_stamp:
  assumes "i < length (entries c)"
  shows "cached (stamp i c) = cached c"
proof -
  have e: "entries (stamp i c) ! j = (if j = i then (entries c ! i)\<lparr>last_used := clock_tick c + 1\<rparr> else entries c ! j)" for j
    using assms by (simp add: stamp_def nth_list_update)
  have "lookup w l (stamp i c) = lookup w l c" for w l
    unfolding lookup_def e by (simp add: stamp_def Let_def) (rule arg_cong [where f = "\<lambda>P. find P _"], auto simp: fun_eq_iff)
  then show ?thesis unfolding cached_def e by (auto simp: fun_eq_iff split: option.split)
qed

lemma read_begin_ok:
  assumes "wf_cache c"
  shows "\<exists>r c'. blkcache_read_begin d l c = Some (r, c') \<and> wf_cache c' \<and> cached c' = cached c \<and> write_gen c' = write_gen c
    \<and> (case r of
         Read_Fails rc \<Rightarrow> resolve d l 1 = Inl rc
       | Read_Hit b \<Rightarrow> cached c (blockdev_whole d) (blockdev_disk_lba d l) = Some b
       | Read_Miss w dl g \<Rightarrow> w = blockdev_whole d \<and> dl = blockdev_disk_lba d l \<and> g = write_gen c \<and> cached c w dl = None)"
proof (cases "resolve d l 1")
  case (Inl rc)
  then show ?thesis using assms by (simp add: blkcache_read_begin_def)
next
  case (Inr wl)
  let ?w = "blockdev_whole d" and ?l = "blockdev_disk_lba d l"
  have r: "resolve d l 1 = Inr (?w, ?l)" using Inr by (auto simp: resolve_def split: if_splits)
  show ?thesis
  proof (cases "lookup ?w ?l c")
    case None
    then show ?thesis using r assms by (simp add: blkcache_read_begin_def cached_def)
  next
    case (Some i)
    then have i: "i < length (entries c)" using lookup_iff [OF assms] by blast
    obtain b where "data (entries c ! i) = Some b" using wf_data [OF assms i] by blast
    then show ?thesis
      using r Some wf_stamp [OF assms i] cached_stamp [OF i] by (simp add: blkcache_read_begin_def cached_def) (simp add: stamp_def)
  qed
qed

lemma read_end_ok:
  assumes "wf_cache c"
  shows "\<exists>c'. blkcache_read_end w dl g b c = Some c' \<and> wf_cache c' \<and> write_gen c' = write_gen c
    \<and> (\<forall>w' l' b'. cached c' w' l' = Some b' \<longrightarrow>
         cached c w' l' = Some b' \<or> g = write_gen c \<and> w' = w \<and> l' = dl \<and> b' = b)"
proof (cases "g = write_gen c")
  case True
  obtain c' where c': "store w dl b c = Some c'" "wf_cache c'" "write_gen c' = write_gen c" "cached c' w dl = Some b"
      "\<forall>w' l' s. (w', l') \<noteq> (w, dl) \<longrightarrow> cached c' w' l' = Some s \<longrightarrow> cached c w' l' = Some s"
    using store_ok [OF assms] by blast
  have "cached c w' l' = Some b' \<or> w' = w \<and> l' = dl \<and> b' = b" if "cached c' w' l' = Some b'" for w' l' b'
    using that c'(4,5) by (cases "(w', l') = (w, dl)") auto
  then show ?thesis using True c'(1-3) by (simp add: blkcache_read_end_def)
next
  case False
  then show ?thesis using assms by (auto simp: blkcache_read_end_def)
qed

lemma write_begin_gen:
  assumes "blkcache_write_begin d l n c = (Inr wl, c')"
  shows "c' = c\<lparr>write_gen := write_gen c + 1\<rparr>"
  using assms by (auto simp: blkcache_write_begin_def split: sum.splits)

lemma cache_reach_inv: "cache_reach s \<Longrightarrow> cache_inv s"
proof (induction rule: cache_reach.induct)
  case (start c dk)
  have "cached (blkcache_init True c) w l = None" for w l
    using bucket_of_less [of w l] by (simp add: cached_def lookup_def blkcache_init_def del: replicate.simps upt_rec_numeral)
  then show ?case by (intro cache_invI) (simp_all add: wf_init)
next
  case (read s t d l r c)
  note inv = inv_parts [OF read.IH]
  from read_begin_ok [OF inv(1), of d l] read.hyps(3)
  have c: "wf_cache c" "cached c = cached (cache s)" "write_gen c = write_gen (cache s)"
    and r: "\<And>w dl g. r = Read_Miss w dl g \<Longrightarrow> g = write_gen (cache s)" by (auto split: read_start.splits)
  have x: "\<exists>w dl. started r = Some (Missed w dl (write_gen (cache s))) \<or> started r = None" using r by (cases r) auto
  then have fl: "in_flight (s\<lparr>cache := c, thr := (thr s)(t := started r)\<rparr>) w l = in_flight s w l" for w l
    using read.hyps(2) by (intro in_flight_same) auto
  show ?case by (rule inv_quiet [OF read.IH, where t = t and x = "started r"]) (use c x fl inv(2) in auto)
next
  case (fetch s t w dl g)
  have fl: "in_flight (s\<lparr>thr := (thr s)(t := Some (Fetched w dl g (disk s w dl)))\<rparr>) w' l' = in_flight s w' l'" for w' l'
    using fetch.hyps(2) by (intro in_flight_same) auto
  show ?case
    by (rule inv_quiet [OF fetch.IH, where t = t and x = "Some (Fetched w dl g (disk s w dl))"])
      (use fl inv_parts [OF fetch.IH] inv_parts(4) [OF fetch.IH fetch.hyps(2)] in auto)
next
  case (fetch_fails s t w dl g)
  have fl: "in_flight (s\<lparr>thr := (thr s)(t := None)\<rparr>) w' l' = in_flight s w' l'" for w' l'
    using fetch_fails.hyps(2) by (intro in_flight_same) auto
  show ?case
    by (rule inv_quiet [OF fetch_fails.IH, where t = t and x = None]) (use fl inv_parts [OF fetch_fails.IH] in auto)
next
  case (install s t w dl g b c)
  note inv = inv_parts [OF install.IH]
  have fl: "in_flight (s\<lparr>cache := c, thr := (thr s)(t := None)\<rparr>) w' l' = in_flight s w' l'" for w' l'
    using install.hyps(2) by (intro in_flight_same) auto
  from read_end_ok [OF inv(1), of w dl g b] install.hyps(3)
  have c: "wf_cache c" "write_gen c = write_gen (cache s)"
      "\<And>w' l' b'. cached c w' l' = Some b' \<Longrightarrow>
         cached (cache s) w' l' = Some b' \<or> g = write_gen (cache s) \<and> w' = w \<and> l' = dl \<and> b' = b" by auto
  have "b' = disk s w' l' \<or> in_flight s w' l'" if "cached c w' l' = Some b'" for w' l' b'
    using c(3) [OF that] inv(2) inv(4) [OF install.hyps(2)] by auto
  then show ?case by (intro inv_quiet [OF install.IH, where t = t and x = None]) (use c(1,2) fl in auto)
next
  case (begin_write s t d l ins w dl c)
  note inv = inv_parts [OF begin_write.IH]
  let ?s = "s\<lparr>cache := c, thr := (thr s)(t := Some (Writing w dl ins))\<rparr>"
  have c: "c = (cache s)\<lparr>write_gen := write_gen (cache s) + 1\<rparr>" by (rule write_begin_gen [OF begin_write.hyps(3)])
  have "in_flight ?s w' l'" if "in_flight s w' l'" for w' l'
    using that begin_write.hyps(2) unfolding in_flight_def by (metis (no_types) fun_upd_apply option.distinct(1) select_convs(3) surjective update_convs(1,3))
  then show ?case
    by (intro inv_quiet [OF begin_write.IH, where t = t and x = "Some (Writing w dl ins)"])
      (use c inv(1,2) begin_write.hyps(4) in \<open>auto simp: in_flight_def\<close>)
next
  case (put s t w dl ins)
  show ?case by (rule inv_put [OF put.IH put.hyps(2)]) simp_all
next
  case (put_fails s t w dl ins rc dk)
  show ?case by (rule inv_put [OF put_fails.IH put_fails.hyps(2), where rc = rc]) (use put_fails.hyps(3,4) in auto)
next
  case (finish s t w dl ins rc c)
  show ?case by (rule inv_finish [OF finish.IH finish.hyps(2)]) (use finish.hyps in simp_all)
next
  case (invalidate s d)
  show ?case by (rule inv_invalidate [OF invalidate.IH])
qed

section \<open>Properties\<close>

text \<open>C16: the sector cache is coherent. In every interleaving of reads, writes, failing transfers and
  invalidations in which overlapping writes do not run at the same time, a read that hits returns what
  is on the disk, unless a write of that very sector is in progress; and no section of a read or a write
  runs into a missing buffer.\<close>

theorem blkcache_coherent:
  assumes "cache_reach s"
  shows "(\<exists>r c. blkcache_read_begin d l (cache s) = Some (r, c)
      \<and> (\<forall>b. r = Read_Hit b \<and> \<not> in_flight s (blockdev_whole d) (blockdev_disk_lba d l)
           \<longrightarrow> b = disk s (blockdev_whole d) (blockdev_disk_lba d l)))
    \<and> blkcache_read_end w dl g bytes (cache s) \<noteq> None \<and> blkcache_write_end w dl ins rc (cache s) \<noteq> None"
proof -
  note inv = inv_parts [OF cache_reach_inv [OF assms]]
  obtain r c where r: "blkcache_read_begin d l (cache s) = Some (r, c)"
      "\<And>b. r = Read_Hit b \<Longrightarrow> cached (cache s) (blockdev_whole d) (blockdev_disk_lba d l) = Some b"
    using read_begin_ok [OF inv(1), of d l] by fastforce
  moreover have "blkcache_read_end w dl g bytes (cache s) \<noteq> None" using read_end_ok [OF inv(1), of w dl g bytes] by auto
  moreover have "blkcache_write_end w dl ins rc (cache s) \<noteq> None" using write_end_ok [OF inv(1), of w dl ins rc] by auto
  ultimately show ?thesis using inv(2) by blast
qed

definition sda1 :: blockdev where
  "sda1 = \<lparr>self = 32, sector_count = 128, parent = Some 16, start_lba = 64\<rparr>"

definition boot_cache :: blkcache where
  "boot_cache = \<lparr>entries = replicate 128 \<lparr>data = None, dev = 0, lba = 0, valid = False, last_used = 0\<rparr>, buckets = [], clock_tick = 0, hits = 0, misses = 0, write_gen = 0\<rparr>"

theorem blkcache_coherent_witness:
  "\<exists>r c. blkcache_read_begin sda1 6 (blkcache_init True boot_cache) = Some (r, c)"
  using blkcache_coherent [OF cache_reach.start [of boot_cache "\<lambda>w l. []"], of sda1 6 0 0 0 "[]" "[]" 0] by auto

text \<open>C30: reading back. After the write of a sector has succeeded, a read of it hits and returns the bytes
  written, whichever of the disk and its partitions the two name the sector through.\<close>

theorem blkcache_write_read:
  assumes "wf_cache c" and "resolve d l 1 = Inr (w, dl)" and "resolve d' l' 1 = Inr (w, dl)"
  shows "\<exists>c1 c2. blkcache_write_end w dl [bytes] 0 (snd (blkcache_write_begin d l 1 c)) = Some c1
    \<and> blkcache_read_begin d' l' c1 = Some (Read_Hit bytes, c2)"
proof -
  let ?c = "snd (blkcache_write_begin d l 1 c)"
  have "wf_cache (?c\<lparr>write_gen := write_gen ?c + 1\<rparr>)"
    using assms(1,2) by (simp add: blkcache_write_begin_def)
  from store_ok [OF this, of w dl bytes]
  obtain c1 where c1: "blkcache_write_end w dl [bytes] 0 ?c = Some c1" "wf_cache c1" "cached c1 w dl = Some bytes"
    by (auto simp: blkcache_write_end_def Let_def)
  have "blockdev_whole d' = w \<and> blockdev_disk_lba d' l' = dl" using assms(3) by (auto simp: resolve_def split: if_splits)
  moreover obtain r c2 where "blkcache_read_begin d' l' c1 = Some (r, c2)" "case r of Read_Fails rc \<Rightarrow> resolve d' l' 1 = Inl rc
      | Read_Hit b \<Rightarrow> cached c1 (blockdev_whole d') (blockdev_disk_lba d' l') = Some b
      | Read_Miss w dl g \<Rightarrow> w = blockdev_whole d' \<and> dl = blockdev_disk_lba d' l' \<and> g = write_gen c1 \<and> cached c1 w dl = None"
    using read_begin_ok [OF c1(2), of d' l'] by blast
  ultimately show ?thesis using c1 assms(3) by (cases r) auto
qed

definition sda :: blockdev where
  "sda = \<lparr>self = 16, sector_count = 256, parent = None, start_lba = 0\<rparr>"

theorem blkcache_write_read_witness:
  "\<exists>c1 c2. blkcache_write_end 16 70 [[0xA5]] 0 (snd (blkcache_write_begin sda 70 1 (blkcache_init True boot_cache))) = Some c1
     \<and> blkcache_read_begin sda1 6 c1 = Some (Read_Hit [0xA5], c2)"
  by (rule blkcache_write_read [OF wf_init])
    (simp_all add: resolve_def sda_def sda1_def blockdev_whole_def blockdev_disk_lba_def blkcache_write_begin_def)

end
