(* ===== verification/Crc32.thy ===== *)
theory Crc32
  imports Prelude
begin

text \<open>
  The checksum of \<open>src/kernel/lib/crc32.c\<close>: a table of 256 entries, built on first use, and one lookup
  per byte. It computes the reflected CRC-32, defined here bit by bit.
\<close>

definition crc_step :: "u32 \<Rightarrow> u32" where
  "crc_step c = (if c AND 1 \<noteq> 0 then 0xEDB88320 XOR drop_bit 1 c else drop_bit 1 c)"

definition build :: "u32 list" where
  "build = map (\<lambda>i. (crc_step ^^ 8) (of_nat i)) [0..<256]"

definition crc_byte :: "u32 list \<Rightarrow> u32 \<Rightarrow> u8 \<Rightarrow> u32" where
  "crc_byte table crc b = table ! unat ((crc XOR ucast b) AND 0xFF) XOR drop_bit 8 crc"

definition crc32 :: "u32 \<Rightarrow> u8 list \<Rightarrow> u32" where
  "crc32 crc buf = NOT (foldl (crc_byte build) (NOT crc) buf)"

section \<open>The bitwise checksum\<close>

definition crc_byte_ref :: "u32 \<Rightarrow> u8 \<Rightarrow> u32" where
  "crc_byte_ref crc b = (crc_step ^^ 8) (crc XOR ucast b)"

definition crc32_ref :: "u32 \<Rightarrow> u8 list \<Rightarrow> u32" where
  "crc32_ref crc buf = NOT (foldl crc_byte_ref (NOT crc) buf)"

lemma crc_step_bit: "crc_step c = (if bit c 0 then 0xEDB88320 else 0) XOR drop_bit 1 c"
  by (simp add: crc_step_def bit_and_1_iff)

lemma crc_step_xor: "crc_step (x XOR y) = crc_step x XOR crc_step y"
  unfolding crc_step_bit by (simp add: bit_xor_iff drop_bit_xor ac_simps)

lemma crc_steps_xor: "(crc_step ^^ n) (x XOR y) = (crc_step ^^ n) x XOR (crc_step ^^ n) y"
  by (induction n) (simp_all add: crc_step_xor)

lemma crc_steps_shift:
  assumes "\<forall>k < n. \<not> bit x k"
  shows "(crc_step ^^ n) x = drop_bit n x"
  using assms
proof (induction n)
  case (Suc n)
  then have "(crc_step ^^ Suc n) x = crc_step (drop_bit n x)" by simp
  also have "\<dots> = drop_bit (Suc n) x" using Suc.prems by (simp add: crc_step_bit bit_drop_bit_eq drop_bit_drop_bit)
  finally show ?case .
qed simp

lemma mask_byte: "(0xFF :: u32) = mask 8"
  by (simp add: mask_eq_exp_minus_1)

lemma split_byte: "x = (x AND 0xFF) XOR push_bit 8 (drop_bit 8 (x :: u32))"
  unfolding mask_byte by (rule bit_word_eqI) (auto simp: bit_simps)

lemma drop_push_drop: "drop_bit 8 (push_bit 8 (drop_bit 8 x)) = drop_bit 8 (x :: u32)"
  by (rule bit_word_eqI) (auto simp: bit_simps dest: bit_imp_le_length)

lemma build_entry: "build ! unat (x AND 0xFF) = (crc_step ^^ 8) (x AND 0xFF)"
proof -
  have "unat (x AND 0xFF) < 256"
    using and_mask_less' [of 8 x] unfolding mask_byte by (simp add: word_less_nat_alt)
  then show ?thesis by (simp add: build_def)
qed

lemma crc_byte_ok: "crc_byte build crc b = crc_byte_ref crc b"
proof -
  let ?x = "crc XOR ucast b"
  have "drop_bit 8 (ucast b :: u32) = 0" by (rule bit_word_eqI) (auto simp: bit_simps dest: bit_imp_le_length)
  then have shift: "drop_bit 8 ?x = drop_bit 8 crc" by (simp add: drop_bit_xor)
  have "(crc_step ^^ 8) ?x = (crc_step ^^ 8) (?x AND 0xFF) XOR (crc_step ^^ 8) (push_bit 8 (drop_bit 8 ?x))"
    using split_byte [of ?x] crc_steps_xor [of 8 "?x AND 0xFF"] by metis
  also have "(crc_step ^^ 8) (push_bit 8 (drop_bit 8 ?x)) = drop_bit 8 (push_bit 8 (drop_bit 8 ?x))"
    by (rule crc_steps_shift) (auto simp: bit_simps)
  also have "\<dots> = drop_bit 8 ?x" by (rule drop_push_drop)
  finally show ?thesis unfolding crc_byte_def crc_byte_ref_def build_entry shift by simp
qed

lemma funpow_8: "(f ^^ 8) x = f (f (f (f (f (f (f (f x)))))))"
  by (simp add: numeral_eq_Suc)

text \<open>C21: the table-driven checksum is the reflected CRC-32 computed bit by bit; passing a previous result
  continues it; and it has the check value the header states for \<open>123456789\<close>.\<close>

theorem crc32_correct:
  "crc32 crc buf = crc32_ref crc buf \<and> crc32 (crc32 crc buf) more = crc32 crc (buf @ more)
    \<and> crc32 0 [0x31, 0x32, 0x33, 0x34, 0x35, 0x36, 0x37, 0x38, 0x39] = 0xCBF43926"
proof -
  have e: "crc_byte build = crc_byte_ref" by (intro ext) (rule crc_byte_ok)
  have "crc32_ref 0 [0x31, 0x32, 0x33, 0x34, 0x35, 0x36, 0x37, 0x38, 0x39] = 0xCBF43926"
    by (simp add: crc32_ref_def crc_byte_ref_def funpow_8 crc_step_def)
  then show ?thesis by (simp add: crc32_def crc32_ref_def e)
qed

end
