(* ===== verification/Part.thy ===== *)
theory Part
  imports Crc32
begin

text \<open>
  The partition-table scanner of \<open>src/kernel/block/part.c\<close>: a GUID partition table, its backup, or the
  four primary entries of a master boot record, checked and registered.

  A device read is the parameter \<open>rd\<close>: from a sector number and a count it gives whether it succeeded
  and the bytes it left at the start of the buffer, which for a failed read may be anything. Buffers are
  byte lists and keep what an earlier read left. \<open>reg no\<close> says whether the device table has room for
  partition \<open>no\<close>. Sector numbers are 64-bit words. The messages to the serial line are left out.
\<close>

section \<open>Buffers\<close>

type_synonym reader = "u64 \<Rightarrow> u32 \<Rightarrow> bool \<times> u8 list"

definition into :: "u8 list \<Rightarrow> u8 list \<Rightarrow> u8 list" where
  "into buf bytes = bytes @ drop (length bytes) buf"

definition get32 :: "u8 list \<Rightarrow> nat \<Rightarrow> u32" where
  "get32 p i = ucast (p ! i) OR push_bit 8 (ucast (p ! (i + 1))) OR push_bit 16 (ucast (p ! (i + 2)))
     OR push_bit 24 (ucast (p ! (i + 3)))"

definition get64 :: "u8 list \<Rightarrow> nat \<Rightarrow> u64" where
  "get64 p i = ucast (get32 p i) OR push_bit 32 (ucast (get32 p (i + 4)))"

definition gpt_signature :: "u8 list \<Rightarrow> bool" where
  "gpt_signature p = (take 8 p = [0x45, 0x46, 0x49, 0x20, 0x50, 0x41, 0x52, 0x54])"

section \<open>Accepting an entry\<close>

text \<open>A registered partition: its number, first sector and length. \<open>accepted\<close> holds first and last
  sectors.\<close>

record scan =
  parts :: "(u32 \<times> u64 \<times> u64) list"
  accepted :: "(u64 \<times> u64) list"

definition blockdev_register_part :: "(u32 \<Rightarrow> bool) \<Rightarrow> u64 \<Rightarrow> u32 \<Rightarrow> u64 \<Rightarrow> u64 \<Rightarrow> bool" where
  "blockdev_register_part reg sectors no first count \<longleftrightarrow>
     \<not> (no = 0 \<or> count = 0 \<or> sectors \<le> first \<or> sectors - first < count) \<and> reg no"

definition accept :: "(u32 \<Rightarrow> bool) \<Rightarrow> u64 \<Rightarrow> u32 \<Rightarrow> u64 \<Rightarrow> u64 \<Rightarrow> scan \<Rightarrow> scan" where
  "accept reg sectors no first count st =
     (if count = 0 then st
      else if sectors \<le> first \<or> sectors - first < count then st
      else let last = first + count - 1 in
        if \<exists>(f, l) \<in> set (accepted st). first \<le> l \<and> f \<le> last then st
        else if blockdev_register_part reg sectors no first count
        then st\<lparr>parts := parts st @ [(no, first, count)], accepted := accepted st @ [(first, last)]\<rparr>
        else st)"

section \<open>GUID partition tables\<close>

definition gpt_load :: "reader \<Rightarrow> u64 \<Rightarrow> u32 \<Rightarrow> u64 \<Rightarrow> u8 list \<times> u8 list \<Rightarrow> bool \<times> u8 list \<times> u8 list" where
  "gpt_load rd sectors ss lba b =
     (let (hdr, ents) = b in
      if lba = 0 \<or> sectors \<le> lba then (False, hdr, ents)
      else let hdr = into hdr (snd (rd lba 1)) in
        if \<not> fst (rd lba 1) then (False, hdr, ents)
        else if \<not> gpt_signature hdr then (False, hdr, ents)
        else let hsize = get32 hdr 12 in
          if hsize < 92 \<or> ss < hsize then (False, hdr, ents)
          else if crc32 0 (take (unat hsize) (hdr[16 := 0, 17 := 0, 18 := 0, 19 := 0])) \<noteq> get32 hdr 16 then (False, hdr, ents)
          else let n = get32 hdr 80; esz = get32 hdr 84 in
            if esz \<noteq> 128 \<or> n = 0 \<or> 128 < n then (False, hdr, ents)
            else let ent_lba = get64 hdr 72; bytes = n * esz; secs = (bytes + ss - 1) div ss in
              if sectors \<le> ent_lba \<or> sectors - ent_lba < ucast secs then (False, hdr, ents)
              else let ents = into ents (snd (rd ent_lba secs)) in
                if \<not> fst (rd ent_lba secs) then (False, hdr, ents)
                else (crc32 0 (take (unat bytes) ents) = get32 hdr 88, hdr, ents))"

definition gpt_expected :: "reader \<Rightarrow> u8 list \<Rightarrow> bool \<times> u8 list" where
  "gpt_expected rd sec =
     (let sec0 = into sec (snd (rd 0 1)); sec1 = into sec0 (snd (rd 1 1)) in
      if fst (rd 0 1) \<and> sec0 ! 510 = 0x55 \<and> sec0 ! 511 = 0xAA \<and> (\<exists>i \<in> {0..<4}. sec0 ! (446 + 16 * i + 4) = 0xEE)
      then (True, sec0)
      else (fst (rd 1 1) \<and> gpt_signature sec1, sec1))"

definition gpt_entry :: "(u32 \<Rightarrow> bool) \<Rightarrow> u64 \<Rightarrow> u8 list \<Rightarrow> nat \<Rightarrow> scan \<Rightarrow> scan" where
  "gpt_entry reg sectors ents i st =
     (let e = drop (i * 128) ents; first = get64 e 32; last = get64 e 40 in
      if \<forall>k \<in> {0..<16}. e ! k = 0 then st
      else if last < first then st
      else accept reg sectors (of_nat i + 1) first (last - first + 1) st)"

text \<open>The primary table, else its backup.\<close>

definition gpt_find :: "reader \<Rightarrow> u64 \<Rightarrow> u32 \<Rightarrow> u8 list \<Rightarrow> u8 list \<Rightarrow> bool \<times> u8 list \<times> u8 list" where
  "gpt_find rd sectors ss sec ents =
     (let (ok, sec, ents) = gpt_load rd sectors ss 1 (sec, ents);
          alt = get64 sec 32;
          backup = (if sec ! 0 = 0x45 \<and> sec ! 1 = 0x46 \<and> sec ! 2 = 0x49 \<and> 1 < alt \<and> alt < sectors then alt else sectors - 1)
      in if ok then (ok, sec, ents) else gpt_load rd sectors ss backup (sec, ents))"

definition scan_gpt ::
  "reader \<Rightarrow> (u32 \<Rightarrow> bool) \<Rightarrow> u64 \<Rightarrow> u32 \<Rightarrow> u8 list \<Rightarrow> u8 list \<Rightarrow> bool \<times> u8 list \<times> scan" where
  "scan_gpt rd reg sectors ss sec ents =
     (let (ok, sec, ents) = gpt_find rd sectors ss sec ents;
          none = \<lparr>parts = [], accepted = []\<rparr> in
      if \<not> ok then (False, sec, none)
      else (True, sec, fold (gpt_entry reg sectors ents) [0..<unat (get32 sec 80)] none))"

section \<open>Master boot records\<close>

definition mbr_entry :: "(u32 \<Rightarrow> bool) \<Rightarrow> u64 \<Rightarrow> u8 list \<Rightarrow> nat \<Rightarrow> scan \<Rightarrow> scan" where
  "mbr_entry reg sectors sec i st =
     (let p = drop (446 + 16 * i) sec; type = p ! 4 in
      if type = 0 \<or> type = 0x05 \<or> type = 0x0F \<or> type = 0x85 then st
      else accept reg sectors (of_nat i + 1) (ucast (get32 p 8)) (ucast (get32 p 12)) st)"

text \<open>Sector 0, when it can be read and is a boot record with four entries of its own.\<close>

definition mbr_read :: "reader \<Rightarrow> u8 list \<Rightarrow> u8 list option" where
  "mbr_read rd sec =
     (let sec = into sec (snd (rd 0 1)) in
      if \<not> fst (rd 0 1) \<or> sec ! 510 \<noteq> 0x55 \<or> sec ! 511 \<noteq> 0xAA then None
      else if \<exists>i \<in> {0..<4}. sec ! (446 + 16 * i) \<noteq> 0 \<and> sec ! (446 + 16 * i) \<noteq> 0x80 then None
      else if \<exists>i \<in> {0..<4}. sec ! (446 + 16 * i + 4) = 0xEE then None
      else Some sec)"

definition scan_mbr :: "reader \<Rightarrow> (u32 \<Rightarrow> bool) \<Rightarrow> u64 \<Rightarrow> u8 list \<Rightarrow> scan" where
  "scan_mbr rd reg sectors sec =
     (let none = \<lparr>parts = [], accepted = []\<rparr> in
      case mbr_read rd sec of None \<Rightarrow> none
      | Some sec \<Rightarrow> fold (mbr_entry reg sectors sec) [0..<4] none)"

text \<open>\<open>mem\<close>: whether both buffers could be allocated, with the contents \<open>sec\<close> and \<open>ents\<close>.\<close>

definition part_scan :: "reader \<Rightarrow> (u32 \<Rightarrow> bool) \<Rightarrow> bool \<Rightarrow> u64 \<Rightarrow> u32 \<Rightarrow> u8 list \<Rightarrow> u8 list \<Rightarrow> (u32 \<times> u64 \<times> u64) list" where
  "part_scan rd reg mem sectors ss sec ents =
     (if \<not> mem then []
      else if sectors < 3 then parts (scan_mbr rd reg sectors sec)
      else let (expected, sec) = gpt_expected rd sec in
        if \<not> expected then parts (scan_mbr rd reg sectors sec)
        else let (found, sec, st) = scan_gpt rd reg sectors ss sec ents in
          if found then parts st else parts (scan_mbr rd reg sectors sec))"

section \<open>The entries of the table in use\<close>

text \<open>What entry \<open>i\<close> asks for: first sector and length, \<open>None\<close> for an unused or malformed entry.\<close>

definition gpt_candidate :: "u8 list \<Rightarrow> nat \<Rightarrow> (u64 \<times> u64) option" where
  "gpt_candidate ents i =
     (let e = drop (i * 128) ents; first = get64 e 32; last = get64 e 40 in
      if (\<forall>k \<in> {0..<16}. e ! k = 0) \<or> last < first then None else Some (first, last - first + 1))"

definition mbr_candidate :: "u8 list \<Rightarrow> nat \<Rightarrow> (u64 \<times> u64) option" where
  "mbr_candidate sec i =
     (let p = drop (446 + 16 * i) sec in
      if p ! 4 \<in> {0, 0x05, 0x0F, 0x85} then None else Some (ucast (get32 p 8), ucast (get32 p 12)))"

text \<open>The table a scan uses: the number of its entries and what each asks for. A GUID table, primary or
  backup, where one is expected and valid; else the boot record; else none.\<close>

definition mbr_table :: "reader \<Rightarrow> u8 list \<Rightarrow> nat \<times> (nat \<Rightarrow> (u64 \<times> u64) option)" where
  "mbr_table rd sec = (case mbr_read rd sec of None \<Rightarrow> (0, \<lambda>i. None) | Some sec \<Rightarrow> (4, mbr_candidate sec))"

definition part_table :: "reader \<Rightarrow> bool \<Rightarrow> u64 \<Rightarrow> u32 \<Rightarrow> u8 list \<Rightarrow> u8 list \<Rightarrow> nat \<times> (nat \<Rightarrow> (u64 \<times> u64) option)" where
  "part_table rd mem sectors ss sec ents =
     (if \<not> mem then (0, \<lambda>i. None)
      else if sectors < 3 then mbr_table rd sec
      else case gpt_expected rd sec of (expected, sec) \<Rightarrow>
        if \<not> expected then mbr_table rd sec
        else case gpt_find rd sectors ss sec ents of (found, sec, ents) \<Rightarrow>
          if found then (unat (get32 sec 80), gpt_candidate ents) else mbr_table rd sec)"

section \<open>Partitions lie on the disk, apart from each other\<close>

definition on_disk :: "u64 \<Rightarrow> u32 \<times> u64 \<times> u64 \<Rightarrow> bool" where
  "on_disk sectors p = (case p of (no, first, count) \<Rightarrow> 0 < unat count \<and> unat first + unat count \<le> unat sectors)"

definition apart :: "u32 \<times> u64 \<times> u64 \<Rightarrow> u32 \<times> u64 \<times> u64 \<Rightarrow> bool" where
  "apart p q = (case (p, q) of ((no, f, c), (no', f', c')) \<Rightarrow>
     no < no' \<and> (unat f + unat c \<le> unat f' \<or> unat f' + unat c' \<le> unat f))"

definition scan_ok :: "u64 \<Rightarrow> nat \<Rightarrow> scan \<Rightarrow> bool" where
  "scan_ok sectors n st \<longleftrightarrow> accepted st = map (\<lambda>(no, f, c). (f, f + c - 1)) (parts st)
     \<and> (\<forall>p \<in> set (parts st). on_disk sectors p \<and> 1 \<le> unat (fst p) \<and> unat (fst p) \<le> n) \<and> sorted_wrt apart (parts st)"

lemma last_sector:
  fixes first count sectors :: u64
  assumes "count \<noteq> 0" and "\<not> sectors \<le> first" and "\<not> sectors - first < count"
  shows "unat (first + count - 1) = unat first + unat count - 1 \<and> unat first + unat count \<le> unat sectors \<and> 0 < unat count"
proof -
  have c: "0 < unat count" using assms(1) by (simp add: unat_gt_0)
  have "unat (sectors - first) = unat sectors - unat first" using assms(2) by (simp add: unat_sub)
  then have le: "unat first + unat count \<le> unat sectors" using assms(2,3) by (simp add: word_le_nat_alt word_less_nat_alt)
  have lt: "unat first + unat count < 2 ^ 64" using le unsigned_less [of sectors, where ?'a = nat] by simp
  then have s: "unat (first + count) = unat first + unat count" by (simp add: unat_word_ariths)
  then have "1 \<le> first + count" using c by (simp add: word_le_nat_alt)
  then have "unat (first + count - 1) = unat (first + count) - 1" by (simp add: unat_sub)
  then show ?thesis using s le c by simp
qed

lemma accept_ok:
  assumes "scan_ok sectors n st" and "n < unat no"
  shows "scan_ok sectors (unat no) (accept reg sectors no first count st)"
proof -
  have keep: "scan_ok sectors (unat no) st" using assms by (auto simp: scan_ok_def intro: order.trans)
  show ?thesis
  proof (cases "accept reg sectors no first count st = st")
    case True
    then show ?thesis using keep by simp
  next
    case False
    then have new: "count \<noteq> 0" "\<not> sectors \<le> first" "\<not> sectors - first < count"
        "\<forall>(f, l) \<in> set (accepted st). \<not> (first \<le> l \<and> f \<le> first + count - 1)"
        "accept reg sectors no first count st
          = st\<lparr>parts := parts st @ [(no, first, count)], accepted := accepted st @ [(first, first + count - 1)]\<rparr>"
      by (auto simp: accept_def Let_def split: if_splits)
    note l = last_sector [OF new(1-3)]
    have "apart p (no, first, count)" if p: "p \<in> set (parts st)" for p
    proof -
      obtain no' f c where pe: "p = (no', f, c)" by (cases p) auto
      have d: "0 < unat c" "unat f + unat c \<le> unat sectors" "unat no' \<le> n" using p assms(1) pe by (auto simp: scan_ok_def on_disk_def)
      have "c \<noteq> 0 \<and> \<not> sectors \<le> f \<and> \<not> sectors - f < c"
        using d by (auto simp: word_le_nat_alt word_less_nat_alt unat_sub)
      then have "unat (f + c - 1) = unat f + unat c - 1" using last_sector by blast
      moreover have "(f, f + c - 1) \<in> set (accepted st)" using p pe assms(1) by (force simp: scan_ok_def)
      then have "\<not> (first \<le> f + c - 1 \<and> f \<le> first + count - 1)" using new(4) by auto
      ultimately show ?thesis using l d assms(2) pe by (auto simp: apart_def word_le_nat_alt word_less_nat_alt)
    qed
    moreover have "1 \<le> unat no" using assms(2) by simp
    ultimately show ?thesis using keep l new(5) by (auto simp: scan_ok_def on_disk_def sorted_wrt_append)
  qed
qed

lemma number_ok: "i < 128 \<Longrightarrow> unat (of_nat i + 1 :: u32) = Suc i"
  by (simp add: unat_word_ariths unat_of_nat)

lemma numbered_ok:
  assumes "i < 128" and "scan_ok sectors i st"
  shows "scan_ok sectors (Suc i) st" and "scan_ok sectors (Suc i) (accept reg sectors (of_nat i + 1) first count st)"
proof -
  show "scan_ok sectors (Suc i) st" using assms(2) by (auto simp: scan_ok_def intro: le_SucI)
  show "scan_ok sectors (Suc i) (accept reg sectors (of_nat i + 1) first count st)"
    using accept_ok [OF assms(2), of "of_nat i + 1"] number_ok [OF assms(1)] by simp
qed

text \<open>What is registered are entries of the table under their numbers, and an entry that fits on the disk
  is left out only when it overlaps an earlier entry that is registered or the device table refuses it.\<close>

definition overlapping :: "u64 \<times> u64 \<Rightarrow> u32 \<times> u64 \<times> u64 \<Rightarrow> bool" where
  "overlapping fc p = (case (fc, p) of ((f, c), (no, f', c')) \<Rightarrow>
     unat f < unat f' + unat c' \<and> unat f' < unat f + unat c)"

definition registered :: "(u32 \<Rightarrow> bool) \<Rightarrow> u64 \<Rightarrow> (u32 \<times> u64 \<times> u64) list \<Rightarrow> nat \<Rightarrow> u64 \<times> u64 \<Rightarrow> bool" where
  "registered reg sectors ps i fc \<longleftrightarrow> (of_nat (Suc i), fc) \<in> set ps \<or> \<not> on_disk sectors (0, fc)
     \<or> (\<exists>p \<in> set ps. unat (fst p) < Suc i \<and> overlapping fc p) \<or> \<not> reg (of_nat (Suc i))"

definition entry_of :: "(u32 \<Rightarrow> bool) \<Rightarrow> nat \<Rightarrow> (nat \<Rightarrow> (u64 \<times> u64) option) \<Rightarrow> u32 \<times> u64 \<times> u64 \<Rightarrow> bool" where
  "entry_of reg n entry p \<longleftrightarrow> (\<exists>i < n. fst p = of_nat (Suc i) \<and> entry i = Some (snd p) \<and> reg (fst p))"

definition accounted :: "(u32 \<Rightarrow> bool) \<Rightarrow> u64 \<Rightarrow> nat \<times> (nat \<Rightarrow> (u64 \<times> u64) option) \<Rightarrow> (u32 \<times> u64 \<times> u64) list \<Rightarrow> bool" where
  "accounted reg sectors table ps = (case table of (n, entry) \<Rightarrow>
     (\<forall>p \<in> set ps. entry_of reg n entry p)
     \<and> (\<forall>i < n. case entry i of None \<Rightarrow> True | Some fc \<Rightarrow> registered reg sectors ps i fc))"

definition scan_entry :: "(u32 \<Rightarrow> bool) \<Rightarrow> u64 \<Rightarrow> (nat \<Rightarrow> (u64 \<times> u64) option) \<Rightarrow> nat \<Rightarrow> scan \<Rightarrow> scan" where
  "scan_entry reg sectors entry i st =
     (case entry i of None \<Rightarrow> st | Some (first, count) \<Rightarrow> accept reg sectors (of_nat i + 1) first count st)"

lemma gpt_entry_scan: "gpt_entry reg sectors ents = scan_entry reg sectors (gpt_candidate ents)"
  by (auto simp: fun_eq_iff gpt_entry_def scan_entry_def gpt_candidate_def Let_def)

lemma mbr_entry_scan: "mbr_entry reg sectors sec = scan_entry reg sectors (mbr_candidate sec)"
  by (auto simp: fun_eq_iff mbr_entry_def scan_entry_def mbr_candidate_def Let_def)

lemma scan_entry_ok: "i < 128 \<Longrightarrow> scan_ok sectors i st \<Longrightarrow> scan_ok sectors (Suc i) (scan_entry reg sectors entry i st)"
  using numbered_ok by (simp add: scan_entry_def split: option.split)

lemma accept_result:
  assumes ok: "scan_ok sectors i st" and i: "i < 128"
  defines "no \<equiv> of_nat i + 1"
  shows "if parts (accept reg sectors no first count st) = parts st then registered reg sectors (parts st) i (first, count)
    else parts (accept reg sectors no first count st) = parts st @ [(no, first, count)] \<and> reg no"
proof -
  have no: "no = of_nat (Suc i)" "unat no = Suc i" using number_ok [OF i] by (simp_all add: no_def add.commute)
  then have nz: "no \<noteq> 0" by force
  consider (bad) "count = 0 \<or> sectors \<le> first \<or> sectors - first < count"
    | (over) f l where "\<not> (count = 0 \<or> sectors \<le> first \<or> sectors - first < count)" "(f, l) \<in> set (accepted st)"
        "first \<le> l" "f \<le> first + count - 1"
    | (free) "\<not> (count = 0 \<or> sectors \<le> first \<or> sectors - first < count)"
        "\<not> (\<exists>(f, l) \<in> set (accepted st). first \<le> l \<and> f \<le> first + count - 1)" by blast
  then show ?thesis
  proof cases
    case bad
    have "unat (sectors - first) = unat sectors - unat first" if "\<not> sectors \<le> first" using that by (simp add: unat_sub)
    then have "\<not> on_disk sectors (0, first, count)"
      using bad by (cases "sectors \<le> first") (auto simp: on_disk_def word_le_nat_alt word_less_nat_alt)
    then show ?thesis using bad by (auto simp: accept_def registered_def)
  next
    case over
    then have same: "accept reg sectors no first count st = st" by (auto simp: accept_def Let_def)
    have fl: "unat (first + count - 1) = unat first + unat count - 1 \<and> 0 < unat count" using last_sector over(1) by blast
    obtain no' c where p: "(no', f, c) \<in> set (parts st)" "l = f + c - 1" using over(2) ok by (auto simp: scan_ok_def)
    have d: "0 < unat c" "unat f + unat c \<le> unat sectors" "unat no' \<le> i" using p ok by (auto simp: scan_ok_def on_disk_def)
    have "c \<noteq> 0 \<and> \<not> sectors \<le> f \<and> \<not> sectors - f < c"
      using d by (auto simp: word_le_nat_alt word_less_nat_alt unat_sub)
    then have "unat l = unat f + unat c - 1" unfolding p(2) using last_sector by blast
    then have "overlapping (first, count) (no', f, c)"
      using over(3,4) fl d(1) unfolding overlapping_def word_le_nat_alt by auto
    then show ?thesis using same p(1) d(3) by (auto simp: registered_def intro!: bexI [of _ "(no', f, c)"])
  next
    case free
    then have "accept reg sectors no first count st = (if reg no
        then st\<lparr>parts := parts st @ [(no, first, count)], accepted := accepted st @ [(first, first + count - 1)]\<rparr> else st)"
      using nz by (auto simp: accept_def Let_def blockdev_register_part_def)
    then show ?thesis using no by (simp add: registered_def)
  qed
qed

lemma registered_append: "registered reg sectors ps i fc \<Longrightarrow> registered reg sectors (ps @ qs) i fc"
  unfolding registered_def by auto

lemma entry_of_Suc: "entry_of reg n entry p \<Longrightarrow> entry_of reg (Suc n) entry p"
  unfolding entry_of_def using less_SucI by blast

lemma scan_entry_accounted:
  assumes i: "i < 128" and ok: "scan_ok sectors i st" and acc: "accounted reg sectors (i, entry) (parts st)"
  shows "accounted reg sectors (Suc i, entry) (parts (scan_entry reg sectors entry i st))"
proof (cases "entry i")
  case None
  then show ?thesis using acc entry_of_Suc by (auto simp: accounted_def scan_entry_def less_Suc_eq split: option.splits)
next
  case (Some fc)
  obtain first count where fc: "fc = (first, count)" by fastforce
  let ?no = "of_nat i + 1 :: u32"
  have st: "scan_entry reg sectors entry i st = accept reg sectors ?no first count st"
    using Some fc by (simp add: scan_entry_def)
  note r = accept_result [OF ok i, of reg first count]
  have old: "\<forall>p \<in> set (parts st). entry_of reg (Suc i) entry p"
    using acc entry_of_Suc by (simp add: accounted_def)
  have reg: "case entry j of None \<Rightarrow> True | Some x \<Rightarrow> registered reg sectors (parts st @ qs) j x" if "j < i" for j qs
    using acc registered_append that by (auto simp: accounted_def split: option.splits)
  have n: "?no = of_nat (Suc i)" by (simp add: add.commute)
  show ?thesis
  proof (cases "parts (accept reg sectors ?no first count st) = parts st")
    case True
    then have "registered reg sectors (parts st) i fc" using r fc by simp
    then show ?thesis using old reg [of _ "[]", unfolded append_Nil2] Some unfolding st True accounted_def by (auto simp: less_Suc_eq)
  next
    case False
    then have ps: "parts (accept reg sectors ?no first count st) = parts st @ [(?no, fc)]" "reg ?no" using r fc by auto
    have "registered reg sectors (parts st @ [(?no, fc)]) i fc" unfolding registered_def n by simp
    moreover have "entry_of reg (Suc i) entry (?no, fc)"
      using Some ps(2) unfolding entry_of_def by (intro exI [of _ i]) (simp add: n)
    ultimately show ?thesis using old reg [of _ "[(?no, fc)]"] Some
      unfolding st ps(1) accounted_def by (auto simp: less_Suc_eq)
  qed
qed

text \<open>The walk over all the entries of a table.\<close>

lemma scan_all:
  "n \<le> 128 \<Longrightarrow> scan_ok sectors n (fold (scan_entry reg sectors entry) [0..<n] \<lparr>parts = [], accepted = []\<rparr>)
     \<and> accounted reg sectors (n, entry) (parts (fold (scan_entry reg sectors entry) [0..<n] \<lparr>parts = [], accepted = []\<rparr>))"
proof (induction n)
  case 0
  then show ?case by (simp add: scan_ok_def accounted_def)
next
  case (Suc n)
  then show ?case using scan_entry_ok scan_entry_accounted by simp
qed

lemma gpt_load_entries:
  assumes "gpt_load rd sectors ss lba b = (True, hdr, ents)"
  shows "unat (get32 hdr 80) \<le> 128"
proof -
  have "\<not> 128 < get32 hdr 80" using assms by (auto simp: gpt_load_def Let_def split: prod.splits if_splits)
  then show ?thesis by (simp add: word_less_nat_alt)
qed

lemma gpt_find_entries:
  assumes "gpt_find rd sectors ss sec ents = (True, hdr, ents')"
  shows "unat (get32 hdr 80) \<le> 128"
proof -
  obtain ok s1 e1 where g: "gpt_load rd sectors ss 1 (sec, ents) = (ok, s1, e1)" by (metis prod_cases3)
  obtain lba b where "gpt_load rd sectors ss lba b = (True, hdr, ents')"
    using assms g unfolding gpt_find_def Let_def by (cases ok) auto
  then show ?thesis by (rule gpt_load_entries)
qed

text \<open>The partitions registered from a table of at most 128 entries.\<close>

definition scanned :: "(u32 \<Rightarrow> bool) \<Rightarrow> u64 \<Rightarrow> nat \<times> (nat \<Rightarrow> (u64 \<times> u64) option) \<Rightarrow> (u32 \<times> u64 \<times> u64) list \<Rightarrow> bool" where
  "scanned reg sectors table ps \<longleftrightarrow> (\<forall>p \<in> set ps. on_disk sectors p \<and> 1 \<le> unat (fst p) \<and> unat (fst p) \<le> 128)
     \<and> sorted_wrt apart ps \<and> accounted reg sectors table ps"

lemma scanned_all: "n \<le> 128 \<Longrightarrow> scanned reg sectors (n, entry) (parts (fold (scan_entry reg sectors entry) [0..<n] \<lparr>parts = [], accepted = []\<rparr>))"
  using scan_all [of n sectors reg entry] unfolding scanned_def scan_ok_def by fastforce

lemma scan_mbr_scanned: "scanned reg sectors (mbr_table rd sec) (parts (scan_mbr rd reg sectors sec))"
  using scanned_all [of 4 reg sectors] scanned_all [of 0 reg sectors "\<lambda>i. None"]
  by (simp add: mbr_table_def scan_mbr_def mbr_entry_scan del: upt_rec_numeral split: option.split)

lemma part_scan_scanned: "scanned reg sectors (part_table rd mem sectors ss sec ents) (part_scan rd reg mem sectors ss sec ents)"
proof -
  obtain expected sec1 where e: "gpt_expected rd sec = (expected, sec1)" by fastforce
  obtain found sec2 ents2 where g: "gpt_find rd sectors ss sec1 ents = (found, sec2, ents2)" by (metis prod_cases3)
  have "unat (get32 sec2 80) \<le> 128" if found using gpt_find_entries [of rd sectors ss sec1 ents] g that by simp
  then show ?thesis
    using scan_mbr_scanned scanned_all scanned_all [of 0 reg sectors "\<lambda>i. None"]
    by (simp add: part_scan_def part_table_def e g scan_gpt_def gpt_entry_scan)
qed

text \<open>C20: whatever is on a disk, the partitions the scanner registers are exactly those the table in use
  asks for. Each is an entry of the table, under the number of the entry counted from 1; an entry with a
  range on the disk is missing only when it overlaps an earlier entry that is registered or the device
  table is full. All of them are not empty, lie on the disk, do not overlap, and have distinct numbers from
  1 to 128. Tables with wrapping ranges, stale buffers after a failed read and a full device table are
  covered.\<close>

theorem part_scan_sound:
  "list_all (\<lambda>p. on_disk sectors p \<and> 1 \<le> unat (fst p) \<and> unat (fst p) \<le> 128) (part_scan rd reg mem sectors ss sec ents)
    \<and> sorted_wrt apart (part_scan rd reg mem sectors ss sec ents)
    \<and> accounted reg sectors (part_table rd mem sectors ss sec ents) (part_scan rd reg mem sectors ss sec ents)"
  using part_scan_scanned [of reg sectors rd mem ss sec ents] by (simp add: scanned_def list_all_iff)

text \<open>A disk of 256 sectors whose boot record has one partition, sectors 64 to 191, and a second entry that
  overlaps it.\<close>

definition sample_mbr :: "u8 list" where
  "sample_mbr = (replicate 512 0)[450 := 0x83, 454 := 64, 458 := 128, 466 := 0x83, 470 := 100, 474 := 10, 510 := 0x55, 511 := 0xAA]"

lemma part_scan_sample: "part_scan (\<lambda>l n. (l = 0, if l = 0 then sample_mbr else [])) (\<lambda>no. True) True 256 512 [] [] = [(1, 64, 128)]"
  by code_simp

end
