(* ===== verification/Futex.thy ===== *)
theory Futex
  imports Prelude
begin

text \<open>
  Futexes, \<open>src/kernel/ipc/futex.c\<close>: user words with a kernel-side list of sleepers, hashed by the physical
  address of the word.

  A waiter lives on the kernel stack of the sleeping thread, so it is named by the thread; a list is the
  list of its waiters, in order. The key, the physical address of the word or 0 when it is not mapped, is
  an argument of the operations. \<open>waiting\<close> records which threads are inside \<open>futex_wait\<close> past the enqueue,
  \<open>woken\<close> the flag in their waiter, \<open>asleep\<close> whether they still sleep on their own queue. A sleep ends by a
  wake-up, a timeout or a signal; the thread then takes the lock again and runs \<open>futex_wait_end\<close>.
\<close>

section \<open>State\<close>

abbreviation (input) EFAULT :: int where "EFAULT \<equiv> 14"
abbreviation (input) ENOSYS :: int where "ENOSYS \<equiv> 38"
abbreviation (input) ETIMEDOUT :: int where "ETIMEDOUT \<equiv> 110"
abbreviation (input) FUTEX_BUCKETS :: nat where "FUTEX_BUCKETS \<equiv> 64"

record futex_waiter =
  thread :: nat
  fkey :: u64

record futexes =
  buckets :: "futex_waiter list list"
  words :: "u64 \<Rightarrow> u32"
  waiting :: "nat \<Rightarrow> u64 option"
  woken :: "nat \<Rightarrow> bool"
  asleep :: "nat \<Rightarrow> bool"

definition futex_init :: "futexes \<Rightarrow> futexes" where
  "futex_init s = s\<lparr>buckets := replicate FUTEX_BUCKETS []\<rparr>"

definition bucket_for :: "u64 \<Rightarrow> nat" where
  "bucket_for key = unat (drop_bit 58 (drop_bit 2 key * 0x9E3779B97F4A7C15) AND 63)"

section \<open>Waiting\<close>

datatype futex_result = Futex_Returns int | Futex_Sleeps

text \<open>A timeout is given by its seconds and nanoseconds.\<close>

definition futex_wait :: "nat \<Rightarrow> u64 \<Rightarrow> u32 \<Rightarrow> (int \<times> int) option \<Rightarrow> futexes \<Rightarrow> futex_result \<times> futexes" where
  "futex_wait t key val timeout s =
     (if key = 0 then (Futex_Returns (- EFAULT), s)
      else if (case timeout of None \<Rightarrow> False | Some (sec, nsec) \<Rightarrow> sec < 0 \<or> nsec < 0 \<or> 1000000000 \<le> nsec)
      then (Futex_Returns (- EINVAL), s)
      else if words s key \<noteq> val then (Futex_Returns (- EAGAIN), s)
      else let b = bucket_for key
        in (Futex_Sleeps, s\<lparr>buckets := (buckets s)[b := \<lparr>thread = t, fkey = key\<rparr> # buckets s ! b],
              waiting := (waiting s)(t := Some key), woken := (woken s)(t := False), asleep := (asleep s)(t := True)\<rparr>))"

text \<open>The end of \<open>futex_wait\<close>, after a sleep that ended with \<open>rc\<close>.\<close>

definition futex_wait_end :: "nat \<Rightarrow> u64 \<Rightarrow> int \<Rightarrow> futexes \<Rightarrow> int \<times> futexes" where
  "futex_wait_end t key rc s =
     (let b = bucket_for key;
          bs = (if woken s t then buckets s else (buckets s)[b := remove1 \<lparr>thread = t, fkey = key\<rparr> (buckets s ! b)])
      in (if woken s t then 0 else if rc = - ETIMEDOUT then - ETIMEDOUT else if rc = - EINTR then - EINTR else 0,
          s\<lparr>buckets := bs, waiting := (waiting s)(t := None), woken := (woken s)(t := False)\<rparr>))"

section \<open>Waking\<close>

text \<open>The walk over a list with \<open>n\<close> wake-ups to give: the threads woken, and the list left.\<close>

fun wake_walk :: "u64 \<Rightarrow> nat \<Rightarrow> futex_waiter list \<Rightarrow> nat list \<times> futex_waiter list" where
  "wake_walk key 0 ws = ([], ws)"
| "wake_walk key (Suc n) [] = ([], [])"
| "wake_walk key (Suc n) (w # ws) =
     (if fkey w \<noteq> key then (let (ts, rest) = wake_walk key (Suc n) ws in (ts, w # rest))
      else (let (ts, rest) = wake_walk key n ws in (thread w # ts, rest)))"

definition futex_wake :: "u64 \<Rightarrow> u32 \<Rightarrow> futexes \<Rightarrow> int \<times> futexes" where
  "futex_wake key val s =
     (if key = 0 then (- EFAULT, s)
      else let b = bucket_for key; (ts, rest) = wake_walk key (unat val) (buckets s ! b)
        in (int (length ts), s\<lparr>buckets := (buckets s)[b := rest],
              woken := (\<lambda>t. woken s t \<or> t \<in> set ts), asleep := (\<lambda>t. asleep s t \<and> t \<notin> set ts)\<rparr>))"

definition futex_requeue :: "u64 \<Rightarrow> u32 \<Rightarrow> u32 \<Rightarrow> futexes \<Rightarrow> int \<times> futexes" where
  "futex_requeue key val val2 s =
     (let (n, s) = futex_wake key val s in
      if n < 0 then (n, s)
      else if 0 < val2 then (let (m, s) = futex_wake key val2 s in (if 0 < m then n + m else n, s))
      else (n, s))"

text \<open>\<open>writable\<close>: the result of the check of the user range; \<open>cmd\<close>: the operation without its flags.\<close>

definition futex_op ::
  "nat \<Rightarrow> u64 \<Rightarrow> bool \<Rightarrow> u64 \<Rightarrow> nat \<Rightarrow> u32 \<Rightarrow> (int \<times> int) option \<Rightarrow> u32 \<Rightarrow> u32 \<Rightarrow> futexes \<Rightarrow> futex_result \<times> futexes" where
  "futex_op t uaddr writable key cmd val timeout val2 val3 s =
     (if uaddr = 0 \<or> uaddr AND 3 \<noteq> 0 then (Futex_Returns (- EINVAL), s)
      else if \<not> writable then (Futex_Returns (- EFAULT), s)
      else if cmd = 0 then futex_wait t key val timeout s
      else if cmd = 1 then apfst Futex_Returns (futex_wake key val s)
      else if cmd = 3 then apfst Futex_Returns (futex_requeue key val val2 s)
      else if cmd = 4
      then (if words s key \<noteq> val3 then (Futex_Returns (- EAGAIN), s) else apfst Futex_Returns (futex_requeue key val val2 s))
      else (Futex_Returns (- ENOSYS), s))"

section \<open>The lists hold the sleepers\<close>

definition listed :: "futexes \<Rightarrow> nat \<Rightarrow> futex_waiter set" where
  "listed s b = {w. bucket_for (fkey w) = b \<and> waiting s (thread w) = Some (fkey w) \<and> \<not> woken s (thread w)}"

definition futex_inv :: "futexes \<Rightarrow> bool" where
  "futex_inv s \<longleftrightarrow> length (buckets s) = FUTEX_BUCKETS
     \<and> (\<forall>b < FUTEX_BUCKETS. distinct (buckets s ! b) \<and> set (buckets s ! b) = listed s b)
     \<and> (\<forall>t. asleep s t \<longrightarrow> waiting s t \<noteq> None \<and> \<not> woken s t)"

lemma bucket_less: "bucket_for key < FUTEX_BUCKETS"
proof -
  have "(63 :: u64) = mask 6" by (simp add: mask_eq_exp_minus_1)
  then have "drop_bit 58 (drop_bit 2 key * 0x9E3779B97F4A7C15) AND 63 < (2 ^ 6 :: u64)"
    using and_mask_less' [of 6 "drop_bit 58 (drop_bit 2 key * 0x9E3779B97F4A7C15)"] by simp
  then show ?thesis by (simp add: bucket_for_def word_less_nat_alt)
qed

lemma inv_bucket:
  assumes "futex_inv s" and "b < FUTEX_BUCKETS"
  shows "distinct (buckets s ! b)" and "set (buckets s ! b) = listed s b" and "b < length (buckets s)"
  using assms by (auto simp: futex_inv_def)

lemma futex_invI:
  assumes "length (buckets s') = FUTEX_BUCKETS"
    and "\<And>b. b < FUTEX_BUCKETS \<Longrightarrow> distinct (buckets s' ! b)"
    and "\<And>b w. b < FUTEX_BUCKETS \<Longrightarrow> w \<in> set (buckets s' ! b) \<longleftrightarrow> w \<in> listed s' b"
    and "\<And>t. asleep s' t \<Longrightarrow> waiting s' t \<noteq> None \<and> \<not> woken s' t"
  shows "futex_inv s'"
  using assms unfolding futex_inv_def by blast

lemma inv_asleep: "futex_inv s \<Longrightarrow> asleep s t \<Longrightarrow> waiting s t \<noteq> None \<and> \<not> woken s t"
  by (simp add: futex_inv_def)

lemma wake_walk_ok:
  assumes "wake_walk key n ws = (ts, rest)"
  shows "ts = map thread (take n (filter (\<lambda>w. fkey w = key) ws)) \<and>
    (distinct ws \<longrightarrow> distinct rest \<and> (\<forall>x. x \<in> set rest \<longleftrightarrow> x \<in> set ws \<and> x \<notin> set (take n (filter (\<lambda>w. fkey w = key) ws))))"
  using assms
proof (induction key n ws arbitrary: ts rest rule: wake_walk.induct)
  case (3 key n w ws)
  have t: "x \<in> set (take m (filter (\<lambda>w. fkey w = key) ws)) \<Longrightarrow> x \<in> set ws \<and> fkey x = key" for x m
    by (drule in_set_takeD) simp
  show ?case
  proof (cases "fkey w = key")
    case True
    obtain ts' where r: "wake_walk key n ws = (ts', rest)" "ts = thread w # ts'"
      using "3.prems" True by (auto split: prod.splits)
    have ih: "ts' = map thread (take n (filter (\<lambda>w. fkey w = key) ws))"
        "distinct ws \<Longrightarrow> distinct rest" "distinct ws \<Longrightarrow> x \<in> set rest \<longleftrightarrow> x \<in> set ws \<and> x \<notin> set (take n (filter (\<lambda>w. fkey w = key) ws))" for x
      using "3.IH"(2) [OF _ r(1)] True by blast+
    have "x \<in> set rest \<longleftrightarrow> x \<in> set (w # ws) \<and> x \<notin> set (take (Suc n) (filter (\<lambda>w. fkey w = key) (w # ws)))" if "distinct (w # ws)" for x
      using ih(3) [of x] that True by (cases "x = w") auto
    then show ?thesis using ih(1,2) r(2) True by simp
  next
    case False
    obtain rest' where r: "wake_walk key (Suc n) ws = (ts, rest')" "rest = w # rest'"
      using "3.prems" False by (auto split: prod.splits)
    have ih: "ts = map thread (take (Suc n) (filter (\<lambda>w. fkey w = key) ws))"
        "distinct ws \<Longrightarrow> distinct rest'" "distinct ws \<Longrightarrow> x \<in> set rest' \<longleftrightarrow> x \<in> set ws \<and> x \<notin> set (take (Suc n) (filter (\<lambda>w. fkey w = key) ws))" for x
      using "3.IH"(1) [OF False r(1)] by blast+
    have "x \<in> set rest \<longleftrightarrow> x \<in> set (w # ws) \<and> x \<notin> set (take (Suc n) (filter (\<lambda>w. fkey w = key) (w # ws)))" if "distinct (w # ws)" for x
      using ih(3) [of x] that False t [of x "Suc n"] r(2) by (cases "x = w") auto
    moreover have "distinct rest" if "distinct (w # ws)" using ih(2) ih(3) [of w] that r(2) by simp
    ultimately show ?thesis using ih(1) False by simp
  qed
qed simp_all

lemma futex_wait_inv:
  assumes "futex_inv s" and "waiting s t = None"
  shows "futex_inv (snd (futex_wait t key val timeout s))"
proof (cases "fst (futex_wait t key val timeout s)")
  case (Futex_Returns rc)
  then have "snd (futex_wait t key val timeout s) = s" by (auto simp: futex_wait_def Let_def split: if_splits)
  then show ?thesis using assms(1) by simp
next
  case Futex_Sleeps
  define s' where "s' = snd (futex_wait t key val timeout s)"
  let ?b = "bucket_for key" and ?w = "\<lparr>thread = t, fkey = key\<rparr>"
  have s': "buckets s' = (buckets s)[?b := ?w # buckets s ! ?b]" "waiting s' = (waiting s)(t := Some key)"
      "woken s' = (woken s)(t := False)" "asleep s' = (asleep s)(t := True)"
    using Futex_Sleeps by (auto simp: s'_def futex_wait_def Let_def split: if_splits)
  have l: "x \<in> listed s' b \<longleftrightarrow> (if thread x = t then x = ?w \<and> b = ?b else x \<in> listed s b)" for x b
    by (cases x) (auto simp: listed_def s')
  have n: "x \<in> listed s b \<Longrightarrow> thread x \<noteq> t" for x b using assms(2) by (auto simp: listed_def)
  have "futex_inv s'"
  proof (rule futex_invI)
    show "length (buckets s') = FUTEX_BUCKETS" using assms(1) by (simp add: s' futex_inv_def)
    fix b :: nat assume b: "b < FUTEX_BUCKETS"
    note o = inv_bucket [OF assms(1) b]
    have e: "buckets s' ! b = (if b = ?b then ?w # buckets s ! b else buckets s ! b)" using o(3) by (auto simp: s'(1) nth_list_update)
    have w: "?w \<notin> set (buckets s ! b)" unfolding o(2) using n [of ?w b] by auto
    show "distinct (buckets s' ! b)" unfolding e using o(1) w by (cases "b = ?b") simp_all
    have "x \<in> set (buckets s' ! b) \<longleftrightarrow> b = ?b \<and> x = ?w \<or> x \<in> listed s b" for x
      unfolding e using o(2) by (cases "b = ?b") simp_all
    then show "x \<in> set (buckets s' ! b) \<longleftrightarrow> x \<in> listed s' b" for x
      unfolding l using n [of x b] by (cases "x = ?w") auto
  next
    show "waiting s' u \<noteq> None \<and> \<not> woken s' u" if "asleep s' u" for u
      using that inv_asleep [OF assms(1), of u] by (cases "u = t") (auto simp: s')
  qed
  then show ?thesis by (simp add: s'_def)
qed

lemma futex_wait_end_inv:
  assumes "futex_inv s" and "waiting s t = Some key" and "\<not> asleep s t"
  shows "futex_inv (snd (futex_wait_end t key rc s))"
proof -
  define s' where "s' = snd (futex_wait_end t key rc s)"
  let ?b = "bucket_for key" and ?w = "\<lparr>thread = t, fkey = key\<rparr>"
  have s': "buckets s' = (if woken s t then buckets s else (buckets s)[?b := remove1 ?w (buckets s ! ?b)])"
      "waiting s' = (waiting s)(t := None)" "woken s' = (woken s)(t := False)" "asleep s' = asleep s"
    by (simp_all add: s'_def futex_wait_end_def Let_def)
  have l: "x \<in> listed s' b \<longleftrightarrow> thread x \<noteq> t \<and> x \<in> listed s b" for x b by (auto simp: listed_def s')
  have n: "x \<in> listed s b \<Longrightarrow> thread x = t \<Longrightarrow> x = ?w \<and> b = ?b \<and> \<not> woken s t" for x b
    using assms(2) by (cases x) (auto simp: listed_def)
  have "futex_inv s'"
  proof (rule futex_invI)
    show "length (buckets s') = FUTEX_BUCKETS" using assms(1) by (simp add: s' futex_inv_def)
    fix b :: nat assume b: "b < FUTEX_BUCKETS"
    note o = inv_bucket [OF assms(1) b]
    have e: "buckets s' ! b = (if b = ?b \<and> \<not> woken s t then remove1 ?w (buckets s ! b) else buckets s ! b)"
      using o(3) by (auto simp: s'(1) nth_list_update)
    show "distinct (buckets s' ! b)" unfolding e using o(1) by (cases "b = ?b") (simp_all add: distinct_remove1)
    have m: "x \<in> set (buckets s' ! b) \<longleftrightarrow> x \<in> listed s b \<and> \<not> (b = ?b \<and> \<not> woken s t \<and> x = ?w)" for x
    proof (cases "b = ?b \<and> \<not> woken s t")
      case True
      then have "buckets s' ! b = remove1 ?w (buckets s ! b)" using e by presburger
      then have "set (buckets s' ! b) = listed s b - {?w}" using set_remove1_eq [OF o(1), of ?w] o(2) by metis
      then show ?thesis using True by blast
    next
      case False
      then have "buckets s' ! b = buckets s ! b" using e by presburger
      then have "set (buckets s' ! b) = listed s b" using o(2) by metis
      then show ?thesis using False by blast
    qed
    show "x \<in> set (buckets s' ! b) \<longleftrightarrow> x \<in> listed s' b" for x
    proof (cases "thread x = t")
      case True
      then show ?thesis unfolding l using m [of x] n [of x b] by blast
    next
      case False
      then have "x \<noteq> ?w" by auto
      then show ?thesis unfolding l using m [of x] False by blast
    qed
  next
    show "waiting s' u \<noteq> None \<and> \<not> woken s' u" if "asleep s' u" for u
      using that inv_asleep [OF assms(1), of u] assms(3) by (cases "u = t") (auto simp: s')
  qed
  then show ?thesis by (simp add: s'_def)
qed

text \<open>The threads that wait on a word and have not been woken.\<close>

definition sleepers :: "futexes \<Rightarrow> u64 \<Rightarrow> nat set" where
  "sleepers s key = {t. waiting s t = Some key \<and> \<not> woken s t}"

lemma sleepers_list:
  assumes "futex_inv s"
  shows "distinct (map thread (filter (\<lambda>w. fkey w = key) (buckets s ! bucket_for key)))"
    and "set (map thread (filter (\<lambda>w. fkey w = key) (buckets s ! bucket_for key))) = sleepers s key"
proof -
  note o = inv_bucket [OF assms bucket_less [of key]]
  have "inj_on thread (listed s (bucket_for key))"
    by (rule inj_onI) (auto simp: listed_def intro: futex_waiter.equality)
  then show "distinct (map thread (filter (\<lambda>w. fkey w = key) (buckets s ! bucket_for key)))"
    using o(1,2) by (auto simp: distinct_map intro: inj_on_subset)
  have "t \<in> thread ` {w \<in> listed s (bucket_for key). fkey w = key}" if "t \<in> sleepers s key" for t
    using that by (intro image_eqI [where x = "\<lparr>thread = t, fkey = key\<rparr>"]) (auto simp: sleepers_def listed_def)
  then show "set (map thread (filter (\<lambda>w. fkey w = key) (buckets s ! bucket_for key))) = sleepers s key"
    using o(2) by (auto simp: sleepers_def listed_def)
qed

lemma futex_wake_ok:
  assumes "futex_inv s" and "key \<noteq> 0"
  shows "\<exists>ts s'. futex_wake key val s = (int (length ts), s') \<and> futex_inv s' \<and> distinct ts \<and> set ts \<subseteq> sleepers s key
    \<and> length ts = min (unat val) (card (sleepers s key)) \<and> waiting s' = waiting s
    \<and> woken s' = (\<lambda>t. woken s t \<or> t \<in> set ts) \<and> asleep s' = (\<lambda>t. asleep s t \<and> t \<notin> set ts)"
proof -
  let ?b = "bucket_for key"
  let ?m = "filter (\<lambda>w. fkey w = key) (buckets s ! ?b)"
  obtain ts rest where w: "wake_walk key (unat val) (buckets s ! ?b) = (ts, rest)" by fastforce
  note o = inv_bucket [OF assms(1) bucket_less [of key]]
  have ts: "ts = take (unat val) (map thread ?m)" and rest: "distinct rest"
      "\<And>x. x \<in> set rest \<longleftrightarrow> x \<in> set (buckets s ! ?b) \<and> x \<notin> set (take (unat val) ?m)"
    using wake_walk_ok [OF w] o(1) by (auto simp: take_map)
  note sl = sleepers_list [OF assms(1), of key]
  have d: "distinct ts" "set ts \<subseteq> sleepers s key" using sl ts by (auto dest: in_set_takeD simp del: set_map)
  have "card (sleepers s key) = length (map thread ?m)" using distinct_card [OF sl(1)] sl(2) by simp
  then have len: "length ts = min (unat val) (card (sleepers s key))" using ts by (simp add: min.commute)
  define s' where "s' = snd (futex_wake key val s)"
  have s': "buckets s' = (buckets s)[?b := rest]" "waiting s' = waiting s" "woken s' = (\<lambda>t. woken s t \<or> t \<in> set ts)"
      "asleep s' = (\<lambda>t. asleep s t \<and> t \<notin> set ts)" "futex_wake key val s = (int (length ts), s')"
    using assms(2) w by (simp_all add: s'_def futex_wake_def Let_def)
  have taken: "x \<in> set (take (unat val) ?m) \<longleftrightarrow> thread x \<in> set ts" if "x \<in> listed s b" for x b
  proof
    show "thread x \<in> set ts" if "x \<in> set (take (unat val) ?m)" using that ts by (auto simp: take_map)
    assume "thread x \<in> set ts"
    then obtain y where y: "y \<in> set (take (unat val) ?m)" "thread y = thread x" using ts by (auto simp: take_map)
    have "y \<in> set ?m" using y(1) by (rule in_set_takeD)
    then have "y \<in> listed s ?b" using o(2) by simp
    then have "waiting s (thread x) = Some (fkey y)" using y(2) by (simp add: listed_def)
    moreover have "waiting s (thread x) = Some (fkey x)" using that by (simp add: listed_def)
    ultimately have "y = x" using y(2) by simp
    then show "x \<in> set (take (unat val) ?m)" using y(1) by simp
  qed
  have "futex_inv s'"
  proof (rule futex_invI)
    show "length (buckets s') = FUTEX_BUCKETS" using assms(1) by (simp add: s' futex_inv_def)
    fix b :: nat assume b: "b < FUTEX_BUCKETS"
    note ob = inv_bucket [OF assms(1) b]
    have e: "buckets s' ! b = (if b = ?b then rest else buckets s ! b)" using ob(3) by (auto simp: s'(1) nth_list_update)
    show "distinct (buckets s' ! b)" unfolding e using rest(1) ob(1) by (cases "b = ?b") simp_all
    have l: "x \<in> listed s' b \<longleftrightarrow> x \<in> listed s b \<and> thread x \<notin> set ts" for x by (auto simp: listed_def s')
    have other: "thread x \<notin> set ts" if "x \<in> listed s b" "b \<noteq> ?b" for x
      using that d(2) by (auto simp: listed_def sleepers_def)
    show "x \<in> set (buckets s' ! b) \<longleftrightarrow> x \<in> listed s' b" for x
    proof (cases "b = ?b")
      case True
      then have "x \<in> set (buckets s' ! b) \<longleftrightarrow> x \<in> listed s b \<and> x \<notin> set (take (unat val) ?m)"
        unfolding e using rest(2) [of x] ob(2) by simp
      then show ?thesis unfolding l using taken [of x b] by blast
    next
      case False
      then have "x \<in> set (buckets s' ! b) \<longleftrightarrow> x \<in> listed s b" unfolding e using ob(2) by simp
      then show ?thesis unfolding l using other [OF _ False] by blast
    qed
  next
    show "waiting s' u \<noteq> None \<and> \<not> woken s' u" if "asleep s' u" for u
      using that inv_asleep [OF assms(1), of u] by (auto simp: s')
  qed
  then show ?thesis using s' d len by blast
qed

section \<open>Runs\<close>

text \<open>Threads call \<open>futex_op\<close>, words change, sleeps end by timeouts and signals, and threads whose sleep has
  ended finish their wait. The two wake-ups of a requeue are taken together; apart they are two wake-ups.\<close>

inductive futex_reach :: "futexes \<Rightarrow> bool" where
  start: "futex_reach (futex_init \<lparr>buckets = bs, words = m, waiting = (\<lambda>t. None), woken = (\<lambda>t. False), asleep = (\<lambda>t. False)\<rparr>)"
| user: "futex_reach s \<Longrightarrow> futex_reach (s\<lparr>words := m\<rparr>)"
| call: "futex_reach s \<Longrightarrow> waiting s t = None \<Longrightarrow>
    futex_op t uaddr writable key cmd val timeout val2 val3 s = (r, s') \<Longrightarrow> futex_reach s'"
| ended: "futex_reach s \<Longrightarrow> futex_reach (s\<lparr>asleep := (asleep s)(t := False)\<rparr>)"
| resume: "futex_reach s \<Longrightarrow> waiting s t = Some key \<Longrightarrow> \<not> asleep s t \<Longrightarrow>
    futex_wait_end t key rc s = (r, s') \<Longrightarrow> futex_reach s'"

lemma futex_wake_inv: "futex_inv s \<Longrightarrow> futex_inv (snd (futex_wake key val s))"
  using futex_wake_ok [of s key val] by (cases "key = 0") (auto simp: futex_wake_def)

lemma futex_requeue_inv: "futex_inv s \<Longrightarrow> futex_inv (snd (futex_requeue key val val2 s))"
  using futex_wake_inv [of s key val] futex_wake_inv [of "snd (futex_wake key val s)" key val2]
  by (auto simp: futex_requeue_def Let_def split: prod.split)

lemma inv_fields:
  assumes "futex_inv s"
  shows "futex_inv (s\<lparr>words := m\<rparr>)" and "futex_inv (s\<lparr>asleep := (asleep s)(t := False)\<rparr>)"
  using assms by (auto simp: futex_inv_def listed_def)

lemma futex_op_inv:
  assumes "futex_inv s" and "waiting s t = None"
  shows "futex_inv (snd (futex_op t uaddr writable key cmd val timeout val2 val3 s))"
  using assms futex_wait_inv [OF assms] futex_wake_inv [OF assms(1)] futex_requeue_inv [OF assms(1)]
  by (simp add: futex_op_def)

lemma futex_reach_inv: "futex_reach s \<Longrightarrow> futex_inv s"
proof (induction rule: futex_reach.induct)
  case (start bs m)
  show ?case by (rule futex_invI) (simp_all add: futex_init_def listed_def)
next
  case (user s m)
  show ?case by (rule inv_fields(1) [OF user.IH])
next
  case (call s t uaddr writable key cmd val timeout val2 val3 r s')
  then show ?case using futex_op_inv [OF call.IH call.hyps(2)] by (metis snd_conv)
next
  case (ended s t)
  show ?case by (rule inv_fields(2) [OF ended.IH])
next
  case (resume s t key rc r s')
  then show ?case using futex_wait_end_inv [OF resume.IH resume.hyps(2,3)] by (metis snd_conv)
qed

text \<open>C19: wake-ups reach their sleepers. In every run, a wake-up on a mapped word returns the number of threads
  it wakes, as many as asked for or all that wait on the word, each of them waiting on that very word; it
  changes no other thread, and with enough wake-ups nobody stays asleep on the word. And no list refers
  to the stack of a thread that is not waiting.\<close>

theorem futex_wake_exact:
  assumes "futex_reach s" and "key \<noteq> 0"
  shows "(\<exists>ts s'. futex_wake key val s = (int (length ts), s') \<and> distinct ts \<and> set ts \<subseteq> sleepers s key
      \<and> length ts = min (unat val) (card (sleepers s key))
      \<and> woken s' = (\<lambda>t. woken s t \<or> t \<in> set ts) \<and> asleep s' = (\<lambda>t. asleep s t \<and> t \<notin> set ts)
      \<and> (card (sleepers s key) \<le> unat val \<longrightarrow> \<not> (asleep s' u \<and> waiting s' u = Some key)))
    \<and> (waiting s t = None \<and> b < FUTEX_BUCKETS \<longrightarrow> t \<notin> thread ` set (buckets s ! b))"
proof -
  note inv = futex_reach_inv [OF assms(1)]
  obtain ts s' where w: "futex_wake key val s = (int (length ts), s')" "distinct ts" "set ts \<subseteq> sleepers s key"
      "length ts = min (unat val) (card (sleepers s key))" "waiting s' = waiting s"
      "woken s' = (\<lambda>t. woken s t \<or> t \<in> set ts)" "asleep s' = (\<lambda>t. asleep s t \<and> t \<notin> set ts)"
    using futex_wake_ok [OF inv assms(2), of val] by blast
  have fin: "finite (sleepers s key)" using sleepers_list(2) [OF inv, of key] by (metis finite_set)
  have "\<not> (asleep s' u \<and> waiting s' u = Some key)" if "card (sleepers s key) \<le> unat val"
  proof -
    have "card (set ts) = card (sleepers s key)" using that w(2,4) by (simp add: distinct_card)
    then have "set ts = sleepers s key" using card_subset_eq [OF fin w(3)] by blast
    then show ?thesis using inv_asleep [OF inv, of u] w(5,7) by (auto simp: sleepers_def)
  qed
  moreover have "t \<notin> thread ` set (buckets s ! b)" if "waiting s t = None" "b < FUTEX_BUCKETS"
    using inv_bucket(2) [OF inv that(2)] that(1) by (auto simp: listed_def)
  ultimately show ?thesis using w by blast
qed

definition quiet :: futexes where
  "quiet = futex_init \<lparr>buckets = [], words = (\<lambda>a. 0), waiting = (\<lambda>t. None), woken = (\<lambda>t. False), asleep = (\<lambda>t. False)\<rparr>"

definition one_waiter :: futexes where
  "one_waiter = snd (futex_op 5 0x1000 True 0x4000 0 0 None 0 0 quiet)"

lemma one_waiter_reach: "futex_reach one_waiter"
proof -
  have "futex_reach quiet" "waiting quiet 5 = None" by (simp_all add: quiet_def futex_reach.start) (simp add: futex_init_def)
  then show ?thesis unfolding one_waiter_def by (rule futex_reach.call) (rule prod.collapse [symmetric])
qed

theorem futex_wake_exact_witness: "fst (futex_wake 0x4000 1 one_waiter) = 1"
proof -
  have "waiting one_waiter = (\<lambda>t. None)(5 := Some 0x4000)" "\<not> woken one_waiter 5"
    by (simp_all add: one_waiter_def futex_op_def futex_wait_def Let_def quiet_def futex_init_def)
  then have "sleepers one_waiter 0x4000 = {5}" by (auto simp: sleepers_def split: if_splits)
  then show ?thesis using futex_wake_exact [OF one_waiter_reach, of "0x4000" 1 0 0 0] by auto
qed

end
