(* ===== verification/Spec2Isabelle.thy ===== *)
theory Spec2Isabelle
  imports Pid_Alloc Fair_Main Pmm_Correct Vma_Wx Vma_Checks Fd_Correct Wheel_Correct Heap_Correct Pipe_Correct Pipe_Create Eventfd Flock_Correct Blkcache_Correct Part Futex
begin

text \<open>
  Verification development for the NeoOS kernel (\<open>src/kernel\<close>).

  \<^bold>\<open>The program.\<close> NeoOS is a multiprocessor x86-64 kernel in C. The parts modelled here are its memory
  management (frame allocator, kernel heap, page tables, TLB shootdown, process mappings), its fair
  scheduling class with the red-black tree beneath it, its timer wheel, its small allocators (pids,
  file descriptors), its pipes, event counters and futexes, its record locks, its sector cache and its
  scanner of partition tables. They meet in
  memory: the frame allocator, the heap and the page tables keep their links and entries in one
  physical memory, and mappings, faults and unmapping go through page tables, deferred frees and frames.

  \<^bold>\<open>Theories and code.\<close>
  \<^item> \<open>Prelude\<close>: integer types, errno values, failing loops (\<open>fold_opt\<close>). \<open>Alloc_Spec\<close>: the interface
    \<open>id_allocator\<close> of an allocator of identities, interpreted by pids, frames and descriptors.
  \<^item> \<open>Pid_Alloc\<close>: \<open>sched/pid_alloc.c\<close>. The bitmap with its rotating cursor; the nearest free pid is
    found, failure means that all are taken.
  \<^item> \<open>Rbtree\<close>, \<open>Rbtree_Rep\<close>, \<open>Rbtree_Insert\<close>, \<open>Rbtree_Inv\<close>, \<open>Rbtree_Erase\<close>, \<open>Rbtree_Unlink\<close>,
    \<open>Rbtree_Iter\<close>, \<open>Rbtree_Correct\<close>: \<open>lib/rbtree.c\<close> and \<open>lib/rbtree.h\<close>. Nodes are cells of a heap with the
    colour in the parent word; a heap represents a tree in a context (a zipper). Insertion and erasure
    keep the in-order sequence and the colour invariant, the height is logarithmic, iteration follows
    the order. The augmentation callbacks are the interface \<open>rb_augmented\<close>/\<open>rb_erasable\<close>.
  \<^item> \<open>Fair\<close> and \<open>Fair_*\<close>: \<open>sched/fair.c\<close> (EEVDF). Entities live in the nodes of the tree; the invariant
    ties the sums, the counts, the order by deadline and the minimum of the virtual run times in each
    subtree together; the pick is the eligible entity with the earliest deadline; the class always runs
    something when something is runnable. A stale aggregate is reported as a finding.
  \<^item> \<open>Pmm\<close>, \<open>Pmm_Lists\<close>, \<open>Pmm_Inv\<close>, \<open>Pmm_Correct\<close>: \<open>mm/pmm.c\<close>. The buddy lists are doubly linked through
    the free frames; allocation and free are described on the set of free frames, fully coalesced.
  \<^item> \<open>Heap\<close>, \<open>Heap_Pages\<close>, \<open>Heap_Correct\<close>: \<open>mm/heap.c\<close> on the same memory; blocks in use never overlap.
  \<^item> \<open>Tlb\<close>: \<open>smp/tlb.c\<close>; \<open>Paging\<close>: \<open>mm/paging.c\<close>. Deferred frees, shootdown targets, page-table walks
    and every change of an entry, on the memory of \<open>Pmm\<close>.
  \<^item> \<open>Vma\<close>, \<open>Vma_Lists\<close>, \<open>Vma_Protect\<close>, \<open>Vma_Main\<close>, \<open>Vma_Wx\<close>, \<open>Vma_Checks\<close>: \<open>mm/vma.c\<close>. The list of
    mappings is read as a partial function from addresses (\<open>cover\<close>); unmap, map and protect are updates
    of that function, and no reachable mapping is writable and executable. Two theorems show where the
    code falls short: \<open>mmap\<close> past a fixed mapping leaves an overlap, and a copy-on-write page stays
    writable after \<open>mprotect\<close>.
  \<^item> \<open>Fd_Table\<close>, \<open>Fd_Correct\<close>: \<open>sched/fd_table.c\<close>. The lowest free descriptor, with the exact conditions
    of failure, \<open>dup2\<close>, close.
  \<^item> \<open>Wheel\<close>, \<open>Wheel_Correct\<close>: \<open>time/wheel.c\<close>. A timer is due within one slot of its level after the
    later of its expiry and the clock of the wheel, and never before its expiry, whatever happens to other
    timers.
  \<^item> \<open>Pipe\<close>, \<open>Pipe_Correct\<close>, \<open>Pipe_Create\<close>: \<open>ipc/pipe.c\<close> and the read loop of \<open>syscall/sys_file.c\<close>. The
    ring refines a bounded queue; threads are a step relation with explicit sleeps and wake-ups.
  \<^item> \<open>Eventfd\<close>: \<open>ipc/eventfd.c\<close>. \<open>Futex\<close>: \<open>ipc/futex.c\<close>; the hashed lists hold exactly the threads that wait
    and have not been woken, so a wake-up finds its sleepers.
  \<^item> \<open>Flock\<close>, \<open>Flock_Correct\<close>: \<open>fs/flock.c\<close>. The table of records is read as the set of bytes each process
    holds (\<open>held\<close>); a request removes a range from that set and adds one, writers exclude, a
    request fails for want of records exactly when the counts say so, and whoever sleeps unwoken has a
    conflict or a wake-up to come.
  \<^item> \<open>Blkcache\<close>, \<open>Blkcache_Correct\<close>: \<open>fs/blkcache.c\<close> with the partition arithmetic of \<open>block/blockdev.c\<close>.
    Threads run between the sections on either side of a device transfer; what is cached is what is on
    the disk unless that sector is being written.
  \<^item> \<open>Crc32\<close>: \<open>lib/crc32.c\<close>, equal to the bitwise CRC-32. \<open>Part\<close>: \<open>block/part.c\<close>; for any contents of a
    disk the registered partitions are entries of the table in use, lie on the disk and do not overlap, and
    no entry that could be registered is missed.

  \<^bold>\<open>Conventions.\<close> A section under a lock is one function, and so is an operation made of several
  sections where its theory says that it runs alone. \<open>None\<close> is a panic or a bad dereference. Machine
  integers are words where they can wrap, \<open>nat\<close> or \<open>int\<close> where a check bounds them. Loops that follow
  links are \<open>partial_function (option)\<close> and the theorems state that they return; the loops of the wheel,
  the allocator and the read system call are total, with a measure. No fuel is used. The outcomes of
  allocations made by code outside a model are inputs of its state, so that both outcomes are covered.

  \<^bold>\<open>Not modelled.\<close> Boot, interrupt entry, context switches and device drivers (hardware effects); the
  file systems, the network stack, signals, sockets and terminals; process creation and the
  system call decoding in front of the modelled operations; the spin-lock rank checks and the wait-queue
  implementation, which the models replace by atomic sections and explicit sleeping and waking; the
  debug build of the heap; the self-tests.
\<close>

end
